(* ===== verification/Prelude.thy ===== *)
theory Prelude
  imports Main "HOL-Library.Word"
begin

text \<open>
  Prelude of the development: the integer types of the Rust sources, the result type of
  operations that can fail or panic, checked addition, little-endian encoding of words, and
  windows of byte lists (reading and overwriting a range of a buffer). Everything here is
  shared by the theories of the three rungs (\<^verbatim>\<open>rung-01-kvm\<close>, \<^verbatim>\<open>rung-02-virtio\<close>,
  \<^verbatim>\<open>rung-03-uffd\<close>); nothing here is about one component.

  Conventions. A Rust integer \<^verbatim>\<open>uN\<close> is a word of \<open>N\<close> bits; \<^verbatim>\<open>usize\<close> is 64 bits wide (the
  crates target x86-64 Linux) and is a \<^typ>\<open>nat\<close> where it only counts elements of a vector.
  \<^verbatim>\<open>+\<close>, \<^verbatim>\<open>-\<close> and \<^verbatim>\<open>*\<close> wrap, as in the release profile; where a development build would panic
  on overflow a lemma shows that the operands never overflow, or the model has an explicit
  switch. \<^verbatim>\<open>assert!\<close>, \<^verbatim>\<open>unwrap\<close>, \<^verbatim>\<open>expect\<close> and division by zero panic in every profile and are
  branches of the model.
\<close>

unbundle bit_operations_syntax

section \<open>Types\<close>

type_synonym u8 = "8 word"
type_synonym u16 = "16 word"
type_synonym u32 = "32 word"
type_synonym u64 = "64 word"

text \<open>The result of a Rust call that returns \<^verbatim>\<open>Result<T, E>\<close> or panics.\<close>

datatype ('e, 'a) outcome = Ok 'a | Err 'e | Panic

named_theorems window_simps "reading and overwriting ranges of byte lists"
named_theorems mem_laws "what an access of the shared memory returns, as rewrite rules"
named_theorems layout_bounds "positions of the fields of a virtqueue, as facts about naturals"

section \<open>Sizes of words as naturals\<close>

lemma unat_less_exp: "unat x < 2 ^ LENGTH('a)" for x :: "'a::len word"
  by (rule unsigned_less)

lemma unat_lt_256 [simp]: "unat (x :: u8) < 256"
  using unat_less_exp [of x] by simp

lemma unat_u16_lt [simp]: "unat (x :: u16) < 65536"
  using unat_less_exp [of x] by simp

lemma unat_u32_lt [simp]: "unat (x :: u32) < 4294967296"
  using unat_less_exp [of x] by simp

lemma unat_u64_lt [simp]: "unat (x :: u64) < 18446744073709551616"
  using unat_less_exp [of x] by simp

lemma unat_add_small: "unat a + unat b < 2 ^ LENGTH('a) \<Longrightarrow> unat (a + b) = unat a + unat b"
  for a b :: "'a::len word"
  by (simp add: unat_add_lem [symmetric])

lemma unat_of_nat_small: "n < 2 ^ LENGTH('a) \<Longrightarrow> unat (word_of_nat n :: 'a::len word) = n"
  by (simp add: unsigned_of_nat take_bit_nat_eq_self)

lemma unat_of_nat_u64: "n < 18446744073709551616 \<Longrightarrow> unat (word_of_nat n :: u64) = n"
  by (rule unat_of_nat_small) simp

lemma unat_of_nat_u32: "n < 4294967296 \<Longrightarrow> unat (word_of_nat n :: u32) = n"
  by (rule unat_of_nat_small) simp

lemma unat_of_nat_u16: "n < 65536 \<Longrightarrow> unat (word_of_nat n :: u16) = n"
  by (rule unat_of_nat_small) simp

lemma unat_ucast_le: "LENGTH('a) \<le> LENGTH('b) \<Longrightarrow> unat (ucast x :: 'b::len word) = unat x"
  for x :: "'a::len word"
  by (simp add: unsigned_ucast_eq take_bit_nat_eq_self_iff)
     (metis less_le_trans one_le_numeral power_increasing unat_less_exp)

lemma unat_ucast_u16_u64 [simp]: "unat (ucast (x :: u16) :: u64) = unat x"
  by (rule unat_ucast_le) simp

lemma unat_ucast_u16_u32 [simp]: "unat (ucast (x :: u16) :: u32) = unat x"
  by (rule unat_ucast_le) simp

lemma unat_ucast_u32_u64 [simp]: "unat (ucast (x :: u32) :: u64) = unat x"
  by (rule unat_ucast_le) simp

lemma ucast_u16_u32_u16 [simp]: "(ucast (ucast (x :: u16) :: u32) :: u16) = x"
  by (rule bit_word_eqI) (simp add: bit_ucast_iff)

lemma unat_mult_small_u64: "unat a * unat b < 18446744073709551616 \<Longrightarrow> unat (a * b) = unat a * unat b"
  for a b :: u64
  using unat_mult_lem [of a b] by simp

text \<open>Distances of wrapping counters: the number of increments that lead from one to the other.\<close>

lemma unat_diff_add_one: "unat (b - a) < 2 ^ LENGTH('a) - 1 \<Longrightarrow> unat (b + 1 - a) = Suc (unat (b - a))"
  for a b :: "'a::len word"
proof -
  assume "unat (b - a) < 2 ^ LENGTH('a) - 1"
  then have "unat (b - a) + unat (1 :: 'a word) < 2 ^ LENGTH('a)"
    by (simp add: unat_1)
  then have "unat (b - a + 1) = Suc (unat (b - a))"
    by (simp add: unat_add_small)
  moreover have "b + 1 - a = b - a + 1" by (simp add: algebra_simps)
  ultimately show ?thesis by metis
qed

lemma unat_diff_drop_one: "b \<noteq> a \<Longrightarrow> Suc (unat (b - (a + 1))) = unat (b - a)"
  for a b :: "'a::len word"
proof -
  assume "b \<noteq> a"
  then have "b - a \<noteq> 0" by simp
  then have "unat (b - a - 1) = unat (b - a) - 1"
    by (rule unat_minus_one)
  moreover have "0 < unat (b - a)"
    using \<open>b - a \<noteq> 0\<close> by (simp add: unat_gt_0)
  moreover have "b - (a + 1) = b - a - 1" by (simp add: diff_diff_eq)
  ultimately show ?thesis by (metis Suc_pred' One_nat_def)
qed

section \<open>Checked addition\<close>

definition checked_add :: "'a::len word \<Rightarrow> 'a word \<Rightarrow> 'a word option" where
  "checked_add a b = (if unat a + unat b < 2 ^ LENGTH('a) then Some (a + b) else None)"

lemma checked_add_Some_iff: "checked_add a b = Some c \<longleftrightarrow> unat c = unat a + unat b"
  for a b c :: "'a::len word"
proof
  assume "checked_add a b = Some c"
  then show "unat c = unat a + unat b"
    by (auto simp: checked_add_def unat_add_small split: if_splits)
next
  assume eq: "unat c = unat a + unat b"
  then have less: "unat a + unat b < 2 ^ LENGTH('a)"
    by (metis unat_less_exp)
  with eq have "unat c = unat (a + b)"
    by (simp add: unat_add_small)
  then have "c = a + b"
    by (simp add: word_unat_eq_iff)
  with less show "checked_add a b = Some c"
    by (simp add: checked_add_def)
qed

lemma checked_add_None_iff: "checked_add a b = None \<longleftrightarrow> 2 ^ LENGTH('a) \<le> unat a + unat b"
  for a b :: "'a::len word"
  by (auto simp: checked_add_def)

section \<open>Little-endian bytes\<close>

text \<open>\<open>le_bytes n w\<close> is \<^verbatim>\<open>w.to_le_bytes()\<close> for a word of \<open>n\<close> bytes, \<open>of_le_bytes\<close> its inverse.\<close>

fun le_bytes :: "nat \<Rightarrow> 'a::len word \<Rightarrow> u8 list" where
  "le_bytes 0 w = []"
| "le_bytes (Suc n) w = ucast w # le_bytes n (drop_bit 8 w)"

fun le_val :: "u8 list \<Rightarrow> nat" where
  "le_val [] = 0"
| "le_val (b # bs) = unat b + 256 * le_val bs"

definition of_le_bytes :: "u8 list \<Rightarrow> 'a::len word" where
  "of_le_bytes bs = word_of_nat (le_val bs)"

lemma length_le_bytes [simp]: "length (le_bytes n w) = n"
  by (induction n arbitrary: w) auto

lemma unat_ucast_u8: "unat (ucast w :: u8) = unat w mod 256" for w :: "'a::len word"
  by (simp add: unsigned_ucast_eq take_bit_eq_mod)

lemma le_val_le_bytes: "le_val (le_bytes n w) = unat w mod 256 ^ n"
proof (induction n arbitrary: w)
  case 0
  then show ?case by simp
next
  case (Suc n)
  have "le_val (le_bytes (Suc n) w) = unat w mod 256 + 256 * ((unat w div 256) mod 256 ^ n)"
    by (simp only: le_bytes.simps le_val.simps Suc.IH unat_ucast_u8 unat_drop_bit_eq)
       (simp add: drop_bit_eq_div)
  also have "\<dots> = unat w mod (256 * 256 ^ n)"
    by (simp add: mod_mult2_eq)
  finally show ?case by simp
qed

lemma of_le_bytes_le_bytes:
  "LENGTH('a) \<le> 8 * n \<Longrightarrow> of_le_bytes (le_bytes n w) = w" for w :: "'a::len word"
proof -
  assume "LENGTH('a) \<le> 8 * n"
  then have "(2::nat) ^ LENGTH('a) \<le> 2 ^ (8 * n)"
    by (rule power_increasing) simp
  then have "(2::nat) ^ LENGTH('a) \<le> 256 ^ n"
    by (simp add: power_mult)
  then have "unat w mod 256 ^ n = unat w"
    using unat_less_exp [of w] by (intro mod_less) linarith
  then show ?thesis
    by (simp add: of_le_bytes_def le_val_le_bytes)
qed

lemma of_le_bytes_16 [simp]: "of_le_bytes (le_bytes 2 w) = (w :: u16)"
  by (rule of_le_bytes_le_bytes) simp

lemma of_le_bytes_32 [simp]: "of_le_bytes (le_bytes 4 w) = (w :: u32)"
  by (rule of_le_bytes_le_bytes) simp

lemma of_le_bytes_64 [simp]: "of_le_bytes (le_bytes 8 w) = (w :: u64)"
  by (rule of_le_bytes_le_bytes) simp

section \<open>Windows of byte lists\<close>

text \<open>
  \<open>window a n xs\<close> is the slice \<^verbatim>\<open>xs[a..a+n]\<close>, and \<open>blit a ys xs\<close> is \<open>xs\<close> after
  \<^verbatim>\<open>xs[a..a+ys.len()].copy_from_slice(ys)\<close>. Both are used in range only, which the memory
  model checks before it uses them.
\<close>

definition window :: "nat \<Rightarrow> nat \<Rightarrow> 'b list \<Rightarrow> 'b list" where
  "window a n xs = take n (drop a xs)"

definition blit :: "nat \<Rightarrow> 'b list \<Rightarrow> 'b list \<Rightarrow> 'b list" where
  "blit a ys xs = take a xs @ ys @ drop (a + length ys) xs"

lemma length_window [window_simps]: "a + n \<le> length xs \<Longrightarrow> length (window a n xs) = n"
  by (simp add: window_def)

lemma length_blit [window_simps]: "a + length ys \<le> length xs \<Longrightarrow> length (blit a ys xs) = length xs"
  by (simp add: blit_def)

lemma nth_window: "i < n \<Longrightarrow> a + n \<le> length xs \<Longrightarrow> window a n xs ! i = xs ! (a + i)"
  by (simp add: window_def)

lemma nth_blit:
  assumes "a + length ys \<le> length xs" and "i < length xs"
  shows "blit a ys xs ! i = (if a \<le> i \<and> i < a + length ys then ys ! (i - a) else xs ! i)"
proof -
  consider "i < a" | "a \<le> i" "i < a + length ys" | "a + length ys \<le> i" by linarith
  then show ?thesis
  proof cases
    case 1
    with assms show ?thesis by (simp add: blit_def nth_append)
  next
    case 2
    then have "i - a < length ys" by linarith
    with 2 assms show ?thesis by (simp add: blit_def nth_append)
  next
    case 3
    then have "\<not> i < a" and "\<not> i - a < length ys" by linarith+
    with assms have "blit a ys xs ! i = drop (a + length ys) xs ! (i - (a + length ys))"
      by (simp add: blit_def nth_append)
    also have "\<dots> = xs ! i"
      using 3 assms by (simp add: nth_drop)
    finally show ?thesis using 3 by auto
  qed
qed

lemma window_blit_same [window_simps]:
  "a + length ys \<le> length xs \<Longrightarrow> n = length ys \<Longrightarrow> window a n (blit a ys xs) = ys"
  by (simp add: window_def blit_def)

lemma window_cong:
  assumes "length xs = length ys" "a + n \<le> length xs"
    and "\<And>i. a \<le> i \<Longrightarrow> i < a + n \<Longrightarrow> xs ! i = ys ! i"
  shows "window a n xs = window a n ys"
  by (rule nth_equalityI) (use assms in \<open>auto simp: length_window nth_window\<close>)

lemma window_blit_prefix [window_simps]:
  assumes "length ys \<le> n" "a + n \<le> length xs"
  shows "window a n (blit a ys xs) = ys @ drop (length ys) (window a n xs)"
proof -
  have "n - length ys + length ys = n"
    using assms(1) by simp
  then have "take (n - length ys) (drop (a + length ys) xs) = drop (length ys) (take n (drop a xs))"
    by (metis add.commute drop_drop take_drop)
  then show ?thesis
    using assms by (simp add: window_def blit_def)
qed

lemma window_2: "s + 2 \<le> length xs \<Longrightarrow> [xs ! s, xs ! (s + 1)] = window s 2 xs"
  by (rule nth_equalityI) (auto simp: length_window nth_window less_Suc_eq numeral_2_eq_2)

end
