(* ===== verification/VqMem.thy ===== *)
theory VqMem
  imports Prelude
begin

text \<open>
  The shared memory of \<^verbatim>\<open>rung-02-virtio/toy-virtq-raw/src/mem.rs\<close>: one flat region of bytes that
  the driver and the device both read and write, with one bounds check that every accessor goes
  through. The guest supplies the addresses, so the check is what isolates the host.

  A \<^verbatim>\<open>GuestAddr\<close> is its 64-bit address. A read or a write returns \<open>Inl\<close> of the error or \<open>Inr\<close> of
  the value or the new memory; no accessor panics. A \<^verbatim>\<open>Vec\<close> never holds more than \<^verbatim>\<open>isize::MAX\<close>
  bytes, which is \<open>mem_wf\<close>. The fences of \<^verbatim>\<open>load_idx_acquire\<close> and \<^verbatim>\<open>store_idx_release\<close> have no effect
  on the one thread the source runs, so they do not occur in the model.

  The locale \<open>cell\<close> is the interface the rings are written against: typed cells of a fixed
  width, with the laws of reading after writing. It is interpreted on the 16-bit and the
  32-bit accessors.
\<close>

unbundle bit_operations_syntax

section \<open>The region and its accessors\<close>

type_synonym GuestAddr = u64

datatype MemError = OutOfBounds (err_addr: u64) (err_len: u64) (err_region_len: u64)

record SharedMem =
  buf :: "u8 list"

definition guest_addr_checked_add :: "GuestAddr \<Rightarrow> u64 \<Rightarrow> GuestAddr option" where
  "guest_addr_checked_add a n = checked_add a n"

definition mem_new :: "nat \<Rightarrow> SharedMem" where
  "mem_new len = \<lparr>buf = replicate len 0\<rparr>"

definition mem_len :: "SharedMem \<Rightarrow> u64" where
  "mem_len m = word_of_nat (length (buf m))"

definition mem_is_empty :: "SharedMem \<Rightarrow> bool" where
  "mem_is_empty m \<longleftrightarrow> buf m = []"

definition mem_range :: "SharedMem \<Rightarrow> GuestAddr \<Rightarrow> u64 \<Rightarrow> MemError + nat \<times> nat" where
  "mem_range m addr len =
     (case guest_addr_checked_add addr len of
        None \<Rightarrow> Inl (OutOfBounds addr len (mem_len m))
      | Some end_addr \<Rightarrow>
          if mem_len m < end_addr then Inl (OutOfBounds addr len (mem_len m))
          else Inr (unat addr, unat end_addr))"

definition read_slice :: "SharedMem \<Rightarrow> GuestAddr \<Rightarrow> u64 \<Rightarrow> MemError + u8 list" where
  "read_slice m addr len =
     (case mem_range m addr len of
        Inl e \<Rightarrow> Inl e
      | Inr (s, t) \<Rightarrow> Inr (window s (t - s) (buf m)))"

definition write_slice :: "SharedMem \<Rightarrow> GuestAddr \<Rightarrow> u8 list \<Rightarrow> MemError + SharedMem" where
  "write_slice m addr data =
     (case mem_range m addr (word_of_nat (length data)) of
        Inl e \<Rightarrow> Inl e
      | Inr (s, t) \<Rightarrow> Inr (m\<lparr>buf := blit s data (buf m)\<rparr>))"

definition read_u16 :: "SharedMem \<Rightarrow> GuestAddr \<Rightarrow> MemError + u16" where
  "read_u16 m addr =
     (case mem_range m addr 2 of
        Inl e \<Rightarrow> Inl e
      | Inr (s, t) \<Rightarrow> Inr (of_le_bytes [buf m ! s, buf m ! (s + 1)]))"

definition read_u32 :: "SharedMem \<Rightarrow> GuestAddr \<Rightarrow> MemError + u32" where
  "read_u32 m addr =
     (case mem_range m addr 4 of
        Inl e \<Rightarrow> Inl e
      | Inr (s, t) \<Rightarrow> Inr (of_le_bytes (window s (t - s) (buf m))))"

definition read_u64 :: "SharedMem \<Rightarrow> GuestAddr \<Rightarrow> MemError + u64" where
  "read_u64 m addr =
     (case mem_range m addr 8 of
        Inl e \<Rightarrow> Inl e
      | Inr (s, t) \<Rightarrow> Inr (of_le_bytes (window s (t - s) (buf m))))"

definition write_u16 :: "SharedMem \<Rightarrow> GuestAddr \<Rightarrow> u16 \<Rightarrow> MemError + SharedMem" where
  "write_u16 m addr v = write_slice m addr (le_bytes 2 v)"

definition write_u32 :: "SharedMem \<Rightarrow> GuestAddr \<Rightarrow> u32 \<Rightarrow> MemError + SharedMem" where
  "write_u32 m addr v = write_slice m addr (le_bytes 4 v)"

definition load_idx_acquire :: "SharedMem \<Rightarrow> GuestAddr \<Rightarrow> MemError + u16" where
  "load_idx_acquire m addr = read_u16 m addr"

definition store_idx_release :: "SharedMem \<Rightarrow> GuestAddr \<Rightarrow> u16 \<Rightarrow> MemError + SharedMem" where
  "store_idx_release m addr v = write_u16 m addr v"

definition load_relaxed :: "SharedMem \<Rightarrow> GuestAddr \<Rightarrow> MemError + u16" where
  "load_relaxed m addr = read_u16 m addr"

section \<open>Well-formed regions, ranges and frames\<close>

definition mem_wf :: "SharedMem \<Rightarrow> bool" where
  "mem_wf m \<longleftrightarrow> length (buf m) < 2 ^ 63"

definition in_mem :: "SharedMem \<Rightarrow> GuestAddr \<Rightarrow> nat \<Rightarrow> bool" where
  "in_mem m a n \<longleftrightarrow> unat a + n \<le> length (buf m)"

definition bytes_at :: "GuestAddr \<Rightarrow> nat \<Rightarrow> nat set" where
  "bytes_at a n = {unat a ..< unat a + n}"

text \<open>\<open>same_off S m m'\<close>: the two regions have the same size and agree on every byte outside \<open>S\<close>.\<close>

definition same_off :: "nat set \<Rightarrow> SharedMem \<Rightarrow> SharedMem \<Rightarrow> bool" where
  "same_off S m m' \<longleftrightarrow> length (buf m') = length (buf m) \<and>
     (\<forall>i < length (buf m). i \<notin> S \<longrightarrow> buf m' ! i = buf m ! i)"

lemma same_off_refl [simp, intro]: "same_off S m m"
  by (simp add: same_off_def)

lemma same_off_trans: "same_off S m m' \<Longrightarrow> same_off T m' m'' \<Longrightarrow> same_off (S \<union> T) m m''"
  by (auto simp: same_off_def)

lemma same_off_mono: "same_off S m m' \<Longrightarrow> S \<subseteq> T \<Longrightarrow> same_off T m m'"
  by (auto simp: same_off_def)

lemma same_off_length: "same_off S m m' \<Longrightarrow> length (buf m') = length (buf m)"
  by (simp add: same_off_def)

lemma same_off_wf: "same_off S m m' \<Longrightarrow> mem_wf m' = mem_wf m"
  by (simp add: same_off_def mem_wf_def)

lemma same_off_in_mem: "same_off S m m' \<Longrightarrow> in_mem m' a n = in_mem m a n"
  by (simp add: same_off_def in_mem_def)

lemma same_off_mem_len: "same_off S m m' \<Longrightarrow> mem_len m' = mem_len m"
  by (simp add: same_off_def mem_len_def)

lemma unat_mem_len: "mem_wf m \<Longrightarrow> unat (mem_len m) = length (buf m)"
  by (simp add: mem_len_def mem_wf_def unat_of_nat_small)

lemma mem_range_eq:
  assumes "mem_wf m"
  shows "mem_range m a n =
    (if in_mem m a (unat n) then Inr (unat a, unat a + unat n) else Inl (OutOfBounds a n (mem_len m)))"
proof (cases "checked_add a n")
  case None
  then have "2 ^ 64 \<le> unat a + unat n"
    by (simp add: checked_add_None_iff)
  with assms have "\<not> in_mem m a (unat n)"
    by (simp add: in_mem_def mem_wf_def)
  with None show ?thesis
    by (simp add: mem_range_def guest_addr_checked_add_def)
next
  case (Some e)
  then have e: "unat e = unat a + unat n"
    by (simp add: checked_add_Some_iff)
  have "mem_len m < e \<longleftrightarrow> \<not> in_mem m a (unat n)"
    using assms e by (auto simp: word_less_nat_alt unat_mem_len in_mem_def)
  with Some e show ?thesis
    by (simp add: mem_range_def guest_addr_checked_add_def)
qed

section \<open>What the accessors return\<close>

lemma read_slice_eq [mem_laws]:
  "mem_wf m \<Longrightarrow> read_slice m a n =
    (if in_mem m a (unat n) then Inr (window (unat a) (unat n) (buf m))
     else Inl (OutOfBounds a n (mem_len m)))"
  by (simp add: read_slice_def mem_range_eq)

lemma write_slice_eq [mem_laws]:
  "mem_wf m \<Longrightarrow> length data < 2 ^ 64 \<Longrightarrow> write_slice m a data =
    (if in_mem m a (length data) then Inr (m\<lparr>buf := blit (unat a) data (buf m)\<rparr>)
     else Inl (OutOfBounds a (word_of_nat (length data)) (mem_len m)))"
  by (simp add: write_slice_def mem_range_eq unat_of_nat_small)

lemma read_u16_eq [mem_laws]:
  "mem_wf m \<Longrightarrow> read_u16 m a =
    (if in_mem m a 2 then Inr (of_le_bytes (window (unat a) 2 (buf m)))
     else Inl (OutOfBounds a 2 (mem_len m)))"
  using window_2 [of "unat a" "buf m"] by (auto simp: read_u16_def mem_range_eq in_mem_def)

lemma read_u32_eq [mem_laws]:
  "mem_wf m \<Longrightarrow> read_u32 m a =
    (if in_mem m a 4 then Inr (of_le_bytes (window (unat a) 4 (buf m)))
     else Inl (OutOfBounds a 4 (mem_len m)))"
  by (simp add: read_u32_def mem_range_eq)

lemma read_u64_eq [mem_laws]:
  "mem_wf m \<Longrightarrow> read_u64 m a =
    (if in_mem m a 8 then Inr (of_le_bytes (window (unat a) 8 (buf m)))
     else Inl (OutOfBounds a 8 (mem_len m)))"
  by (simp add: read_u64_def mem_range_eq)

lemma write_u16_eq [mem_laws]:
  "mem_wf m \<Longrightarrow> write_u16 m a v =
    (if in_mem m a 2 then Inr (m\<lparr>buf := blit (unat a) (le_bytes 2 v) (buf m)\<rparr>)
     else Inl (OutOfBounds a 2 (mem_len m)))"
  by (simp add: write_u16_def write_slice_eq)

lemma write_u32_eq [mem_laws]:
  "mem_wf m \<Longrightarrow> write_u32 m a v =
    (if in_mem m a 4 then Inr (m\<lparr>buf := blit (unat a) (le_bytes 4 v) (buf m)\<rparr>)
     else Inl (OutOfBounds a 4 (mem_len m)))"
  by (simp add: write_u32_def write_slice_eq)

lemma blit_same_off:
  "unat a + length bs \<le> length (buf m) \<Longrightarrow>
    same_off (bytes_at a (length bs)) m (m\<lparr>buf := blit (unat a) bs (buf m)\<rparr>)"
  by (auto simp: same_off_def bytes_at_def length_blit nth_blit)

lemma write_slice_same_off:
  assumes "mem_wf m" "length data < 2 ^ 64" "write_slice m a data = Inr m'"
  shows "same_off (bytes_at a (length data)) m m'"
  using assms blit_same_off [of a data m] by (auto simp: mem_laws in_mem_def split: if_splits)

lemma same_off_window:
  assumes "same_off S m m'" "in_mem m a n" "bytes_at a n \<inter> S = {}"
  shows "window (unat a) n (buf m') = window (unat a) n (buf m)"
proof (rule window_cong)
  fix i assume i: "unat a \<le> i" "i < unat a + n"
  then have "i \<notin> S" using assms(3) by (auto simp: bytes_at_def)
  moreover have "i < length (buf m)" using i assms(2) by (simp add: in_mem_def)
  ultimately show "buf m' ! i = buf m ! i" using assms(1) by (simp add: same_off_def)
qed (use assms in \<open>auto simp: same_off_def in_mem_def\<close>)

lemma read_slice_frame:
  assumes "mem_wf m" "same_off S m m'" "bytes_at a (unat n) \<inter> S = {}"
  shows "read_slice m' a n = read_slice m a n"
  using assms same_off_window [OF assms(2), of a "unat n"]
  by (simp add: mem_laws same_off_wf same_off_in_mem same_off_mem_len)

lemma read_u64_frame:
  assumes "mem_wf m" "same_off S m m'" "bytes_at a 8 \<inter> S = {}"
  shows "read_u64 m' a = read_u64 m a"
  using assms same_off_window [OF assms(2), of a 8]
  by (simp add: mem_laws same_off_wf same_off_in_mem same_off_mem_len)

lemma read_write_slice_same:
  assumes "mem_wf m" "length data < 2 ^ 64" "write_slice m a data = Inr m'"
  shows "read_slice m' a (word_of_nat (length data)) = Inr data"
proof -
  have "same_off (bytes_at a (length data)) m m'"
    using assms by (rule write_slice_same_off)
  then have wf: "mem_wf m'" and mem: "in_mem m' a (length data) = in_mem m a (length data)"
    using assms(1) by (simp_all add: same_off_wf same_off_in_mem)
  have "in_mem m a (length data)" and "m' = m\<lparr>buf := blit (unat a) data (buf m)\<rparr>"
    using assms by (simp_all add: mem_laws split: if_splits)
  with wf mem assms(2) show ?thesis
    by (simp add: read_slice_eq unat_of_nat_small window_blit_same in_mem_def)
qed

section \<open>The interface of typed cells\<close>

locale cell =
  fixes rd :: "SharedMem \<Rightarrow> GuestAddr \<Rightarrow> MemError + 'v"
    and wr :: "SharedMem \<Rightarrow> GuestAddr \<Rightarrow> 'v \<Rightarrow> MemError + SharedMem"
    and width :: nat
  assumes rd_iff: "mem_wf m \<Longrightarrow> (\<exists>v. rd m a = Inr v) \<longleftrightarrow> in_mem m a width"
    and wr_iff: "mem_wf m \<Longrightarrow> (\<exists>m'. wr m a v = Inr m') \<longleftrightarrow> in_mem m a width"
    and rd_wr: "mem_wf m \<Longrightarrow> wr m a v = Inr m' \<Longrightarrow> rd m' a = Inr v"
    and wr_frame: "mem_wf m \<Longrightarrow> wr m a v = Inr m' \<Longrightarrow> same_off (bytes_at a width) m m'"
    and rd_frame: "mem_wf m \<Longrightarrow> same_off S m m' \<Longrightarrow> bytes_at a width \<inter> S = {} \<Longrightarrow> rd m' a = rd m a"
begin

lemma rd_some: "mem_wf m \<Longrightarrow> in_mem m a width \<Longrightarrow> \<exists>v. rd m a = Inr v"
  using rd_iff by blast

lemma wr_some: "mem_wf m \<Longrightarrow> in_mem m a width \<Longrightarrow> \<exists>m'. wr m a v = Inr m'"
  using wr_iff by blast

lemma wr_wf: "mem_wf m \<Longrightarrow> wr m a v = Inr m' \<Longrightarrow> mem_wf m'"
  using wr_frame same_off_wf by blast

lemma wr_in_mem: "mem_wf m \<Longrightarrow> wr m a v = Inr m' \<Longrightarrow> in_mem m' b n = in_mem m b n"
  using wr_frame same_off_in_mem by blast

lemma rd_wr_other:
  "mem_wf m \<Longrightarrow> wr m a v = Inr m' \<Longrightarrow> bytes_at b width \<inter> bytes_at a width = {} \<Longrightarrow> rd m' b = rd m b"
  using wr_frame rd_frame by blast

lemma wr_refused: "mem_wf m \<Longrightarrow> \<not> in_mem m a width \<Longrightarrow> \<exists>e. wr m a v = Inl e"
  using wr_iff by (metis sum.exhaust)

end

interpretation u16_cell: cell read_u16 write_u16 2
proof unfold_locales
  fix m m' a and v :: u16 and S
  assume wf: "mem_wf m"
  show "(\<exists>v. read_u16 m a = Inr v) \<longleftrightarrow> in_mem m a 2"
    using wf by (simp add: mem_laws)
  show "(\<exists>m'. write_u16 m a v = Inr m') \<longleftrightarrow> in_mem m a 2"
    using wf by (simp add: mem_laws)
  show fr: "same_off (bytes_at a 2) m m'" if "write_u16 m a v = Inr m'"
    using wf that write_slice_same_off [of m "le_bytes 2 v" a m'] by (simp add: write_u16_def)
  show "read_u16 m' a = Inr v" if "write_u16 m a v = Inr m'"
    using wf that fr [OF that]
    by (auto simp: mem_laws same_off_wf same_off_in_mem window_blit_same length_blit in_mem_def split: if_splits)
  show "read_u16 m' a = read_u16 m a" if "same_off S m m'" "bytes_at a 2 \<inter> S = {}"
    using wf that same_off_window [OF that(1), of a 2]
    by (simp add: mem_laws same_off_wf same_off_in_mem same_off_mem_len)
qed

interpretation u32_cell: cell read_u32 write_u32 4
proof unfold_locales
  fix m m' a and v :: u32 and S
  assume wf: "mem_wf m"
  show "(\<exists>v. read_u32 m a = Inr v) \<longleftrightarrow> in_mem m a 4"
    using wf by (simp add: mem_laws)
  show "(\<exists>m'. write_u32 m a v = Inr m') \<longleftrightarrow> in_mem m a 4"
    using wf by (simp add: mem_laws)
  show fr: "same_off (bytes_at a 4) m m'" if "write_u32 m a v = Inr m'"
    using wf that write_slice_same_off [of m "le_bytes 4 v" a m'] by (simp add: write_u32_def)
  show "read_u32 m' a = Inr v" if "write_u32 m a v = Inr m'"
    using wf that fr [OF that]
    by (auto simp: mem_laws same_off_wf same_off_in_mem window_blit_same length_blit in_mem_def split: if_splits)
  show "read_u32 m' a = read_u32 m a" if "same_off S m m'" "bytes_at a 4 \<inter> S = {}"
    using wf that same_off_window [OF that(1), of a 4]
    by (simp add: mem_laws same_off_wf same_off_in_mem same_off_mem_len)
qed

end
