(* ===== verification/VqLayout.thy ===== *)
theory VqLayout
  imports VqMem
begin

text \<open>
  The layout of a split virtqueue, \<^verbatim>\<open>rung-02-virtio/toy-virtq-raw/src/layout.rs\<close>: the addresses of
  the descriptor table, of the avail ring and of the used ring, the address of every field, and
  the notification predicate \<^verbatim>\<open>need_event\<close>.

  \<open>layout_new\<close> returns \<open>None\<close> where the assertion of \<^verbatim>\<open>VirtqLayout::new\<close> panics, and a ring slot is
  \<open>None\<close> where \<^verbatim>\<open>i % queue_size\<close> divides by zero. Address arithmetic wraps; \<open>layout_wf\<close> holds of
  every layout that fits below the top of the address space, and the lemmas in
  \<open>layout_bounds\<close> give the position of each field of such a layout without wrap-around.
\<close>

unbundle bit_operations_syntax

section \<open>Constants and descriptors\<close>

definition DESC_SIZE :: u64 where
  "DESC_SIZE = 16"

definition VIRTQ_DESC_F_NEXT :: u16 where
  "VIRTQ_DESC_F_NEXT = 1"

definition VIRTQ_DESC_F_WRITE :: u16 where
  "VIRTQ_DESC_F_WRITE = 2"

definition VIRTQ_DESC_F_INDIRECT :: u16 where
  "VIRTQ_DESC_F_INDIRECT = 4"

definition VIRTQ_USED_F_NO_NOTIFY :: u16 where
  "VIRTQ_USED_F_NO_NOTIFY = 1"

definition VIRTQ_AVAIL_F_NO_INTERRUPT :: u16 where
  "VIRTQ_AVAIL_F_NO_INTERRUPT = 1"

lemmas virtq_consts = DESC_SIZE_def VIRTQ_DESC_F_NEXT_def VIRTQ_DESC_F_WRITE_def
  VIRTQ_DESC_F_INDIRECT_def VIRTQ_USED_F_NO_NOTIFY_def VIRTQ_AVAIL_F_NO_INTERRUPT_def

record Descriptor =
  d_addr :: u64
  d_len :: u32
  d_flags :: u16
  d_next :: u16

definition has_next :: "Descriptor \<Rightarrow> bool" where
  "has_next d \<longleftrightarrow> d_flags d AND VIRTQ_DESC_F_NEXT \<noteq> 0"

definition is_write_only :: "Descriptor \<Rightarrow> bool" where
  "is_write_only d \<longleftrightarrow> d_flags d AND VIRTQ_DESC_F_WRITE \<noteq> 0"

definition is_indirect :: "Descriptor \<Rightarrow> bool" where
  "is_indirect d \<longleftrightarrow> d_flags d AND VIRTQ_DESC_F_INDIRECT \<noteq> 0"

section \<open>Laying out a queue\<close>

record VirtqLayout =
  queue_size :: u16
  desc_table :: GuestAddr
  avail_ring :: GuestAddr
  used_ring :: GuestAddr

definition DESC_ALIGN :: u64 where
  "DESC_ALIGN = 16"

definition AVAIL_ALIGN :: u64 where
  "AVAIL_ALIGN = 2"

definition USED_ALIGN :: u64 where
  "USED_ALIGN = 4"

lemmas virtq_aligns = DESC_ALIGN_def AVAIL_ALIGN_def USED_ALIGN_def

text \<open>\<^verbatim>\<open>u64::div_ceil\<close> of the standard library: the quotient, plus one when there is a remainder.\<close>

definition div_ceil :: "u64 \<Rightarrow> u64 \<Rightarrow> u64" where
  "div_ceil v a = (if 0 < v mod a then v div a + 1 else v div a)"

definition align_up :: "u64 \<Rightarrow> u64 \<Rightarrow> u64" where
  "align_up v a = div_ceil v a * a"

text \<open>\<^verbatim>\<open>u16::is_power_of_two\<close>: exactly one bit is set.\<close>

definition is_power_of_two :: "u16 \<Rightarrow> bool" where
  "is_power_of_two x \<longleftrightarrow> length (filter (bit x) [0..<16]) = 1"

definition layout_new :: "GuestAddr \<Rightarrow> u16 \<Rightarrow> VirtqLayout option" where
  "layout_new base qsize =
     (if 0 < qsize \<and> is_power_of_two qsize \<and> qsize \<le> 32768 then
        let qs = ucast qsize :: u64;
            dt = align_up base DESC_ALIGN;
            ar = align_up (dt + DESC_SIZE * qs) AVAIL_ALIGN;
            ur = align_up (ar + 4 + 2 * qs + 2) USED_ALIGN
        in Some \<lparr>queue_size = qsize, desc_table = dt, avail_ring = ar, used_ring = ur\<rparr>
      else None)"

definition total_size :: "VirtqLayout \<Rightarrow> u64" where
  "total_size l = (used_ring l + 4 + 8 * ucast (queue_size l) + 2) - desc_table l"

definition layout_end :: "VirtqLayout \<Rightarrow> GuestAddr" where
  "layout_end l = desc_table l + total_size l"

section \<open>Where each field is\<close>

definition desc :: "VirtqLayout \<Rightarrow> u16 \<Rightarrow> GuestAddr option" where
  "desc l index =
     (if queue_size l \<le> index then None else Some (desc_table l + ucast index * DESC_SIZE))"

definition avail_flags :: "VirtqLayout \<Rightarrow> GuestAddr" where
  "avail_flags l = avail_ring l"

definition avail_idx :: "VirtqLayout \<Rightarrow> GuestAddr" where
  "avail_idx l = avail_ring l + 2"

definition avail_slot :: "VirtqLayout \<Rightarrow> u16 \<Rightarrow> GuestAddr option" where
  "avail_slot l i =
     (if queue_size l = 0 then None
      else Some (avail_ring l + 4 + ucast (i mod queue_size l) * 2))"

definition used_event :: "VirtqLayout \<Rightarrow> GuestAddr" where
  "used_event l = avail_ring l + 4 + ucast (queue_size l) * 2"

definition used_flags :: "VirtqLayout \<Rightarrow> GuestAddr" where
  "used_flags l = used_ring l"

definition used_idx :: "VirtqLayout \<Rightarrow> GuestAddr" where
  "used_idx l = used_ring l + 2"

definition used_slot :: "VirtqLayout \<Rightarrow> u16 \<Rightarrow> (GuestAddr \<times> GuestAddr) option" where
  "used_slot l i =
     (if queue_size l = 0 then None
      else let base = used_ring l + 4 + ucast (i mod queue_size l) * 8 in Some (base, base + 4))"

definition avail_event :: "VirtqLayout \<Rightarrow> GuestAddr" where
  "avail_event l = used_ring l + 4 + ucast (queue_size l) * 8"

definition need_event :: "u16 \<Rightarrow> u16 \<Rightarrow> u16 \<Rightarrow> bool" where
  "need_event event new old \<longleftrightarrow> new - event - 1 < new - old"

section \<open>Alignment without wrap-around\<close>

lemma unat_align_up:
  assumes "0 < unat a" "unat v + unat a < 2 ^ 64"
  shows "unat (align_up v a) =
    (if unat v mod unat a = 0 then unat v else unat v - unat v mod unat a + unat a)"
proof -
  let ?q = "unat v div unat a" and ?r = "unat v mod unat a"
  have split: "?q * unat a + ?r = unat v"
    by (rule div_mult_mod_eq)
  show ?thesis
  proof (cases "?r = 0")
    case True
    then have "div_ceil v a = v div a"
      by (simp add: div_ceil_def word_less_nat_alt unat_mod)
    moreover have "unat (v div a) * unat a < 2 ^ LENGTH(64)"
      using split True assms(2) by (simp add: unat_div)
    ultimately have "unat (align_up v a) = ?q * unat a"
      by (metis align_up_def unat_mult_lem unat_div)
    with True split show ?thesis by simp
  next
    case False
    then have dc: "div_ceil v a = v div a + 1"
      by (simp add: div_ceil_def word_less_nat_alt unat_mod)
    have "(?q + 1) * unat a = ?q * unat a + unat a"
      by simp
    then have fits: "(?q + 1) * unat a < 2 ^ 64"
      using split assms(2) by linarith
    have "(?q + 1) * 1 \<le> (?q + 1) * unat a"
      using assms(1) by (intro mult_le_mono2) simp
    with fits have "?q + 1 < 2 ^ LENGTH(64)"
      by simp
    then have "unat (div_ceil v a) = ?q + 1"
      by (simp add: dc unat_add_small unat_div)
    then have "unat (align_up v a) = (?q + 1) * unat a"
      using fits unat_mult_lem [of "div_ceil v a" a] by (simp add: align_up_def)
    moreover have "(?q + 1) * unat a = unat v - ?r + unat a"
      using split by (metis add_diff_cancel_right' add_mult_distrib nat_mult_1)
    ultimately show ?thesis using False by simp
  qed
qed

lemma align_up_bounds:
  assumes "0 < unat a" "unat v + unat a < 2 ^ 64"
  shows "unat v \<le> unat (align_up v a)" "unat (align_up v a) < unat v + unat a"
    "unat (align_up v a) mod unat a = 0"
proof -
  let ?r = "unat v mod unat a"
  have r: "?r < unat a" "?r \<le> unat v"
    using assms(1) by simp_all
  show "unat v \<le> unat (align_up v a)" "unat (align_up v a) < unat v + unat a"
    unfolding unat_align_up [OF assms] using r by auto
  have "(unat v - ?r + unat a) mod unat a = 0"
    by (simp add: minus_mod_eq_mult_div)
  then show "unat (align_up v a) mod unat a = 0"
    unfolding unat_align_up [OF assms] by simp
qed

lemma align_up_aligned:
  "0 < unat a \<Longrightarrow> unat v + unat a < 2 ^ 64 \<Longrightarrow> unat v mod unat a = 0 \<Longrightarrow> align_up v a = v"
  by (simp add: word_unat_eq_iff unat_align_up)

section \<open>Powers of two and ring slots\<close>

lemma is_power_of_two_iff: "is_power_of_two x \<longleftrightarrow> (\<exists>k < 16. x = 2 ^ k)"
proof -
  have card: "length (filter (bit x) [0..<16]) = card {n. n < 16 \<and> bit x n}"
  proof -
    have "set (filter (bit x) [0..<16]) = {n. n < 16 \<and> bit x n}" by auto
    then show ?thesis using distinct_card [of "filter (bit x) [0..<16]"] by simp
  qed
  have exp: "bit (2 ^ k :: u16) n \<longleftrightarrow> n = k" if "n < 16" for k n
    using that by (auto simp: bit_exp_iff)
  show ?thesis
  proof
    assume "is_power_of_two x"
    then obtain k where k: "{n. n < 16 \<and> bit x n} = {k}"
      using card by (metis is_power_of_two_def card_1_singletonE)
    have "x = 2 ^ k"
    proof (rule bit_word_eqI)
      fix n assume "n < LENGTH(16)"
      then show "bit x n \<longleftrightarrow> bit (2 ^ k :: u16) n"
        using k exp [of n k] by auto
    qed
    moreover have "k < 16" using k by blast
    ultimately show "\<exists>k < 16. x = 2 ^ k" by blast
  next
    assume "\<exists>k < 16. x = 2 ^ k"
    then obtain k where "k < 16" "x = 2 ^ k" by blast
    then have "{n. n < 16 \<and> bit x n} = {k}" using exp by auto
    then show "is_power_of_two x" using card by (simp add: is_power_of_two_def)
  qed
qed

lemma power_of_two_dvd: "is_power_of_two x \<Longrightarrow> unat x dvd 65536"
proof -
  assume "is_power_of_two x"
  then obtain k where k: "k < 16" "x = 2 ^ k" by (auto simp: is_power_of_two_iff)
  have "(2::nat) ^ k < 2 ^ 16"
    using k(1) by (rule power_strict_increasing) simp
  then have "unat (word_of_nat (2 ^ k) :: u16) = 2 ^ k"
    by (intro unat_of_nat_small) simp
  then have "unat x = 2 ^ k" using k(2) by simp
  moreover have "(2::nat) ^ k dvd 2 ^ 16" using k by (intro le_imp_power_dvd) simp
  ultimately show ?thesis by simp
qed

text \<open>
  The slot of a free-running counter: stepping the counter steps the slot cyclically, also when
  the counter wraps from 65535 to 0, because the queue size divides 65536.
\<close>

lemma slot_step:
  assumes "is_power_of_two qs"
  shows "unat ((i + of_nat k) mod qs) = (unat (i mod qs) + k) mod unat qs"
proof -
  have "unat (i + of_nat k) = (unat i + k) mod 65536"
    by (simp add: unat_word_ariths unat_of_nat mod_add_right_eq)
  then have "unat ((i + of_nat k) mod qs) = (unat i + k) mod unat qs"
    using power_of_two_dvd [OF assms] by (simp add: unat_mod mod_mod_cancel)
  then show ?thesis by (simp add: unat_mod mod_add_left_eq)
qed

lemma slot_distinct:
  assumes "is_power_of_two qs" "i \<noteq> j" "unat (j - i) < unat qs"
  shows "i mod qs \<noteq> j mod qs"
proof
  assume eq: "i mod qs = j mod qs"
  let ?d = "unat (j - i)"
  have "j = i + of_nat ?d" by simp
  then have "(unat (i mod qs) + ?d) mod unat qs = unat (i mod qs)"
    using slot_step [OF assms(1), of i ?d] eq by simp
  moreover have "0 < ?d" using assms(2) by (simp add: unat_gt_0)
  moreover have "unat (i mod qs) < unat qs"
    using assms(3) by (simp add: unat_mod)
  moreover have "(s + d) mod n \<noteq> s" if "s < n" "0 < d" "d < n" for s d n :: nat
  proof (cases "s + d < n")
    case False
    with that have "(s + d) mod n = s + d - n" by (simp add: le_mod_geq)
    with False that show ?thesis by linarith
  qed (use that in simp)
  ultimately show False using assms(3) by blast
qed

section \<open>Well-formed layouts\<close>

abbreviation qn :: "VirtqLayout \<Rightarrow> nat" where
  "qn l \<equiv> unat (queue_size l)"

definition layout_wf :: "VirtqLayout \<Rightarrow> bool" where
  "layout_wf l \<longleftrightarrow> is_power_of_two (queue_size l) \<and>
     unat (desc_table l) mod 16 = 0 \<and> unat (avail_ring l) mod 2 = 0 \<and> unat (used_ring l) mod 4 = 0 \<and>
     unat (desc_table l) + 16 * qn l \<le> unat (avail_ring l) \<and>
     unat (avail_ring l) + 6 + 2 * qn l \<le> unat (used_ring l) \<and>
     unat (used_ring l) + 6 + 8 * qn l < 2 ^ 64"

lemma power_of_two_u16_bounds:
  assumes "is_power_of_two qs"
  shows "0 < unat qs" "unat qs \<le> 32768" "0 < qs" "qs \<le> 32768"
proof -
  obtain k where k: "k < 16" "qs = 2 ^ k" using assms by (auto simp: is_power_of_two_iff)
  have "(2::nat) ^ k \<le> 2 ^ 15"
    using k(1) by (intro power_increasing) simp_all
  then have "unat (word_of_nat (2 ^ k) :: u16) = 2 ^ k"
    by (intro unat_of_nat_small) simp
  then have "unat qs = 2 ^ k" using k(2) by simp
  with \<open>(2::nat) ^ k \<le> 2 ^ 15\<close> show "0 < unat qs" "unat qs \<le> 32768"
    by simp_all
  then show "0 < qs" "qs \<le> 32768"
    by (simp_all add: word_less_nat_alt word_le_nat_alt)
qed

lemma layout_new_None_iff: "layout_new base qs = None \<longleftrightarrow> \<not> is_power_of_two qs"
  using power_of_two_u16_bounds [of qs] by (auto simp: layout_new_def Let_def)

text \<open>The three addresses \<open>layout_new\<close> computes, as naturals: nothing wraps below this bound.\<close>

lemma layout_new_positions:
  assumes "layout_new base qs = Some l" and room: "unat base + 26 * unat qs + 64 < 2 ^ 64"
  shows "queue_size l = qs" "is_power_of_two qs"
    "unat (desc_table l) = unat (align_up base 16)"
    "unat (avail_ring l) = unat (desc_table l) + 16 * unat qs"
    "unat (used_ring l) = unat (align_up (avail_ring l + 6 + 2 * ucast qs) 4)"
    "unat (avail_ring l + 6 + 2 * ucast qs) = unat (avail_ring l) + 6 + 2 * unat qs"
    "unat base \<le> unat (desc_table l)" "unat (desc_table l) < unat base + 16"
    "unat (desc_table l) mod 16 = 0"
proof -
  let ?q = "ucast qs :: u64"
  define dt where "dt = align_up base 16"
  show p2: "is_power_of_two qs" and qs: "queue_size l = qs"
    using assms(1) layout_new_None_iff [of base qs] by (auto simp: layout_new_def Let_def split: if_splits)
  have b16: "0 < unat (16 :: u64)" "unat base + unat (16 :: u64) < 2 ^ 64"
    using room by simp_all
  have dt: "unat base \<le> unat dt" "unat dt < unat base + 16" "unat dt mod 16 = 0"
    using align_up_bounds [OF b16] by (simp_all add: dt_def)
  have "unat (16 * ?q) = 16 * unat qs"
    using room by (simp add: unat_word_ariths)
  then have table: "unat (dt + 16 * ?q) = unat dt + 16 * unat qs"
    using room dt by (simp add: unat_add_small)
  have "align_up (dt + 16 * ?q) 2 = dt + 16 * ?q"
  proof (rule align_up_aligned)
    have "unat dt mod 2 = 0" using dt(3) by presburger
    then show "unat (dt + 16 * ?q) mod unat (2 :: u64) = 0" unfolding table by simp presburger
  qed (use table room dt in simp_all)
  moreover have "l = \<lparr>queue_size = qs, desc_table = dt, avail_ring = align_up (dt + 16 * ?q) 2,
      used_ring = align_up (align_up (dt + 16 * ?q) 2 + 4 + 2 * ?q + 2) 4\<rparr>"
    using assms(1) by (simp add: layout_new_def Let_def virtq_aligns virtq_consts dt_def split: if_splits)
  ultimately have l: "desc_table l = dt" "avail_ring l = dt + 16 * ?q"
      "used_ring l = align_up (dt + 16 * ?q + 6 + 2 * ?q) 4"
    by (simp_all add: algebra_simps)
  show "unat (desc_table l) = unat (align_up base 16)" by (simp add: l dt_def)
  show "unat (avail_ring l) = unat (desc_table l) + 16 * unat qs" by (simp add: l table)
  show "unat (used_ring l) = unat (align_up (avail_ring l + 6 + 2 * ?q) 4)" by (simp add: l)
  have "unat (2 * ?q) = 2 * unat qs"
    using room by (simp add: unat_word_ariths)
  moreover have "unat (dt + 16 * ?q + 6) = unat (dt + 16 * ?q) + 6"
    using room dt table unat_add_small [of "dt + 16 * ?q" 6] by simp
  ultimately show "unat (avail_ring l + 6 + 2 * ?q) = unat (avail_ring l) + 6 + 2 * unat qs"
    using room dt table unat_add_small [of "dt + 16 * ?q + 6" "2 * ?q"] by (simp add: l)
  show "unat base \<le> unat (desc_table l)" "unat (desc_table l) < unat base + 16"
      "unat (desc_table l) mod 16 = 0"
    using dt by (simp_all add: l)
qed

lemma layout_new_wf:
  assumes "layout_new base qs = Some l" and room: "unat base + 26 * unat qs + 64 < 2 ^ 64"
  shows "layout_wf l"
proof -
  note pos = layout_new_positions [OF assms]
  have "0 < unat (4 :: u64)" "unat (avail_ring l + 6 + 2 * ucast qs) + unat (4 :: u64) < 2 ^ 64"
    using pos room by simp_all
  note used = align_up_bounds [OF this]
  have "unat (avail_ring l) mod 2 = 0"
    using pos(4,9) by presburger
  moreover have "unat (used_ring l) + 6 + 8 * unat qs < 2 ^ 64"
    using used(2) pos room by simp
  ultimately show ?thesis
    using pos used by (simp add: layout_wf_def)
qed

section \<open>Positions of the fields\<close>

lemma layout_wf_bounds:
  assumes "layout_wf l"
  shows "0 < qn l" "qn l \<le> 32768" "queue_size l \<noteq> 0"
    "unat (desc_table l) + 16 * qn l \<le> unat (avail_ring l)"
    "unat (avail_ring l) + 6 + 2 * qn l \<le> unat (used_ring l)"
    "unat (used_ring l) + 6 + 8 * qn l < 18446744073709551616"
  using assms power_of_two_u16_bounds [of "queue_size l"] by (auto simp: layout_wf_def)

lemma slot_lt: "layout_wf l \<Longrightarrow> unat (i mod queue_size l) < qn l"
  using layout_wf_bounds(1) [of l] by (simp add: unat_mod)

lemma desc_at [layout_bounds]:
  assumes "layout_wf l"
  shows "desc l i = Some a \<longleftrightarrow> unat i < qn l \<and> unat a = unat (desc_table l) + 16 * unat i"
proof -
  let ?x = "desc_table l + ucast i * DESC_SIZE"
  have "unat ?x = unat (desc_table l) + 16 * unat i" if "unat i < qn l"
  proof -
    have m: "unat (ucast i * DESC_SIZE) = 16 * unat i"
      using that layout_wf_bounds [OF assms] by (simp add: unat_mult_small_u64 DESC_SIZE_def)
    then show ?thesis
      using that layout_wf_bounds [OF assms] by (simp add: unat_add_small)
  qed
  then show ?thesis
    by (auto simp: desc_def word_le_nat_alt word_unat_eq_iff)
qed

lemma avail_idx_at [layout_bounds]: "layout_wf l \<Longrightarrow> unat (avail_idx l) = unat (avail_ring l) + 2"
  using layout_wf_bounds [of l] by (simp add: avail_idx_def unat_add_small)

lemma used_idx_at [layout_bounds]: "layout_wf l \<Longrightarrow> unat (used_idx l) = unat (used_ring l) + 2"
  using layout_wf_bounds [of l] by (simp add: used_idx_def unat_add_small)

lemma ring_at:
  assumes "layout_wf l" "j \<le> qn l" "unat w = j"
  shows "unat (avail_ring l + 4 + w * 2) = unat (avail_ring l) + 4 + 2 * j"
    "unat (used_ring l + 4 + w * 8) = unat (used_ring l) + 4 + 8 * j"
proof -
  note b = layout_wf_bounds [OF assms(1)]
  have w2: "unat (w * 2) = 2 * j" and w8: "unat (w * 8) = 8 * j"
    using b assms(2,3) by (simp_all add: unat_mult_small_u64)
  have a4: "unat (avail_ring l + 4) = unat (avail_ring l) + 4"
    and u4: "unat (used_ring l + 4) = unat (used_ring l) + 4"
    using b by (simp_all add: unat_add_small)
  show "unat (avail_ring l + 4 + w * 2) = unat (avail_ring l) + 4 + 2 * j"
    using unat_add_small [of "avail_ring l + 4" "w * 2"] w2 a4 b assms(2) by simp
  show "unat (used_ring l + 4 + w * 8) = unat (used_ring l) + 4 + 8 * j"
    using unat_add_small [of "used_ring l + 4" "w * 8"] w8 u4 b assms(2) by simp
qed

lemma avail_slot_at [layout_bounds]:
  assumes "layout_wf l"
  shows "avail_slot l i = Some a \<longleftrightarrow> unat a = unat (avail_ring l) + 4 + 2 * unat (i mod queue_size l)"
  using layout_wf_bounds [OF assms] slot_lt [OF assms, of i]
    ring_at(1) [OF assms, of "unat (i mod queue_size l)" "ucast (i mod queue_size l)"]
  by (auto simp: avail_slot_def word_unat_eq_iff)

lemma used_slot_at [layout_bounds]:
  assumes "layout_wf l"
  shows "used_slot l i = Some (a, b) \<longleftrightarrow>
    unat a = unat (used_ring l) + 4 + 8 * unat (i mod queue_size l) \<and> unat b = unat a + 4"
proof -
  let ?x = "used_ring l + 4 + ucast (i mod queue_size l) * 8"
  have x: "unat ?x = unat (used_ring l) + 4 + 8 * unat (i mod queue_size l)"
    using slot_lt [OF assms, of i]
      ring_at(2) [OF assms, of "unat (i mod queue_size l)" "ucast (i mod queue_size l)"] by simp
  then have "unat (?x + 4) = unat ?x + 4"
    using layout_wf_bounds [OF assms] slot_lt [OF assms, of i] unat_add_small [of ?x 4] by simp
  then show ?thesis
    using x layout_wf_bounds(3) [OF assms] by (auto simp: used_slot_def Let_def word_unat_eq_iff)
qed

lemma used_event_at [layout_bounds]:
  "layout_wf l \<Longrightarrow> unat (used_event l) = unat (avail_ring l) + 4 + 2 * qn l"
  using ring_at(1) [of l "qn l" "ucast (queue_size l)"] by (simp add: used_event_def)

lemma avail_event_at [layout_bounds]:
  "layout_wf l \<Longrightarrow> unat (avail_event l) = unat (used_ring l) + 4 + 8 * qn l"
  using ring_at(2) [of l "qn l" "ucast (queue_size l)"] by (simp add: avail_event_def)

lemma total_size_at [layout_bounds]:
  assumes "layout_wf l"
  shows "unat (total_size l) = unat (used_ring l) + 6 + 8 * qn l - unat (desc_table l)"
    "unat (layout_end l) = unat (used_ring l) + 6 + 8 * qn l"
proof -
  note b = layout_wf_bounds [OF assms]
  let ?x = "used_ring l + 4 + 8 * ucast (queue_size l)"
  have "unat ?x = unat (used_ring l) + 4 + 8 * qn l"
    using ring_at(2) [OF assms, of "qn l" "ucast (queue_size l)"] by (simp add: mult.commute)
  then have x: "unat (?x + 2) = unat (used_ring l) + 6 + 8 * qn l"
    using b unat_add_small [of ?x 2] by simp
  then have "desc_table l \<le> ?x + 2"
    using b by (simp add: word_le_nat_alt)
  then show "unat (total_size l) = unat (used_ring l) + 6 + 8 * qn l - unat (desc_table l)"
    using x by (simp add: total_size_def unat_sub)
  show "unat (layout_end l) = unat (used_ring l) + 6 + 8 * qn l"
    using x by (simp add: layout_end_def total_size_def)
qed

lemma slots_some:
  assumes "layout_wf l"
  obtains a where "avail_slot l i = Some a"
    and "unat a = unat (avail_ring l) + 4 + 2 * unat (i mod queue_size l)"
  using layout_wf_bounds(3) [OF assms] avail_slot_at [OF assms, of i]
  by (metis avail_slot_def)

lemma used_slots_some:
  assumes "layout_wf l"
  obtains a b where "used_slot l i = Some (a, b)"
    and "unat a = unat (used_ring l) + 4 + 8 * unat (i mod queue_size l)" "unat b = unat a + 4"
  using layout_wf_bounds(3) [OF assms] used_slot_at [OF assms, of i]
  by (metis used_slot_def Let_def)

section \<open>The areas of the queue\<close>

text \<open>
  The driver writes the descriptor table and the avail ring, the device writes the used ring.
\<close>

definition desc_area :: "VirtqLayout \<Rightarrow> nat set" where
  "desc_area l = {unat (desc_table l) ..< unat (desc_table l) + 16 * qn l}"

definition avail_area :: "VirtqLayout \<Rightarrow> nat set" where
  "avail_area l = {unat (avail_ring l) ..< unat (avail_ring l) + 6 + 2 * qn l}"

definition used_area :: "VirtqLayout \<Rightarrow> nat set" where
  "used_area l = {unat (used_ring l) ..< unat (used_ring l) + 6 + 8 * qn l}"

definition queue_area :: "VirtqLayout \<Rightarrow> nat set" where
  "queue_area l = {unat (desc_table l) ..< unat (used_ring l) + 6 + 8 * qn l}"

lemmas area_defs = desc_area_def avail_area_def used_area_def queue_area_def

lemma areas_disjoint:
  assumes "layout_wf l"
  shows "desc_area l \<inter> avail_area l = {}" "desc_area l \<inter> used_area l = {}"
    "avail_area l \<inter> used_area l = {}"
    "desc_area l \<union> avail_area l \<union> used_area l \<subseteq> queue_area l"
  using layout_wf_bounds [OF assms] by (auto simp: area_defs)

section \<open>The notification predicate\<close>

lemma need_event_iff_distances:
  "need_event event new old \<longleftrightarrow>
    new \<noteq> event \<and> unat (new - event) \<le> unat (new - old)"
proof (cases "new = event")
  case True
  have "new - old \<le> - 1" by (rule word_n1_ge)
  then have "\<not> - 1 < new - old" by simp
  then show ?thesis using True by (simp add: need_event_def)
next
  case False
  then have "new - event \<noteq> 0" by simp
  then have "unat (new - event - 1) = unat (new - event) - 1" and "0 < unat (new - event)"
    by (simp_all add: unat_minus_one unat_gt_0)
  then show ?thesis
    using False by (auto simp: need_event_def word_less_nat_alt)
qed

lemma need_event_iff_passed:
  "need_event event new old \<longleftrightarrow> (\<exists>j < unat (new - old). event = old + of_nat j)"
proof
  assume "need_event event new old"
  then have ne: "new \<noteq> event" and le: "unat (new - event) \<le> unat (new - old)"
    by (simp_all add: need_event_iff_distances)
  let ?j = "unat (new - old) - unat (new - event)"
  have "0 < unat (new - event)" using ne by (simp add: unat_gt_0)
  then have "?j < unat (new - old)" using le by linarith
  moreover have "old + of_nat ?j = event"
    using le by (simp add: of_nat_diff)
  ultimately show "\<exists>j < unat (new - old). event = old + of_nat j" by metis
next
  assume "\<exists>j < unat (new - old). event = old + of_nat j"
  then obtain j where j: "j < unat (new - old)" "event = old + of_nat j" by blast
  have "new - event = of_nat (unat (new - old) - j)"
    using j by (simp add: of_nat_diff algebra_simps)
  moreover have "unat (new - old) - j < 65536"
    using unat_u16_lt [of "new - old"] by linarith
  ultimately have "unat (new - event) = unat (new - old) - j"
    by (simp add: unat_of_nat_u16)
  moreover from this j(1) have "0 < unat (new - event)" by simp
  ultimately show "need_event event new old"
    by (auto simp: need_event_iff_distances)
qed

end
