(* ===== verification/VqRings.thy ===== *)
theory VqRings
  imports VqLayout
begin

text \<open>
  The two rings of a split virtqueue as cells of the shared memory. The avail ring holds the heads
  of chains the driver published, the used ring pairs of a head and a length the device completed.
  \<open>avail_load\<close>, \<open>used_load\<close> and their stores are the accesses that \<^verbatim>\<open>driver.rs\<close> and \<^verbatim>\<open>device.rs\<close> make
  at \<^verbatim>\<open>VirtqLayout::avail_slot\<close> and \<^verbatim>\<open>VirtqLayout::used_slot\<close>, as total functions; \<open>queue_in\<close> says
  that the queue lies inside the region, and then each of them is what the code's call returns.

  The locale \<open>spsc_ring\<close> is the contract of a ring with one producer and one consumer, indexed by
  free-running 16-bit counters: what lies between the consumer's counter and the producer's is a
  queue, also across the wrap of either counter. It is interpreted on both rings.
\<close>

unbundle bit_operations_syntax

section \<open>Rings as queues\<close>

locale spsc_ring =
  fixes ok :: "'m \<Rightarrow> bool"
    and get :: "'m \<Rightarrow> u16 \<Rightarrow> 'e"
    and put :: "'m \<Rightarrow> u16 \<Rightarrow> 'e \<Rightarrow> 'm"
    and cap :: u16
  assumes cap: "ok m \<Longrightarrow> is_power_of_two cap"
    and put_ok: "ok m \<Longrightarrow> ok (put m i e)"
    and get_put: "ok m \<Longrightarrow> get (put m i e) j = (if i mod cap = j mod cap then e else get m j)"
begin

definition contents :: "'m \<Rightarrow> u16 \<Rightarrow> u16 \<Rightarrow> 'e list" where
  "contents m r w = map (\<lambda>k. get m (r + of_nat k)) [0..<unat (w - r)]"

lemma length_contents: "length (contents m r w) = unat (w - r)"
  by (simp add: contents_def)

lemma contents_Nil_iff: "contents m r w = [] \<longleftrightarrow> w = r"
  by (simp add: contents_def unat_eq_0)

lemma contents_cong:
  "(\<And>k. k < unat (w - r) \<Longrightarrow> get m' (r + of_nat k) = get m (r + of_nat k)) \<Longrightarrow>
    contents m' r w = contents m r w"
  by (simp add: contents_def)

lemma contents_pop:
  assumes "w \<noteq> r"
  shows "contents m r w = get m r # contents m (r + 1) w"
proof -
  have "[0..<unat (w - r)] = 0 # map Suc [0..<unat (w - (r + 1))]"
    using unat_diff_drop_one [OF assms] by (metis upt_conv_Cons zero_less_Suc map_Suc_upt)
  then show ?thesis
    by (simp add: contents_def add.assoc add.commute [of 1] comp_def del: upt_Suc)
qed

lemma contents_push:
  assumes "ok m" "unat (w - r) < unat cap"
  shows "contents (put m w e) r (w + 1) = contents m r w @ [e]"
proof -
  have c: "unat cap \<le> 32768"
    using cap [OF assms(1)] by (rule power_of_two_u16_bounds)
  have "unat (w + 1 - r) = Suc (unat (w - r))"
    using assms(2) c by (intro unat_diff_add_one) simp
  moreover have "get (put m w e) (r + of_nat k) = get m (r + of_nat k)" if "k < unat (w - r)" for k
  proof -
    have "w - (r + of_nat k) = of_nat (unat (w - r) - k)"
      using that by (simp add: of_nat_diff algebra_simps)
    then have d: "unat (w - (r + of_nat k)) = unat (w - r) - k"
      using assms(2) c by (simp add: unat_of_nat_u16)
    then have "r + of_nat k \<noteq> w"
      using that by (metis cancel_comm_monoid_add_class.diff_cancel unsigned_0 zero_less_diff less_numeral_extra(3))
    then have "(r + of_nat k) mod cap \<noteq> w mod cap"
      using d that assms(2) by (intro slot_distinct cap [OF assms(1)]) simp_all
    then show ?thesis
      using get_put [OF assms(1)] by simp
  qed
  ultimately show ?thesis
    using get_put [OF assms(1)] by (simp add: contents_def)
qed

end

section \<open>The queue in the region\<close>

definition queue_in :: "VirtqLayout \<Rightarrow> SharedMem \<Rightarrow> bool" where
  "queue_in l m \<longleftrightarrow> layout_wf l \<and> mem_wf m \<and> unat (used_ring l) + 6 + 8 * qn l \<le> length (buf m)"

lemma queue_inD:
  assumes "queue_in l m"
  shows "layout_wf l" "mem_wf m" "unat (used_ring l) + 6 + 8 * qn l \<le> length (buf m)"
  using assms by (simp_all add: queue_in_def)

lemma queue_in_same_off: "same_off S m m' \<Longrightarrow> queue_in l m' = queue_in l m"
  by (simp add: queue_in_def same_off_wf same_off_length)

definition avail_load :: "VirtqLayout \<Rightarrow> SharedMem \<Rightarrow> u16 \<Rightarrow> u16" where
  "avail_load l m i =
     (case avail_slot l i of None \<Rightarrow> 0
      | Some a \<Rightarrow> (case read_u16 m a of Inl e \<Rightarrow> 0 | Inr v \<Rightarrow> v))"

definition avail_store :: "VirtqLayout \<Rightarrow> SharedMem \<Rightarrow> u16 \<Rightarrow> u16 \<Rightarrow> SharedMem" where
  "avail_store l m i v =
     (case avail_slot l i of None \<Rightarrow> m
      | Some a \<Rightarrow> (case write_u16 m a v of Inl e \<Rightarrow> m | Inr m' \<Rightarrow> m'))"

definition used_load :: "VirtqLayout \<Rightarrow> SharedMem \<Rightarrow> u16 \<Rightarrow> u32 \<times> u32" where
  "used_load l m i =
     (case used_slot l i of None \<Rightarrow> (0, 0)
      | Some (a, b) \<Rightarrow>
          (case read_u32 m a of Inl e \<Rightarrow> (0, 0) | Inr x \<Rightarrow>
          (case read_u32 m b of Inl e \<Rightarrow> (0, 0) | Inr y \<Rightarrow> (x, y))))"

definition used_store :: "VirtqLayout \<Rightarrow> SharedMem \<Rightarrow> u16 \<Rightarrow> u32 \<times> u32 \<Rightarrow> SharedMem" where
  "used_store l m i e =
     (case used_slot l i of None \<Rightarrow> m
      | Some (a, b) \<Rightarrow>
          (case write_u32 m a (fst e) of Inl _ \<Rightarrow> m | Inr m1 \<Rightarrow>
          (case write_u32 m1 b (snd e) of Inl _ \<Rightarrow> m | Inr m2 \<Rightarrow> m2)))"

text \<open>The published counters \<^verbatim>\<open>avail.idx\<close> and \<^verbatim>\<open>used.idx\<close>, and the two event thresholds.\<close>

definition get_u16 :: "SharedMem \<Rightarrow> GuestAddr \<Rightarrow> u16" where
  "get_u16 m a = (case read_u16 m a of Inl e \<Rightarrow> 0 | Inr v \<Rightarrow> v)"

abbreviation avail_count :: "VirtqLayout \<Rightarrow> SharedMem \<Rightarrow> u16" where
  "avail_count l m \<equiv> get_u16 m (avail_idx l)"

abbreviation used_count :: "VirtqLayout \<Rightarrow> SharedMem \<Rightarrow> u16" where
  "used_count l m \<equiv> get_u16 m (used_idx l)"

definition avail_slot_bytes :: "VirtqLayout \<Rightarrow> u16 \<Rightarrow> nat set" where
  "avail_slot_bytes l i =
     (let s = unat (avail_ring l) + 4 + 2 * unat (i mod queue_size l) in {s ..< s + 2})"

definition used_slot_bytes :: "VirtqLayout \<Rightarrow> u16 \<Rightarrow> nat set" where
  "used_slot_bytes l i =
     (let s = unat (used_ring l) + 4 + 8 * unat (i mod queue_size l) in {s ..< s + 8})"

lemma slot_bytes_in_areas:
  assumes "layout_wf l"
  shows "avail_slot_bytes l i \<subseteq> avail_area l" "used_slot_bytes l i \<subseteq> used_area l"
    "bytes_at (avail_idx l) 2 \<subseteq> avail_area l" "bytes_at (used_idx l) 2 \<subseteq> used_area l"
    "bytes_at (used_event l) 2 \<subseteq> avail_area l" "bytes_at (avail_event l) 2 \<subseteq> used_area l"
    "bytes_at (avail_flags l) 2 \<subseteq> avail_area l" "bytes_at (used_flags l) 2 \<subseteq> used_area l"
  using slot_lt [OF assms, of i] layout_wf_bounds [OF assms]
  by (auto simp: avail_slot_bytes_def used_slot_bytes_def Let_def area_defs bytes_at_def
      layout_bounds assms avail_flags_def used_flags_def)

lemma slot_bytes_disjoint:
  assumes "layout_wf l"
  shows "i mod queue_size l \<noteq> j mod queue_size l \<Longrightarrow> avail_slot_bytes l i \<inter> avail_slot_bytes l j = {}"
    "i mod queue_size l \<noteq> j mod queue_size l \<Longrightarrow> used_slot_bytes l i \<inter> used_slot_bytes l j = {}"
    "bytes_at (avail_idx l) 2 \<inter> avail_slot_bytes l i = {}"
    "bytes_at (used_idx l) 2 \<inter> used_slot_bytes l i = {}"
    "bytes_at (used_event l) 2 \<inter> avail_slot_bytes l i = {}"
    "bytes_at (avail_event l) 2 \<inter> used_slot_bytes l i = {}"
    "bytes_at (used_event l) 2 \<inter> bytes_at (avail_idx l) 2 = {}"
    "bytes_at (avail_event l) 2 \<inter> bytes_at (used_idx l) 2 = {}"
  using slot_lt [OF assms, of i] slot_lt [OF assms, of j] layout_wf_bounds [OF assms]
  by (auto simp: avail_slot_bytes_def used_slot_bytes_def Let_def bytes_at_def
      layout_bounds assms word_unat_eq_iff)

section \<open>What the ring accesses do\<close>

lemma read_u16_get: "mem_wf m \<Longrightarrow> in_mem m a 2 \<Longrightarrow> read_u16 m a = Inr (get_u16 m a)"
  using u16_cell.rd_some [of m a] by (auto simp: get_u16_def)

lemma get_u16_frame:
  "mem_wf m \<Longrightarrow> same_off S m m' \<Longrightarrow> bytes_at a 2 \<inter> S = {} \<Longrightarrow> get_u16 m' a = get_u16 m a"
  using u16_cell.rd_frame [of m S m' a] by (simp add: get_u16_def)

lemma fields_in_mem:
  assumes "queue_in l m"
  shows "in_mem m (avail_idx l) 2" "in_mem m (used_idx l) 2" "in_mem m (used_event l) 2"
    "in_mem m (avail_event l) 2" "in_mem m (avail_flags l) 2" "in_mem m (used_flags l) 2"
  using queue_inD [OF assms] layout_wf_bounds [of l]
  by (auto simp: in_mem_def layout_bounds avail_flags_def used_flags_def)

lemma avail_load_eq:
  assumes "queue_in l m" "avail_slot l i = Some a"
  shows "read_u16 m a = Inr (avail_load l m i)" "bytes_at a 2 = avail_slot_bytes l i" "in_mem m a 2"
proof -
  note q = queue_inD [OF assms(1)]
  show b: "bytes_at a 2 = avail_slot_bytes l i"
    using assms(2) by (simp add: avail_slot_at q bytes_at_def avail_slot_bytes_def)
  show r: "in_mem m a 2"
    using assms(2) slot_lt [OF q(1), of i] layout_wf_bounds [OF q(1)] q(3)
    by (simp add: avail_slot_at q(1) in_mem_def)
  show "read_u16 m a = Inr (avail_load l m i)"
    using u16_cell.rd_some [OF q(2) r] assms(2) by (auto simp: avail_load_def)
qed

lemma avail_store_eq:
  assumes "queue_in l m" "avail_slot l i = Some a"
  shows "write_u16 m a v = Inr (avail_store l m i v)"
  using u16_cell.wr_some [OF queue_inD(2) [OF assms(1)] avail_load_eq(3) [OF assms], of v] assms(2)
  by (auto simp: avail_store_def)

lemma avail_store_off:
  assumes "queue_in l m"
  shows "same_off (avail_slot_bytes l i) m (avail_store l m i v)"
proof -
  obtain a where a: "avail_slot l i = Some a"
    using slots_some [OF queue_inD(1) [OF assms]] by metis
  show ?thesis
    using u16_cell.wr_frame [OF queue_inD(2) [OF assms] avail_store_eq [OF assms a]]
      avail_load_eq [OF assms a] by simp
qed

lemma avail_load_frame:
  assumes "queue_in l m" "same_off S m m'" "avail_slot_bytes l i \<inter> S = {}"
  shows "avail_load l m' i = avail_load l m i"
proof -
  obtain a where a: "avail_slot l i = Some a"
    using slots_some [OF queue_inD(1) [OF assms(1)]] by metis
  have "bytes_at a 2 \<inter> S = {}"
    using avail_load_eq(2) [OF assms(1) a] assms(3) by simp
  then have "read_u16 m' a = read_u16 m a"
    by (rule u16_cell.rd_frame [OF queue_inD(2) [OF assms(1)] assms(2)])
  then show ?thesis
    by (simp add: avail_load_def a)
qed

lemma avail_load_store:
  assumes "queue_in l m"
  shows "avail_load l (avail_store l m i v) j =
    (if i mod queue_size l = j mod queue_size l then v else avail_load l m j)"
proof (cases "i mod queue_size l = j mod queue_size l")
  case True
  obtain a where a: "avail_slot l i = Some a"
    using slots_some [OF queue_inD(1) [OF assms]] by metis
  with True have "avail_slot l j = Some a" by (simp add: avail_slot_def split: if_splits)
  with True show ?thesis
    using u16_cell.rd_wr [OF queue_inD(2) [OF assms] avail_store_eq [OF assms a]]
    by (simp add: avail_load_def)
next
  case False
  then show ?thesis
    using avail_load_frame [OF assms avail_store_off [OF assms], of j i v]
      slot_bytes_disjoint(1) [OF queue_inD(1) [OF assms], of j i] by auto
qed

interpretation avail_queue: spsc_ring "queue_in l" "avail_load l" "avail_store l" "queue_size l" for l
proof unfold_locales
  show "is_power_of_two (queue_size l)" if "queue_in l m" for m
    using that by (simp add: queue_in_def layout_wf_def)
  show "queue_in l (avail_store l m i v)" if "queue_in l m" for m i v
    using that queue_in_same_off [OF avail_store_off [OF that]] by simp
qed (rule avail_load_store)

lemma used_load_eq:
  assumes "queue_in l m" "used_slot l i = Some (a, b)"
  shows "read_u32 m a = Inr (fst (used_load l m i))" "read_u32 m b = Inr (snd (used_load l m i))"
    "bytes_at a 4 \<union> bytes_at b 4 = used_slot_bytes l i" "bytes_at a 4 \<inter> bytes_at b 4 = {}"
    "in_mem m a 4" "in_mem m b 4"
proof -
  note q = queue_inD [OF assms(1)]
  have at: "unat a = unat (used_ring l) + 4 + 8 * unat (i mod queue_size l)" "unat b = unat a + 4"
    using assms(2) by (simp_all add: used_slot_at q)
  show "bytes_at a 4 \<union> bytes_at b 4 = used_slot_bytes l i" "bytes_at a 4 \<inter> bytes_at b 4 = {}"
    by (auto simp: at bytes_at_def used_slot_bytes_def Let_def)
  show r: "in_mem m a 4" "in_mem m b 4"
    using slot_lt [OF q(1), of i] layout_wf_bounds [OF q(1)] q(3) by (simp_all add: at in_mem_def)
  show "read_u32 m a = Inr (fst (used_load l m i))" "read_u32 m b = Inr (snd (used_load l m i))"
    using u32_cell.rd_some [OF q(2) r(1)] u32_cell.rd_some [OF q(2) r(2)] assms(2)
    by (auto simp: used_load_def)
qed

lemma used_store_eq:
  assumes "queue_in l m" "used_slot l i = Some (a, b)"
  obtains m1 where "write_u32 m a x = Inr m1" "write_u32 m1 b y = Inr (used_store l m i (x, y))"
proof -
  note q = queue_inD [OF assms(1)] and u = used_load_eq [OF assms]
  obtain m1 where m1: "write_u32 m a x = Inr m1"
    using u32_cell.wr_some [OF q(2) u(5)] by blast
  then have "mem_wf m1" "in_mem m1 b 4"
    using u32_cell.wr_wf [OF q(2)] u32_cell.wr_in_mem [OF q(2) m1] u(6) by simp_all
  then obtain m2 where m2: "write_u32 m1 b y = Inr m2"
    using u32_cell.wr_some by blast
  then have "m2 = used_store l m i (x, y)"
    using m1 assms(2) by (simp add: used_store_def)
  with m1 m2 that show ?thesis by simp
qed

lemma used_store_off:
  assumes "queue_in l m"
  shows "same_off (used_slot_bytes l i) m (used_store l m i e)"
proof -
  obtain a b where ab: "used_slot l i = Some (a, b)"
    using used_slots_some [OF queue_inD(1) [OF assms]] by metis
  obtain m1 where m1: "write_u32 m a (fst e) = Inr m1"
      "write_u32 m1 b (snd e) = Inr (used_store l m i (fst e, snd e))"
    using used_store_eq [OF assms ab] by metis
  note q = queue_inD [OF assms]
  show ?thesis
    using same_off_trans [OF u32_cell.wr_frame [OF q(2) m1(1)]
        u32_cell.wr_frame [OF u32_cell.wr_wf [OF q(2) m1(1)] m1(2)]] used_load_eq(3) [OF assms ab]
    by simp
qed

lemma used_load_frame:
  assumes "queue_in l m" "same_off S m m'" "used_slot_bytes l i \<inter> S = {}"
  shows "used_load l m' i = used_load l m i"
proof -
  obtain a b where ab: "used_slot l i = Some (a, b)"
    using used_slots_some [OF queue_inD(1) [OF assms(1)]] by metis
  note u = used_load_eq [OF assms(1) ab]
  have "bytes_at a 4 \<inter> S = {}" "bytes_at b 4 \<inter> S = {}"
    using u(3) assms(3) by auto
  then have "read_u32 m' a = read_u32 m a" "read_u32 m' b = read_u32 m b"
    by (auto intro: u32_cell.rd_frame [OF queue_inD(2) [OF assms(1)] assms(2)])
  then show ?thesis
    by (simp add: used_load_def ab split: sum.split)
qed

lemma used_load_store:
  assumes "queue_in l m"
  shows "used_load l (used_store l m i e) j =
    (if i mod queue_size l = j mod queue_size l then e else used_load l m j)"
proof (cases "i mod queue_size l = j mod queue_size l")
  case True
  obtain a b where ab: "used_slot l i = Some (a, b)"
    using used_slots_some [OF queue_inD(1) [OF assms]] by metis
  with True have j: "used_slot l j = Some (a, b)" by (simp add: used_slot_def Let_def split: if_splits)
  obtain m1 where m1: "write_u32 m a (fst e) = Inr m1"
      "write_u32 m1 b (snd e) = Inr (used_store l m i (fst e, snd e))"
    using used_store_eq [OF assms ab] by metis
  note q = queue_inD [OF assms] and wf1 = u32_cell.wr_wf [OF queue_inD(2) [OF assms] m1(1)]
  have "read_u32 (used_store l m i e) b = Inr (snd e)"
    using u32_cell.rd_wr [OF wf1 m1(2)] by simp
  moreover have "read_u32 (used_store l m i e) a = Inr (fst e)"
    using u32_cell.rd_wr_other [OF wf1 m1(2)] u32_cell.rd_wr [OF q(2) m1(1)]
      used_load_eq(4) [OF assms ab] by simp
  ultimately show ?thesis using True j by (simp add: used_load_def)
next
  case False
  then show ?thesis
    using used_load_frame [OF assms used_store_off [OF assms], of j i e]
      slot_bytes_disjoint(2) [OF queue_inD(1) [OF assms], of j i] by auto
qed

interpretation used_queue: spsc_ring "queue_in l" "used_load l" "used_store l" "queue_size l" for l
proof unfold_locales
  show "is_power_of_two (queue_size l)" if "queue_in l m" for m
    using that by (simp add: queue_in_def layout_wf_def)
  show "queue_in l (used_store l m i v)" if "queue_in l m" for m i v
    using that queue_in_same_off [OF used_store_off [OF that]] by simp
qed (rule used_load_store)

section \<open>Writing one field\<close>

definition put_u16 :: "SharedMem \<Rightarrow> GuestAddr \<Rightarrow> u16 \<Rightarrow> SharedMem" where
  "put_u16 m a v = (case write_u16 m a v of Inl e \<Rightarrow> m | Inr m' \<Rightarrow> m')"

lemma write_u16_put: "mem_wf m \<Longrightarrow> in_mem m a 2 \<Longrightarrow> write_u16 m a v = Inr (put_u16 m a v)"
  using u16_cell.wr_some [of m a v] by (auto simp: put_u16_def)

lemma put_u16_off: "mem_wf m \<Longrightarrow> same_off (bytes_at a 2) m (put_u16 m a v)"
  using u16_cell.wr_frame [of m a v] by (auto simp: put_u16_def split: sum.split)

lemma get_put_u16: "mem_wf m \<Longrightarrow> in_mem m a 2 \<Longrightarrow> get_u16 (put_u16 m a v) a = v"
  using write_u16_put [of m a v] u16_cell.rd_wr [of m a v] by (simp add: get_u16_def)

lemma get_put_u16_other:
  "mem_wf m \<Longrightarrow> bytes_at b 2 \<inter> bytes_at a 2 = {} \<Longrightarrow> get_u16 (put_u16 m a v) b = get_u16 m b"
  using get_u16_frame [OF _ put_u16_off] by blast

lemma queue_in_put [simp]: "queue_in l m \<Longrightarrow> queue_in l (put_u16 m a v)"
  using queue_in_same_off [OF put_u16_off] queue_inD(2) by blast

lemma queue_in_used_store [simp]: "queue_in l m \<Longrightarrow> queue_in l (used_store l m i e)"
  using queue_in_same_off [OF used_store_off] by blast

lemma queue_in_avail_store [simp]: "queue_in l m \<Longrightarrow> queue_in l (avail_store l m i v)"
  using queue_in_same_off [OF avail_store_off] by blast

end
