(* ===== verification/VqChain.thy ===== *)
theory VqChain
  imports VqRings
begin

text \<open>
  The descriptor chain walk of \<^verbatim>\<open>rung-02-virtio/toy-virtq-raw/src/device.rs\<close>: \<^verbatim>\<open>ChainIter\<close>, its
  constructor, its \<^verbatim>\<open>next\<close>, and the sequence of items a \<^verbatim>\<open>for\<close> loop over it sees. The chain is a
  linked list that the guest writes; the iterator bounds its length (\<open>it_ttl\<close>), where it may go
  (\<^verbatim>\<open>VirtqLayout::desc\<close>) and how many bytes it may claim (\<open>it_yielded_bytes\<close>), and checks the order
  of readable and writable buffers.

  The reference is \<open>valid_chain\<close>, the chain as the specification describes it: the descriptors
  linked from the head, no longer than the table, none indirect, fewer than \<open>2^32\<close> bytes in all,
  readable buffers first. The walk yields exactly these chains and no others.
\<close>

unbundle bit_operations_syntax

section \<open>The iterator\<close>

datatype ChainError =
    IndexOutOfRange u16 u16
  | TooLong u16
  | TooManyBytes
  | BadBuffer MemError
  | Indirect
  | ReadableAfterWritable
  | ChainMem MemError

record ChainIter =
  it_mem :: SharedMem
  it_layout :: VirtqLayout
  it_next_index :: u16
  it_ttl :: u16
  it_yielded_bytes :: u32
  it_seen_writable :: bool
  it_done :: bool

definition chain_new :: "SharedMem \<Rightarrow> VirtqLayout \<Rightarrow> u16 \<Rightarrow> ChainIter" where
  "chain_new m l head =
     \<lparr>it_mem = m, it_layout = l, it_next_index = head, it_ttl = queue_size l,
      it_yielded_bytes = 0, it_seen_writable = False, it_done = False\<rparr>"

definition read_descriptor :: "SharedMem \<Rightarrow> GuestAddr \<Rightarrow> MemError + Descriptor" where
  "read_descriptor m addr =
     (case read_u64 m addr of Inl e \<Rightarrow> Inl e | Inr a \<Rightarrow>
     (case read_u32 m (addr + 8) of Inl e \<Rightarrow> Inl e | Inr n \<Rightarrow>
     (case read_u16 m (addr + 12) of Inl e \<Rightarrow> Inl e | Inr f \<Rightarrow>
     (case read_u16 m (addr + 14) of Inl e \<Rightarrow> Inl e | Inr x \<Rightarrow>
        Inr \<lparr>d_addr = a, d_len = n, d_flags = f, d_next = x\<rparr>))))"

definition chain_next :: "ChainIter \<Rightarrow> (ChainError + Descriptor) option \<times> ChainIter" where
  "chain_next it =
     (if it_done it then (None, it)
      else if it_ttl it = 0 then
        (Some (Inl (TooLong (queue_size (it_layout it)))), it\<lparr>it_done := True\<rparr>)
      else case desc (it_layout it) (it_next_index it) of
        None \<Rightarrow>
          (Some (Inl (IndexOutOfRange (it_next_index it) (queue_size (it_layout it)))),
           it\<lparr>it_done := True\<rparr>)
      | Some addr \<Rightarrow>
        (case read_descriptor (it_mem it) addr of
          Inl e \<Rightarrow> (Some (Inl (ChainMem e)), it\<lparr>it_done := True\<rparr>)
        | Inr d \<Rightarrow>
          if is_indirect d then (Some (Inl Indirect), it\<lparr>it_done := True\<rparr>)
          else (case checked_add (it_yielded_bytes it) (d_len d) of
            None \<Rightarrow> (Some (Inl TooManyBytes), it\<lparr>it_done := True\<rparr>)
          | Some n \<Rightarrow>
            let it1 = it\<lparr>it_yielded_bytes := n\<rparr> in
            if \<not> is_write_only d \<and> it_seen_writable it1 then
              (Some (Inl ReadableAfterWritable), it1\<lparr>it_done := True\<rparr>)
            else
              let it2 = (if is_write_only d then it1\<lparr>it_seen_writable := True\<rparr> else it1);
                  it3 = (if has_next d then it2\<lparr>it_next_index := d_next d, it_ttl := it_ttl it2 - 1\<rparr>
                         else it2\<lparr>it_done := True\<rparr>)
              in (Some (Inr d), it3))))"

text \<open>
  What a loop over the iterator sees. Every item either ends the walk or uses up one unit of
  \<open>it_ttl\<close>, so the walk ends whatever the guest wrote.
\<close>

definition walk_left :: "ChainIter \<Rightarrow> nat" where
  "walk_left it = (if it_done it then 0 else Suc (unat (it_ttl it)))"

lemma chain_next_progress:
  "chain_next it = (Some r, it') \<Longrightarrow> walk_left it' < walk_left it"
  using measure_unat [of "it_ttl it"]
  by (auto simp: chain_next_def walk_left_def Let_def split: if_splits option.splits sum.splits)

function chain_items :: "ChainIter \<Rightarrow> (ChainError + Descriptor) list" where
  "chain_items it =
     (case chain_next it of
        (None, it') \<Rightarrow> []
      | (Some r, it') \<Rightarrow> r # chain_items it')"
  by pat_completeness auto
termination
  by (relation "measure walk_left") (auto dest!: chain_next_progress [OF sym])

declare chain_items.simps [simp del]

section \<open>Bounds of the walk\<close>

lemma length_chain_items: "length (chain_items it) \<le> walk_left it"
proof (induction it rule: chain_items.induct)
  case (1 it)
  show ?case
  proof (cases "chain_next it")
    case (Pair r it')
    show ?thesis
    proof (cases r)
      case None
      with Pair show ?thesis by (simp add: chain_items.simps [of it])
    next
      case (Some x)
      with Pair 1 have "length (chain_items it') \<le> walk_left it'" by simp
      with Pair Some show ?thesis
        using chain_next_progress [of it x it'] by (simp add: chain_items.simps [of it])
    qed
  qed
qed

lemma chain_items_done: "it_done it \<Longrightarrow> chain_items it = []"
  by (simp add: chain_items.simps [of it] chain_next_def)

lemma chain_items_Some:
  "chain_next it = (Some r, it') \<Longrightarrow> chain_items it = r # chain_items it'"
  by (simp add: chain_items.simps [of it])

lemma chain_next_Some: "\<not> it_done it \<Longrightarrow> \<exists>r it'. chain_next it = (Some r, it')"
  by (simp add: chain_next_def Let_def split: option.split sum.split)

section \<open>The chain as the specification describes it\<close>

definition table :: "SharedMem \<Rightarrow> VirtqLayout \<Rightarrow> u16 \<Rightarrow> Descriptor option" where
  "table m l i =
     (case desc l i of
        None \<Rightarrow> None
      | Some a \<Rightarrow> (case read_descriptor m a of Inl e \<Rightarrow> None | Inr d \<Rightarrow> Some d))"

fun linked :: "SharedMem \<Rightarrow> VirtqLayout \<Rightarrow> u16 \<Rightarrow> Descriptor list \<Rightarrow> bool" where
  "linked m l i [] \<longleftrightarrow> False"
| "linked m l i (d # ds) \<longleftrightarrow> table m l i = Some d \<and>
     (if has_next d then linked m l (d_next d) ds else ds = [])"

text \<open>\<open>running\<close>: descriptors linked from \<open>i\<close> that all name a successor, so the list goes on.\<close>

fun running :: "SharedMem \<Rightarrow> VirtqLayout \<Rightarrow> u16 \<Rightarrow> Descriptor list \<Rightarrow> bool" where
  "running m l i [] \<longleftrightarrow> True"
| "running m l i (d # ds) \<longleftrightarrow> table m l i = Some d \<and> has_next d \<and> running m l (d_next d) ds"

fun ordered :: "bool \<Rightarrow> Descriptor list \<Rightarrow> bool" where
  "ordered seen [] \<longleftrightarrow> True"
| "ordered seen (d # ds) \<longleftrightarrow> (seen \<longrightarrow> is_write_only d) \<and> ordered (seen \<or> is_write_only d) ds"

definition readable_first :: "Descriptor list \<Rightarrow> bool" where
  "readable_first ds \<longleftrightarrow> (\<exists>rs ws. ds = rs @ ws \<and> list_all (\<lambda>d. \<not> is_write_only d) rs \<and> list_all is_write_only ws)"

definition total_len :: "Descriptor list \<Rightarrow> nat" where
  "total_len ds = sum_list (map (unat \<circ> d_len) ds)"

definition acceptable :: "Descriptor list \<Rightarrow> bool" where
  "acceptable ds \<longleftrightarrow> list_all (\<lambda>d. \<not> is_indirect d) ds \<and> total_len ds < 2 ^ 32 \<and> readable_first ds"

definition valid_chain :: "SharedMem \<Rightarrow> VirtqLayout \<Rightarrow> u16 \<Rightarrow> Descriptor list \<Rightarrow> bool" where
  "valid_chain m l head ds \<longleftrightarrow> linked m l head ds \<and> length ds \<le> qn l \<and> acceptable ds"

lemma total_len_simps [simp]: "total_len [] = 0" "total_len (d # ds) = unat (d_len d) + total_len ds"
  by (simp_all add: total_len_def)

lemma ordered_True: "ordered True ds \<longleftrightarrow> list_all is_write_only ds"
  by (induction ds) auto

lemma readable_first_Cons:
  "readable_first (d # ds) \<longleftrightarrow>
    (if is_write_only d then list_all is_write_only ds else readable_first ds)"
proof (cases "is_write_only d")
  case True
  then have "readable_first (d # ds)" if "list_all is_write_only ds"
    unfolding readable_first_def using that
    by (intro exI [of _ "[]"] exI [of _ "d # ds"]) simp
  with True show ?thesis
    by (auto simp: readable_first_def Cons_eq_append_conv)
next
  case False
  show ?thesis
  proof
    assume "readable_first (d # ds)"
    then obtain rs ws where split: "d # ds = rs @ ws" "list_all (\<lambda>d. \<not> is_write_only d) rs"
        "list_all is_write_only ws"
      by (auto simp: readable_first_def)
    with False obtain rs' where "rs = d # rs'" by (cases rs) auto
    with split False show "if is_write_only d then list_all is_write_only ds else readable_first ds"
      by (auto simp: readable_first_def)
  next
    assume "if is_write_only d then list_all is_write_only ds else readable_first ds"
    with False obtain rs ws where "ds = rs @ ws" "list_all (\<lambda>d. \<not> is_write_only d) rs"
        "list_all is_write_only ws"
      by (auto simp: readable_first_def)
    with False show "readable_first (d # ds)"
      unfolding readable_first_def by (intro exI [of _ "d # rs"] exI [of _ ws]) simp
  qed
qed

lemma ordered_False: "ordered False ds \<longleftrightarrow> readable_first ds"
proof (induction ds)
  case Nil
  then show ?case by (simp add: readable_first_def)
next
  case (Cons d ds)
  then show ?case by (simp add: readable_first_Cons ordered_True)
qed

text \<open>One successful step of the iterator, as a condition and the iterator that follows.\<close>

definition after :: "ChainIter \<Rightarrow> Descriptor \<Rightarrow> ChainIter" where
  "after it d =
     (let it2 = it\<lparr>it_yielded_bytes := it_yielded_bytes it + d_len d,
                   it_seen_writable := it_seen_writable it \<or> is_write_only d\<rparr>
      in if has_next d then it2\<lparr>it_next_index := d_next d, it_ttl := it_ttl it - 1\<rparr>
         else it2\<lparr>it_done := True\<rparr>)"

lemma chain_next_Inr_iff:
  assumes "\<not> it_done it"
  shows "chain_next it = (Some (Inr d), it') \<longleftrightarrow>
    it_ttl it \<noteq> 0 \<and> table (it_mem it) (it_layout it) (it_next_index it) = Some d \<and>
    \<not> is_indirect d \<and> unat (it_yielded_bytes it) + unat (d_len d) < 2 ^ 32 \<and>
    (it_seen_writable it \<longrightarrow> is_write_only d) \<and> it' = after it d"
  using assms
  by (auto simp: chain_next_def table_def after_def Let_def checked_add_def
      split: if_splits option.splits sum.splits)

lemma after_simps [simp]:
  "it_mem (after it d) = it_mem it" "it_layout (after it d) = it_layout it"
  "it_seen_writable (after it d) = (it_seen_writable it \<or> is_write_only d)"
  "it_yielded_bytes (after it d) = it_yielded_bytes it + d_len d"
  "it_done (after it d) \<longleftrightarrow> (\<not> has_next d \<or> it_done it)"
  "has_next d \<Longrightarrow> it_next_index (after it d) = d_next d"
  "has_next d \<Longrightarrow> it_ttl (after it d) = it_ttl it - 1"
  by (simp_all add: after_def Let_def)

section \<open>The walk against the specification\<close>

lemma after_yielded:
  "unat (it_yielded_bytes it) + unat (d_len d) < 2 ^ 32 \<Longrightarrow>
    unat (it_yielded_bytes (after it d)) = unat (it_yielded_bytes it) + unat (d_len d)"
  by (simp add: unat_add_small)

lemma after_ttl:
  "has_next d \<Longrightarrow> it_ttl it \<noteq> 0 \<Longrightarrow> Suc (unat (it_ttl (after it d))) = unat (it_ttl it)"
  by (simp add: unat_minus_one unat_gt_0)

lemma ttl_pos: "w \<noteq> 0 \<Longrightarrow> Suc 0 \<le> unat w" for w :: u16
  by (simp add: Suc_le_eq unat_gt_0)

lemma chain_items_Cons_Inr:
  assumes "\<not> it_done it"
  shows "chain_items it = Inr d # rs \<longleftrightarrow>
    chain_next it = (Some (Inr d), after it d) \<and> chain_items (after it d) = rs"
proof -
  obtain r it' where step: "chain_next it = (Some r, it')"
    using chain_next_Some [OF assms] by blast
  have "it' = after it d" if "r = Inr d"
    using chain_next_Inr_iff [OF assms, of d it'] step that by simp
  with step show ?thesis
    by (auto simp: chain_items_Some [OF step])
qed

lemma chain_items_complete_iff:
  assumes "\<not> it_done it"
  shows "chain_items it = map Inr ds \<longleftrightarrow>
    linked (it_mem it) (it_layout it) (it_next_index it) ds \<and> length ds \<le> unat (it_ttl it) \<and>
    list_all (\<lambda>d. \<not> is_indirect d) ds \<and> unat (it_yielded_bytes it) + total_len ds < 2 ^ 32 \<and>
    ordered (it_seen_writable it) ds"
  using assms
proof (induction ds arbitrary: it)
  case Nil
  then show ?case
    using chain_next_Some [of it] by (auto simp: chain_items_Some)
next
  case (Cons d ds)
  let ?step = "chain_next it = (Some (Inr d), after it d)"
  have "chain_items it = map Inr (d # ds) \<longleftrightarrow> ?step \<and> chain_items (after it d) = map Inr ds"
    using chain_items_Cons_Inr [OF Cons.prems] by simp
  also have "\<dots> \<longleftrightarrow> ?step \<and> (if has_next d then
      linked (it_mem it) (it_layout it) (d_next d) ds \<and> length ds \<le> unat (it_ttl (after it d)) \<and>
      list_all (\<lambda>d. \<not> is_indirect d) ds \<and> unat (it_yielded_bytes (after it d)) + total_len ds < 2 ^ 32 \<and>
      ordered (it_seen_writable it \<or> is_write_only d) ds else ds = [])"
    using Cons.IH [of "after it d"] Cons.prems chain_items_done [of "after it d"] by auto
  finally show ?case
    using Cons.prems after_ttl [of d it] after_yielded [of it d]
    by (cases "it_ttl it = 0") (auto simp: chain_next_Inr_iff dest: ttl_pos)
qed

lemma chain_items_too_long_iff:
  assumes "\<not> it_done it"
  shows "chain_items it = map Inr ds @ [Inl (TooLong n)] \<longleftrightarrow>
    n = queue_size (it_layout it) \<and>
    running (it_mem it) (it_layout it) (it_next_index it) ds \<and> length ds = unat (it_ttl it) \<and>
    list_all (\<lambda>d. \<not> is_indirect d) ds \<and> (ds = [] \<or> unat (it_yielded_bytes it) + total_len ds < 2 ^ 32) \<and>
    ordered (it_seen_writable it) ds"
  using assms
proof (induction ds arbitrary: it)
  case Nil
  then obtain r it' where step: "chain_next it = (Some r, it')"
    using chain_next_Some [of it] by blast
  have "r = Inl (TooLong n) \<longleftrightarrow> n = queue_size (it_layout it) \<and> it_ttl it = 0"
    using step Nil by (auto simp: chain_next_def Let_def split: if_splits option.splits sum.splits)
  moreover have "it_done it'" if "r = Inl e" for e
    using step Nil that by (auto simp: chain_next_def Let_def split: if_splits option.splits sum.splits)
  ultimately show ?case
    using step by (auto simp: chain_items_Some unat_eq_0 chain_items_done)
next
  case (Cons d ds)
  let ?step = "chain_next it = (Some (Inr d), after it d)"
  have "chain_items it = map Inr (d # ds) @ [Inl (TooLong n)] \<longleftrightarrow>
      ?step \<and> chain_items (after it d) = map Inr ds @ [Inl (TooLong n)]"
    using chain_items_Cons_Inr [OF Cons.prems] by simp
  also have "\<dots> \<longleftrightarrow> ?step \<and> has_next d \<and> n = queue_size (it_layout it) \<and>
      running (it_mem it) (it_layout it) (d_next d) ds \<and> length ds = unat (it_ttl (after it d)) \<and>
      list_all (\<lambda>d. \<not> is_indirect d) ds \<and>
      (ds = [] \<or> unat (it_yielded_bytes (after it d)) + total_len ds < 2 ^ 32) \<and>
      ordered (it_seen_writable it \<or> is_write_only d) ds"
    using Cons.IH [of "after it d"] Cons.prems chain_items_done [of "after it d"]
    by (cases "has_next d") auto
  finally show ?case
    using Cons.prems after_ttl [of d it] after_yielded [of it d]
    by (cases "it_ttl it = 0") (auto simp: chain_next_Inr_iff)
qed

section \<open>What the walk reads\<close>

text \<open>The walk reads the descriptor table and nothing else, so it is blind to other writes.\<close>

definition desc_bytes :: "VirtqLayout \<Rightarrow> u16 \<Rightarrow> nat set" where
  "desc_bytes l i = (let s = unat (desc_table l) + 16 * unat i in {s ..< s + 16})"

lemma desc_bytes_in_area: "unat i < qn l \<Longrightarrow> desc_bytes l i \<subseteq> desc_area l"
  by (auto simp: desc_bytes_def desc_area_def Let_def)

lemma desc_bytes_disjoint: "i \<noteq> j \<Longrightarrow> desc_bytes l i \<inter> desc_bytes l j = {}"
  by (auto simp: desc_bytes_def Let_def word_unat_eq_iff)

text \<open>The four fields of a descriptor.\<close>

lemma desc_fields:
  assumes "queue_in l m" "desc l i = Some a"
  shows "in_mem m a 8" "in_mem m (a + 8) 4" "in_mem m (a + 12) 2" "in_mem m (a + 14) 2"
    "bytes_at a 8 \<union> bytes_at (a + 8) 4 \<union> bytes_at (a + 12) 2 \<union> bytes_at (a + 14) 2 \<subseteq> desc_bytes l i"
    "bytes_at a 8 \<inter> bytes_at (a + 8) 4 = {}" "bytes_at a 8 \<inter> bytes_at (a + 12) 2 = {}"
    "bytes_at a 8 \<inter> bytes_at (a + 14) 2 = {}" "bytes_at (a + 8) 4 \<inter> bytes_at (a + 12) 2 = {}"
    "bytes_at (a + 8) 4 \<inter> bytes_at (a + 14) 2 = {}" "bytes_at (a + 12) 2 \<inter> bytes_at (a + 14) 2 = {}"
proof -
  note q = queue_inD [OF assms(1)] and b = layout_wf_bounds [OF queue_inD(1) [OF assms(1)]]
  have i: "unat i < qn l" "unat a = unat (desc_table l) + 16 * unat i"
    using assms(2) by (simp_all add: desc_at q(1))
  then have u: "unat (a + 8) = unat a + 8" "unat (a + 12) = unat a + 12" "unat (a + 14) = unat a + 14"
    using b by (simp_all add: unat_add_small)
  show "in_mem m a 8" "in_mem m (a + 8) 4" "in_mem m (a + 12) 2" "in_mem m (a + 14) 2"
    using i u b q(3) by (simp_all add: in_mem_def)
  show "bytes_at a 8 \<union> bytes_at (a + 8) 4 \<union> bytes_at (a + 12) 2 \<union> bytes_at (a + 14) 2 \<subseteq> desc_bytes l i"
    using i by (auto simp: bytes_at_def u desc_bytes_def Let_def)
  show "bytes_at a 8 \<inter> bytes_at (a + 8) 4 = {}" "bytes_at a 8 \<inter> bytes_at (a + 12) 2 = {}"
    "bytes_at a 8 \<inter> bytes_at (a + 14) 2 = {}" "bytes_at (a + 8) 4 \<inter> bytes_at (a + 12) 2 = {}"
    "bytes_at (a + 8) 4 \<inter> bytes_at (a + 14) 2 = {}" "bytes_at (a + 12) 2 \<inter> bytes_at (a + 14) 2 = {}"
    by (auto simp: bytes_at_def u)
qed

lemma read_descriptor_ok:
  assumes "queue_in l m" "desc l i = Some a"
  shows "\<exists>d. read_descriptor m a = Inr d"
  using desc_fields(1-4) [OF assms] by (simp add: read_descriptor_def mem_laws queue_inD(2) [OF assms(1)])

lemma read_descriptor_frame_at:
  assumes "queue_in l m" "desc l i = Some a" "same_off S m m'" "desc_bytes l i \<inter> S = {}"
  shows "read_descriptor m' a = read_descriptor m a"
proof -
  note q = queue_inD [OF assms(1)]
  have "bytes_at a 8 \<inter> S = {}" "bytes_at (a + 8) 4 \<inter> S = {}" "bytes_at (a + 12) 2 \<inter> S = {}"
      "bytes_at (a + 14) 2 \<inter> S = {}"
    using desc_fields(5) [OF assms(1,2)] assms(4) by blast+
  then show ?thesis
    using read_u64_frame [OF q(2) assms(3)] u32_cell.rd_frame [OF q(2) assms(3)]
      u16_cell.rd_frame [OF q(2) assms(3)]
    by (simp add: read_descriptor_def split: sum.split)
qed

lemma read_descriptor_frame:
  assumes "queue_in l m" "desc l i = Some a" "same_off S m m'" "desc_area l \<inter> S = {}"
  shows "read_descriptor m' a = read_descriptor m a"
proof -
  have "unat i < qn l" using assms(2) by (simp add: desc_at queue_inD(1) [OF assms(1)])
  then show ?thesis
    using desc_bytes_in_area [of i l] assms(4) by (intro read_descriptor_frame_at [OF assms(1-3)]) blast
qed

lemma table_frame:
  assumes "queue_in l m" "same_off S m m'" "desc_bytes l i \<inter> S = {}"
  shows "table m' l i = table m l i"
  using read_descriptor_frame_at [OF assms(1) _ assms(2,3)] by (simp add: table_def split: option.split)

lemma chain_next_mem:
  assumes "\<And>i a. desc (it_layout it) i = Some a \<Longrightarrow> read_descriptor m' a = read_descriptor (it_mem it) a"
  shows "chain_next (it\<lparr>it_mem := m'\<rparr>) = (let (r, it') = chain_next it in (r, it'\<lparr>it_mem := m'\<rparr>))"
proof (cases "desc (it_layout it) (it_next_index it)")
  case None
  then show ?thesis by (simp add: chain_next_def)
next
  case (Some a)
  then show ?thesis
    using assms [OF Some] by (simp add: chain_next_def Let_def split: sum.split option.split)
qed

lemma chain_next_same:
  "chain_next it = (r, it') \<Longrightarrow> it_mem it' = it_mem it \<and> it_layout it' = it_layout it"
  by (auto simp: chain_next_def Let_def split: if_splits option.splits sum.splits)

lemma chain_items_mem:
  assumes "\<And>i a. desc (it_layout it) i = Some a \<Longrightarrow> read_descriptor m' a = read_descriptor (it_mem it) a"
  shows "chain_items (it\<lparr>it_mem := m'\<rparr>) = chain_items it"
  using assms
proof (induction it rule: chain_items.induct)
  case (1 it)
  obtain r it' where step: "chain_next it = (r, it')" by fastforce
  then have step': "chain_next (it\<lparr>it_mem := m'\<rparr>) = (r, it'\<lparr>it_mem := m'\<rparr>)"
    using chain_next_mem [OF 1(2)] by simp
  show ?case
  proof (cases r)
    case None
    then show ?thesis using step step' by (simp add: chain_items.simps)
  next
    case (Some x)
    then have "chain_items (it'\<lparr>it_mem := m'\<rparr>) = chain_items it'"
      using 1 chain_next_same [OF step] step by simp
    then show ?thesis
      using step step' Some by (simp add: chain_items_Some)
  qed
qed

lemma chain_items_frame:
  assumes "queue_in l m" "same_off S m m'" "desc_area l \<inter> S = {}"
  shows "chain_items (chain_new m' l h) = chain_items (chain_new m l h)"
proof -
  have "chain_new m' l h = (chain_new m l h)\<lparr>it_mem := m'\<rparr>"
    by (simp add: chain_new_def)
  moreover have "read_descriptor m' a = read_descriptor m a" if "desc l i = Some a" for i a
    using read_descriptor_frame [OF assms(1) that assms(2,3)] .
  ultimately show ?thesis
    using chain_items_mem [of "chain_new m l h" m'] by (simp add: chain_new_def)
qed

text \<open>Every walk is a list of descriptors, possibly followed by one error.\<close>

lemma chain_next_Inl_done: "chain_next it = (Some (Inl e), it') \<Longrightarrow> it_done it'"
  by (auto simp: chain_next_def Let_def split: if_splits option.splits sum.splits)

lemma chain_items_shape:
  "\<exists>ds. chain_items it = map Inr ds \<or> (\<exists>e. chain_items it = map Inr ds @ [Inl e])"
proof (induction it rule: chain_items.induct)
  case (1 it)
  obtain r it' where step: "chain_next it = (r, it')" by fastforce
  consider "r = None" | e where "r = Some (Inl e)" | d where "r = Some (Inr d)"
    by (cases r) (auto, metis sum.exhaust)
  then show ?case
  proof cases
    case 1
    then have "chain_items it = map Inr []"
      using step by (simp add: chain_items.simps)
    then show ?thesis by blast
  next
    case (2 e)
    then have "chain_items it = map Inr [] @ [Inl e]"
      using step chain_next_Inl_done [of it e it'] by (simp add: chain_items_Some chain_items_done)
    then show ?thesis by blast
  next
    case (3 d)
    obtain ds where "chain_items it' = map Inr ds \<or> (\<exists>e. chain_items it' = map Inr ds @ [Inl e])"
      using 1 [OF step [symmetric] 3] by blast
    then have "chain_items it = map Inr (d # ds) \<or> (\<exists>e. chain_items it = map Inr (d # ds) @ [Inl e])"
      using step 3 by (auto simp: chain_items_Some)
    then show ?thesis by blast
  qed
qed

lemma chain_items_bound: "length (chain_items (chain_new m l h)) \<le> Suc (qn l)"
  using length_chain_items [of "chain_new m l h"] by (simp add: walk_left_def chain_new_def)

lemma chain_items_valid_iff:
  "chain_items (chain_new m l h) = map Inr ds \<longleftrightarrow> valid_chain m l h ds"
  using chain_items_complete_iff [of "chain_new m l h" ds]
  by (auto simp: chain_new_def valid_chain_def acceptable_def ordered_False)

section \<open>The outcome of a walk\<close>

fun walk_result :: "(ChainError + Descriptor) list \<Rightarrow> ChainError + Descriptor list" where
  "walk_result [] = Inr []"
| "walk_result (Inl e # items) = Inl e"
| "walk_result (Inr d # items) = (case walk_result items of Inl e \<Rightarrow> Inl e | Inr ds \<Rightarrow> Inr (d # ds))"

definition chain_walk :: "SharedMem \<Rightarrow> VirtqLayout \<Rightarrow> u16 \<Rightarrow> ChainError + Descriptor list" where
  "chain_walk m l h = walk_result (chain_items (chain_new m l h))"

lemma walk_result_map [simp]: "walk_result (map Inr ds) = Inr ds"
  by (induction ds) auto

lemma walk_result_Inr: "walk_result items = Inr ds \<Longrightarrow> items = map Inr ds"
  by (induction items arbitrary: ds rule: walk_result.induct) (auto split: sum.splits)

lemma walk_result_Inl: "walk_result items = Inl e \<Longrightarrow> \<exists>ds rest. items = map Inr ds @ Inl e # rest"
proof (induction items rule: walk_result.induct)
  case (2 e' items)
  then show ?case by (intro exI [of _ "[]"] exI [of _ items]) simp
next
  case (3 d items)
  then obtain ds rest where "items = map Inr ds @ Inl e # rest"
    by (auto split: sum.splits)
  then show ?case by (intro exI [of _ "d # ds"] exI [of _ rest]) simp
qed simp

lemma walk_result_append_Inl: "walk_result (map Inr ds @ Inl e # rest) = Inl e"
  by (induction ds) auto

lemma chain_walk_Inr_iff: "chain_walk m l h = Inr ds \<longleftrightarrow> valid_chain m l h ds"
proof
  assume "chain_walk m l h = Inr ds"
  then have "chain_items (chain_new m l h) = map Inr ds"
    unfolding chain_walk_def by (rule walk_result_Inr)
  then show "valid_chain m l h ds" by (simp only: chain_items_valid_iff)
next
  assume "valid_chain m l h ds"
  then have "chain_items (chain_new m l h) = map Inr ds" by (simp only: chain_items_valid_iff)
  then show "chain_walk m l h = Inr ds" by (simp add: chain_walk_def)
qed

lemma chain_walk_frame:
  "queue_in l m \<Longrightarrow> same_off S m m' \<Longrightarrow> desc_area l \<inter> S = {} \<Longrightarrow> chain_walk m' l h = chain_walk m l h"
  using chain_items_frame [of l m S m' h] by (simp add: chain_walk_def)

end
