(* ===== verification/VqDevice.thy ===== *)
theory VqDevice
  imports VqChain
begin

text \<open>
  The device half of a virtqueue, \<^verbatim>\<open>Device\<close> of \<^verbatim>\<open>rung-02-virtio/toy-virtq-raw/src/device.rs\<close>. Each
  method takes the device and the memory and returns its result with the new device (and memory,
  where it writes); the state after an error is kept, as in the source, where \<^verbatim>\<open>?\<close> returns in the
  middle of a method.

  \<^verbatim>\<open>Device::process\<close> is the body \<open>serve_chain\<close> inside a loop that runs until the avail ring is
  empty. The guest chooses the buffers, so the loop need not end: \<open>process\<close> is a partial
  function, \<open>None\<close> when it runs forever. Its argument \<open>work\<close> is the closure, with the closure's
  captured state as a parameter.
\<close>

unbundle bit_operations_syntax

section \<open>The device\<close>

record Device =
  dev_layout :: VirtqLayout
  next_avail :: u16
  next_used :: u16
  num_added :: u16
  dev_event_idx :: bool

datatype RejectReason = RejectChain ChainError | RejectBuffer MemError

record ProcessStats =
  st_chains :: u64
  st_descriptors :: u64
  st_bytes_read :: u64
  st_bytes_written :: u64
  st_rejected :: "(u16 \<times> RejectReason) list"

definition stats_default :: ProcessStats where
  "stats_default = \<lparr>st_chains = 0, st_descriptors = 0, st_bytes_read = 0, st_bytes_written = 0,
     st_rejected = []\<rparr>"

definition stats_errors :: "ProcessStats \<Rightarrow> nat" where
  "stats_errors st = length (st_rejected st)"

definition device_new :: "VirtqLayout \<Rightarrow> bool \<Rightarrow> Device" where
  "device_new l ev =
     \<lparr>dev_layout = l, next_avail = 0, next_used = 0, num_added = 0, dev_event_idx = ev\<rparr>"

definition available :: "Device \<Rightarrow> SharedMem \<Rightarrow> MemError + u16" where
  "available d m =
     (case load_idx_acquire m (avail_idx (dev_layout d)) of
        Inl e \<Rightarrow> Inl e
      | Inr i \<Rightarrow> Inr (i - next_avail d))"

definition pop_chain_head :: "Device \<Rightarrow> SharedMem \<Rightarrow> (MemError, u16 option) outcome \<times> Device" where
  "pop_chain_head d m =
     (case available d m of
        Inl e \<Rightarrow> (Err e, d)
      | Inr n \<Rightarrow>
        if n = 0 then (Ok None, d)
        else case avail_slot (dev_layout d) (next_avail d) of
          None \<Rightarrow> (Panic, d)
        | Some a \<Rightarrow>
          (case read_u16 m a of
             Inl e \<Rightarrow> (Err e, d)
           | Inr head \<Rightarrow> (Ok (Some head), d\<lparr>next_avail := next_avail d + 1\<rparr>)))"

definition chain :: "Device \<Rightarrow> SharedMem \<Rightarrow> u16 \<Rightarrow> ChainIter" where
  "chain d m head = chain_new m (dev_layout d) head"

definition add_used :: "Device \<Rightarrow> SharedMem \<Rightarrow> u16 \<Rightarrow> u32 \<Rightarrow> (MemError, unit) outcome \<times> Device \<times> SharedMem" where
  "add_used d m head len =
     (case used_slot (dev_layout d) (next_used d) of
        None \<Rightarrow> (Panic, d, m)
      | Some (id_addr, len_addr) \<Rightarrow>
        (case write_u32 m id_addr (ucast head) of
           Inl e \<Rightarrow> (Err e, d, m)
         | Inr m1 \<Rightarrow>
           (case write_u32 m1 len_addr len of
              Inl e \<Rightarrow> (Err e, d, m1)
            | Inr m2 \<Rightarrow>
              let d' = d\<lparr>next_used := next_used d + 1, num_added := num_added d + 1\<rparr> in
              (case store_idx_release m2 (used_idx (dev_layout d')) (next_used d') of
                 Inl e \<Rightarrow> (Err e, d', m2)
               | Inr m3 \<Rightarrow> (Ok (), d', m3)))))"

definition needs_notification :: "Device \<Rightarrow> SharedMem \<Rightarrow> (MemError + bool) \<times> Device" where
  "needs_notification d m =
     (if \<not> dev_event_idx d then (Inr True, d\<lparr>num_added := 0\<rparr>)
      else case load_relaxed m (used_event (dev_layout d)) of
        Inl e \<Rightarrow> (Inl e, d)
      | Inr ev \<Rightarrow>
        let old = next_used d - num_added d;
            d' = d\<lparr>num_added := 0\<rparr>
        in (Inr (need_event ev (next_used d') old), d'))"

definition enable_notification :: "Device \<Rightarrow> SharedMem \<Rightarrow> (MemError + bool) \<times> SharedMem" where
  "enable_notification d m =
     (let published =
        (if dev_event_idx d then write_u16 m (avail_event (dev_layout d)) (next_avail d)
         else case read_u16 m (used_flags (dev_layout d)) of
           Inl e \<Rightarrow> Inl e
         | Inr flags \<Rightarrow> write_u16 m (used_flags (dev_layout d)) (flags AND NOT VIRTQ_USED_F_NO_NOTIFY))
      in case published of
        Inl e \<Rightarrow> (Inl e, m)
      | Inr m' \<Rightarrow>
        (case available d m' of
           Inl e \<Rightarrow> (Inl e, m')
         | Inr n \<Rightarrow> (Inr (n \<noteq> 0), m')))"

definition disable_notification :: "Device \<Rightarrow> SharedMem \<Rightarrow> MemError + SharedMem" where
  "disable_notification d m =
     (if dev_event_idx d then Inr m
      else case read_u16 m (used_flags (dev_layout d)) of
        Inl e \<Rightarrow> Inl e
      | Inr flags \<Rightarrow> write_u16 m (used_flags (dev_layout d)) (flags OR VIRTQ_USED_F_NO_NOTIFY))"

section \<open>Processing one chain\<close>

text \<open>
  The three inner loops of \<^verbatim>\<open>Device::process\<close>: collecting the items of the walk until the first
  error, gathering the readable buffers, scattering the response. A buffer is its address and
  length.
\<close>

type_synonym buffer_ref = "u64 \<times> u32"

fun collect_chain :: "(ChainError + Descriptor) list \<Rightarrow> ProcessStats \<Rightarrow> buffer_ref list \<Rightarrow> buffer_ref list
    \<Rightarrow> ProcessStats \<times> buffer_ref list \<times> buffer_ref list \<times> ChainError option" where
  "collect_chain [] st rs ws = (st, rs, ws, None)"
| "collect_chain (Inr d # items) st rs ws =
     (let st' = st\<lparr>st_descriptors := st_descriptors st + 1\<rparr> in
      if is_write_only d then collect_chain items st' rs (ws @ [(d_addr d, d_len d)])
      else collect_chain items st' (rs @ [(d_addr d, d_len d)]) ws)"
| "collect_chain (Inl e # items) st rs ws = (st, rs, ws, Some e)"

definition reject :: "u16 \<Rightarrow> RejectReason \<Rightarrow> ProcessStats \<Rightarrow> ProcessStats" where
  "reject head r st = st\<lparr>st_rejected := st_rejected st @ [(head, r)]\<rparr>"

fun gather :: "SharedMem \<Rightarrow> u16 \<Rightarrow> buffer_ref list \<Rightarrow> u8 list \<Rightarrow> ProcessStats \<Rightarrow> u8 list \<times> ProcessStats" where
  "gather m head [] request st = (request, st)"
| "gather m head ((addr, len) # rs) request st =
     (case read_slice m addr (ucast len) of
        Inr s \<Rightarrow> gather m head rs (request @ s) st
      | Inl e \<Rightarrow> gather m head rs request (reject head (RejectBuffer e) st))"

fun scatter :: "SharedMem \<Rightarrow> u16 \<Rightarrow> buffer_ref list \<Rightarrow> u8 list \<Rightarrow> nat \<Rightarrow> u32 \<Rightarrow> ProcessStats
    \<Rightarrow> SharedMem \<times> u32 \<times> ProcessStats" where
  "scatter m head [] response cursor written st = (m, written, st)"
| "scatter m head ((addr, len) # ws) response cursor written st =
     (if length response \<le> cursor then (m, written, st)
      else
        let n = min (unat len) (length response - cursor) in
        case write_slice m addr (window cursor n response) of
          Inl e \<Rightarrow> (m, written, reject head (RejectBuffer e) st)
        | Inr m' \<Rightarrow> scatter m' head ws response (cursor + n) (written + word_of_nat n) st)"

definition serve_chain ::
  "('w \<Rightarrow> u8 list \<Rightarrow> u8 list \<times> 'w) \<Rightarrow> u16 \<Rightarrow> Device \<Rightarrow> SharedMem \<Rightarrow> 'w \<Rightarrow> ProcessStats
    \<Rightarrow> (MemError, unit) outcome \<times> Device \<times> SharedMem \<times> 'w \<times> ProcessStats" where
  "serve_chain work head d m w st =
     (case collect_chain (chain_items (chain d m head)) st [] [] of
        (st1, readable, writable, Some e) \<Rightarrow>
          let st2 = reject head (RejectChain e) st1 in
          (case add_used d m head 0 of
             (Ok _, d', m') \<Rightarrow> (Ok (), d', m', w, st2\<lparr>st_chains := st_chains st2 + 1\<rparr>)
           | (r, d', m') \<Rightarrow> (r, d', m', w, st2))
      | (st1, readable, writable, None) \<Rightarrow>
          let (request, st2) = gather m head readable [] st1;
              st3 = st2\<lparr>st_bytes_read := st_bytes_read st2 + word_of_nat (length request)\<rparr>;
              (response, w') = work w request;
              (m1, written, st4) = scatter m head writable response 0 0 st3;
              st5 = st4\<lparr>st_bytes_written := st_bytes_written st4 + ucast written\<rparr>
          in case add_used d m1 head written of
             (Ok _, d', m') \<Rightarrow> (Ok (), d', m', w', st5\<lparr>st_chains := st_chains st5 + 1\<rparr>)
           | (r, d', m') \<Rightarrow> (r, d', m', w', st5))"

section \<open>The processing loop\<close>

partial_function (option) process ::
  "('w \<Rightarrow> u8 list \<Rightarrow> u8 list \<times> 'w) \<Rightarrow> Device \<Rightarrow> SharedMem \<Rightarrow> 'w \<Rightarrow> ProcessStats
    \<Rightarrow> ((MemError, ProcessStats) outcome \<times> Device \<times> SharedMem \<times> 'w) option" where
  "process work d m w st =
     (case pop_chain_head d m of
        (Err e, d') \<Rightarrow> Some (Err e, d', m, w)
      | (Panic, d') \<Rightarrow> Some (Panic, d', m, w)
      | (Ok None, d') \<Rightarrow> Some (Ok st, d', m, w)
      | (Ok (Some head), d') \<Rightarrow>
          (case serve_chain work head d' m w st of
             (Err e, d'', m', w', st') \<Rightarrow> Some (Err e, d'', m', w')
           | (Panic, d'', m', w', st') \<Rightarrow> Some (Panic, d'', m', w')
           | (Ok _, d'', m', w', st') \<Rightarrow> process work d'' m' w' st'))"

section \<open>The methods on a queue inside the region\<close>

lemma available_eq:
  assumes "queue_in (dev_layout d) m"
  shows "available d m = Inr (avail_count (dev_layout d) m - next_avail d)"
  using read_u16_get [OF queue_inD(2) [OF assms] fields_in_mem(1) [OF assms]]
  by (simp add: available_def load_idx_acquire_def)

lemma pop_chain_head_eq:
  assumes "queue_in (dev_layout d) m"
  shows "pop_chain_head d m =
    (if avail_count (dev_layout d) m = next_avail d then (Ok None, d)
     else (Ok (Some (avail_load (dev_layout d) m (next_avail d))), d\<lparr>next_avail := next_avail d + 1\<rparr>))"
proof -
  obtain a where a: "avail_slot (dev_layout d) (next_avail d) = Some a"
    using slots_some [OF queue_inD(1) [OF assms]] by metis
  show ?thesis
    by (simp add: pop_chain_head_def available_eq [OF assms] a avail_load_eq(1) [OF assms a])
qed

text \<open>The memory after a completion: the used element, then the counter that publishes it.\<close>

definition completed :: "Device \<Rightarrow> SharedMem \<Rightarrow> u16 \<Rightarrow> u32 \<Rightarrow> SharedMem" where
  "completed d m head len =
     put_u16 (used_store (dev_layout d) m (next_used d) (ucast head, len))
       (used_idx (dev_layout d)) (next_used d + 1)"

lemma add_used_eq:
  assumes "queue_in (dev_layout d) m"
  shows "add_used d m head len =
    (Ok (), d\<lparr>next_used := next_used d + 1, num_added := num_added d + 1\<rparr>, completed d m head len)"
proof -
  obtain a b where ab: "used_slot (dev_layout d) (next_used d) = Some (a, b)"
    using used_slots_some [OF queue_inD(1) [OF assms]] by metis
  let ?m2 = "used_store (dev_layout d) m (next_used d) (ucast head, len)"
  obtain m1 where m1: "write_u32 m a (ucast head) = Inr m1" "write_u32 m1 b len = Inr ?m2"
    by (rule used_store_eq [OF assms ab])
  have q: "queue_in (dev_layout d) ?m2" using assms by simp
  have "write_u16 ?m2 (used_idx (dev_layout d)) (next_used d + 1) = Inr (completed d m head len)"
    unfolding completed_def
    by (rule write_u16_put [OF queue_inD(2) [OF q] fields_in_mem(2) [OF q]])
  then show ?thesis
    by (simp add: add_used_def ab m1 Let_def store_idx_release_def)
qed

lemma completed_facts:
  assumes "queue_in (dev_layout d) m"
  shows "same_off (used_slot_bytes (dev_layout d) (next_used d) \<union> bytes_at (used_idx (dev_layout d)) 2)
      m (completed d m head len)"
    "queue_in (dev_layout d) (completed d m head len)"
    "used_count (dev_layout d) (completed d m head len) = next_used d + 1"
    "used_load (dev_layout d) (completed d m head len) j =
      used_load (dev_layout d) (used_store (dev_layout d) m (next_used d) (ucast head, len)) j"
proof -
  let ?l = "dev_layout d" and ?m2 = "used_store (dev_layout d) m (next_used d) (ucast head, len)"
  have q: "queue_in ?l ?m2" using assms by simp
  have off: "same_off (bytes_at (used_idx ?l) 2) ?m2 (completed d m head len)"
    unfolding completed_def by (rule put_u16_off [OF queue_inD(2) [OF q]])
  show "same_off (used_slot_bytes ?l (next_used d) \<union> bytes_at (used_idx ?l) 2) m (completed d m head len)"
    by (rule same_off_trans [OF used_store_off [OF assms] off])
  show "queue_in ?l (completed d m head len)"
    using q by (simp add: completed_def)
  show "used_count ?l (completed d m head len) = next_used d + 1"
    unfolding completed_def by (rule get_put_u16 [OF queue_inD(2) [OF q] fields_in_mem(2) [OF q]])
  show "used_load ?l (completed d m head len) j = used_load ?l ?m2 j"
    using slot_bytes_disjoint(4) [OF queue_inD(1) [OF assms], of j]
    by (intro used_load_frame [OF q off]) auto
qed

lemma completed_in_used_area:
  assumes "queue_in (dev_layout d) m"
  shows "same_off (used_area (dev_layout d)) m (completed d m head len)"
  using slot_bytes_in_areas [OF queue_inD(1) [OF assms]]
  by (intro same_off_mono [OF completed_facts(1) [OF assms]]) blast

lemma completed_contents:
  assumes "queue_in (dev_layout d) m" "unat (next_used d - u0) < qn (dev_layout d)"
  shows "used_queue.contents (dev_layout d) (completed d m head len) u0 (next_used d + 1) =
    used_queue.contents (dev_layout d) m u0 (next_used d) @ [(ucast head, len)]"
  using used_queue.contents_push [OF assms, of "(ucast head, len)"] completed_facts(4) [OF assms(1)]
  by (simp add: used_queue.contents_def)

section \<open>Collecting, gathering and scattering\<close>

definition refs :: "Descriptor list \<Rightarrow> buffer_ref list" where
  "refs ds = map (\<lambda>d. (d_addr d, d_len d)) ds"

abbreviation readable_refs :: "Descriptor list \<Rightarrow> buffer_ref list" where
  "readable_refs ds \<equiv> refs (filter (\<lambda>d. \<not> is_write_only d) ds)"

abbreviation writable_refs :: "Descriptor list \<Rightarrow> buffer_ref list" where
  "writable_refs ds \<equiv> refs (filter is_write_only ds)"

lemma collect_chain_complete:
  "collect_chain (map Inr ds) st rs ws =
    (st\<lparr>st_descriptors := st_descriptors st + of_nat (length ds)\<rparr>, rs @ readable_refs ds,
     ws @ writable_refs ds, None)"
  by (induction ds arbitrary: st rs ws) (simp_all add: refs_def Let_def add.assoc add.commute)

lemma collect_chain_error:
  "collect_chain (map Inr ds @ Inl e # items) st rs ws =
    (st\<lparr>st_descriptors := st_descriptors st + of_nat (length ds)\<rparr>, rs @ readable_refs ds,
     ws @ writable_refs ds, Some e)"
  by (induction ds arbitrary: st rs ws) (simp_all add: refs_def Let_def add.assoc add.commute)

text \<open>The bytes a readable buffer contributes to the request, and the rejections it causes.\<close>

definition read_part :: "SharedMem \<Rightarrow> buffer_ref \<Rightarrow> u8 list" where
  "read_part m b = (case read_slice m (fst b) (ucast (snd b)) of Inl e \<Rightarrow> [] | Inr s \<Rightarrow> s)"

definition read_errors :: "SharedMem \<Rightarrow> u16 \<Rightarrow> buffer_ref \<Rightarrow> (u16 \<times> RejectReason) list" where
  "read_errors m head b =
     (case read_slice m (fst b) (ucast (snd b)) of Inl e \<Rightarrow> [(head, RejectBuffer e)] | Inr s \<Rightarrow> [])"

lemma gather_eq:
  "gather m head rs request st =
    (request @ concat (map (read_part m) rs),
     st\<lparr>st_rejected := st_rejected st @ concat (map (read_errors m head) rs)\<rparr>)"
proof (induction rs arbitrary: request st)
  case Nil
  then show ?case by simp
next
  case (Cons b rs)
  then show ?case
    by (cases b) (auto simp: read_part_def read_errors_def reject_def split: sum.split)
qed

definition ref_bytes :: "buffer_ref \<Rightarrow> nat set" where
  "ref_bytes b = bytes_at (fst b) (unat (snd b))"

definition refs_bytes :: "buffer_ref list \<Rightarrow> nat set" where
  "refs_bytes bs = (\<Union>b \<in> set bs. ref_bytes b)"

definition ref_total :: "buffer_ref list \<Rightarrow> nat" where
  "ref_total bs = sum_list (map (unat \<circ> snd) bs)"

lemma ref_simps [simp]:
  "refs_bytes [] = {}" "refs_bytes (b # bs) = ref_bytes b \<union> refs_bytes bs"
  "ref_total [] = 0" "ref_total (b # bs) = unat (snd b) + ref_total bs"
  by (simp_all add: refs_bytes_def ref_total_def)

lemma ref_total_le_total_len: "ref_total (refs (filter P ds)) \<le> total_len ds"
  by (induction ds) (auto simp: refs_def)

lemma length_piece: "length (window c (min a (length xs - c)) xs) = min a (length xs - c)"
  by (cases "c \<le> length xs") (simp_all add: window_def)

lemma scatter_step_off:
  assumes "mem_wf m" "write_slice m (fst b) (window c (min (unat (snd b)) (length xs - c)) xs) = Inr m1"
  shows "same_off (ref_bytes b) m m1" "mem_wf m1"
proof -
  let ?p = "window c (min (unat (snd b)) (length xs - c)) xs"
  have "length ?p \<le> unat (snd b)"
    by (simp add: length_piece)
  then have "length ?p < 2 ^ 64"
    by (rule le_less_trans) (rule less_trans [OF unat_u32_lt], simp)
  then have off: "same_off (bytes_at (fst b) (length ?p)) m m1"
    using assms by (intro write_slice_same_off) auto
  then show "same_off (ref_bytes b) m m1"
    by (rule same_off_mono) (auto simp: bytes_at_def ref_bytes_def length_piece)
  show "mem_wf m1"
    using assms(1) same_off_wf [OF off] by simp
qed

lemma scatter_off:
  assumes "mem_wf m" "scatter m head ws resp c wr st = (m', wr', st')"
  shows "same_off (refs_bytes ws) m m'"
  using assms
proof (induction ws arbitrary: m c wr st)
  case Nil
  then show ?case by simp
next
  case (Cons b ws)
  obtain addr len where b: "b = (addr, len)" by (cases b)
  let ?n = "min (unat len) (length resp - c)"
  show ?case
  proof (cases "length resp \<le> c")
    case True
    then show ?thesis using Cons.prems b by simp
  next
    case False
    show ?thesis
    proof (cases "write_slice m addr (window c ?n resp)")
      case (Inl e)
      then show ?thesis using Cons.prems b False by (simp add: Let_def)
    next
      case (Inr m1)
      then have "same_off (ref_bytes b) m m1" "mem_wf m1"
        using scatter_step_off [OF Cons.prems(1), of b c resp m1] b by simp_all
      moreover have "scatter m1 head ws resp (c + ?n) (wr + of_nat ?n) st = (m', wr', st')"
        using Cons.prems(2) b False Inr by (simp add: Let_def)
      ultimately show ?thesis
        using Cons.IH same_off_trans by (fastforce simp: b)
    qed
  qed
qed

text \<open>The counter \<^verbatim>\<open>written\<close> never overflows on a chain the walk accepts, and it is bounded by both sides.\<close>

lemma scatter_written_bounds:
  assumes "scatter m head ws resp c wr st = (m', wr', st')" "unat wr + ref_total ws < 2 ^ 32"
  shows "unat wr' \<le> unat wr + ref_total ws \<and> unat wr \<le> unat wr' \<and>
    unat wr' - unat wr \<le> length resp - c"
  using assms
proof (induction ws arbitrary: m c wr st)
  case Nil
  then show ?case by simp
next
  case (Cons b ws)
  obtain addr len where b: "b = (addr, len)" by (cases b)
  let ?n = "min (unat len) (length resp - c)"
  let ?w = "wr + of_nat ?n"
  have "?n < 4294967296"
    using unat_u32_lt [of len] by linarith
  then have w: "unat ?w = unat wr + ?n" "unat ?w + ref_total ws < 2 ^ 32"
    using Cons.prems(2) b by (simp_all add: unat_add_small unat_of_nat_u32)
  consider "wr' = wr" | m1 where "scatter m1 head ws resp (c + ?n) ?w st = (m', wr', st')" "c < length resp"
    using Cons.prems(1) b by (auto simp: Let_def split: if_splits sum.splits)
  then show ?case
  proof cases
    case 1
    then show ?thesis by simp
  next
    case (2 m1)
    have "unat wr' \<le> unat ?w + ref_total ws" "unat ?w \<le> unat wr'"
        "unat wr' - unat ?w \<le> length resp - (c + ?n)"
      using Cons.IH [OF 2(1) w(2)] by simp_all
    moreover obtain n where n: "n = ?n" "n \<le> unat len" "n \<le> length resp - c"
      by simp
    ultimately have "unat wr' \<le> unat wr + n + ref_total ws" "unat wr + n \<le> unat wr'"
        "unat wr' - (unat wr + n) \<le> length resp - (c + n)"
      using w(1) by simp_all
    then show ?thesis using n(2,3) 2(2) b by simp
  qed
qed

text \<open>
  Scattering into buffers that lie in the region and do not overlap: the response overlays what
  the buffers held, cut at their total length.
\<close>

definition bytes_of :: "SharedMem \<Rightarrow> buffer_ref list \<Rightarrow> u8 list" where
  "bytes_of m bs = concat (map (read_part m) bs)"

definition refs_in :: "SharedMem \<Rightarrow> buffer_ref list \<Rightarrow> bool" where
  "refs_in m bs \<longleftrightarrow> list_all (\<lambda>b. in_mem m (fst b) (unat (snd b))) bs"

fun refs_disjoint :: "buffer_ref list \<Rightarrow> bool" where
  "refs_disjoint [] \<longleftrightarrow> True"
| "refs_disjoint (b # bs) \<longleftrightarrow> ref_bytes b \<inter> refs_bytes bs = {} \<and> refs_disjoint bs"

lemma refs_in_same_off: "same_off S m m' \<Longrightarrow> refs_in m' bs = refs_in m bs"
  by (simp add: refs_in_def same_off_in_mem)

lemma read_part_in:
  "mem_wf m \<Longrightarrow> in_mem m (fst b) (unat (snd b)) \<Longrightarrow>
    read_part m b = window (unat (fst b)) (unat (snd b)) (buf m)"
  by (simp add: read_part_def read_slice_eq)

lemma read_part_frame:
  "mem_wf m \<Longrightarrow> same_off S m m' \<Longrightarrow> ref_bytes b \<inter> S = {} \<Longrightarrow> read_part m' b = read_part m b"
  using read_slice_frame [of m S m' "fst b" "ucast (snd b)"] by (simp add: read_part_def ref_bytes_def)

lemma bytes_of_frame:
  "mem_wf m \<Longrightarrow> same_off S m m' \<Longrightarrow> refs_bytes bs \<inter> S = {} \<Longrightarrow> bytes_of m' bs = bytes_of m bs"
  unfolding bytes_of_def refs_bytes_def
  by (intro arg_cong [of _ _ concat] map_cong refl read_part_frame) auto

lemma length_bytes_of: "mem_wf m \<Longrightarrow> refs_in m bs \<Longrightarrow> length (bytes_of m bs) = ref_total bs"
  by (induction bs)
     (auto simp: bytes_of_def refs_in_def read_part_in length_window in_mem_def)

lemma write_piece:
  assumes "mem_wf m" "in_mem m (fst b) (unat (snd b))" "length p \<le> unat (snd b)"
  obtains m1 where "write_slice m (fst b) p = Inr m1" "same_off (ref_bytes b) m m1"
    "read_part m1 b = p @ drop (length p) (read_part m b)"
proof -
  have p: "length p < 2 ^ 64"
    by (rule le_less_trans [OF assms(3)]) (rule less_trans [OF unat_u32_lt], simp)
  let ?m1 = "m\<lparr>buf := blit (unat (fst b)) p (buf m)\<rparr>"
  have fits: "in_mem m (fst b) (length p)"
    using assms(2,3) by (simp add: in_mem_def)
  then have wr: "write_slice m (fst b) p = Inr ?m1"
    using assms(1) p by (simp add: write_slice_eq)
  have off: "same_off (ref_bytes b) m ?m1"
    by (rule same_off_mono [OF write_slice_same_off [OF assms(1) p wr]])
       (use assms(3) in \<open>auto simp: bytes_at_def ref_bytes_def\<close>)
  have "read_part ?m1 b = window (unat (fst b)) (unat (snd b)) (buf ?m1)"
    using assms(1,2) off by (intro read_part_in) (simp_all add: same_off_wf same_off_in_mem)
  also have "\<dots> = p @ drop (length p) (read_part m b)"
    using assms by (simp add: window_blit_prefix read_part_in in_mem_def)
  finally show ?thesis using that wr off by blast
qed

lemma overlay:
  assumes "length x \<le> length b" and "length x < length b \<Longrightarrow> resp = x" and "x = take (length b) resp"
  shows "x @ drop (length x) b @ take n (drop (length x) resp) @ drop (length resp - length x) old =
    take (length b + n) resp @ drop (length resp) (b @ old)"
proof (cases "length x < length b")
  case True
  with assms(2) have "resp = x" by simp
  with True show ?thesis by simp
next
  case False
  then have l: "length x = length b" using assms(1) by simp
  then have "take (length b + n) resp = x @ take n (drop (length b) resp)"
    using assms(3) by (simp add: take_add)
  moreover have "length b \<le> length resp"
    using l assms(3) by (metis length_take min.absorb_iff2 min.commute)
  ultimately show ?thesis using l by simp
qed

lemma scatter_content:
  assumes "mem_wf m" "refs_in m ws" "refs_disjoint ws" "unat wr + ref_total ws < 2 ^ 32" "c \<le> length resp"
  shows "\<exists>m'. scatter m head ws resp c wr st =
      (m', wr + of_nat (min (ref_total ws) (length resp - c)), st) \<and>
    bytes_of m' ws = take (ref_total ws) (drop c resp) @ drop (length resp - c) (bytes_of m ws)"
  using assms
proof (induction ws arbitrary: m c wr)
  case Nil
  then show ?case by (simp add: bytes_of_def)
next
  case (Cons b ws)
  obtain addr len where b: "b = (addr, len)" by (cases b)
  let ?L = "unat len" and ?rest = "drop c resp"
  define n where "n = min ?L (length resp - c)"
  let ?p = "window c n resp"
  have p: "?p = take ?L ?rest" "length ?p = n"
    by (simp_all add: window_def n_def min_def)
  have bin: "in_mem m (fst b) (unat (snd b))" and ws: "refs_in m ws" "refs_disjoint ws"
    using Cons.prems by (simp_all add: refs_in_def)
  show ?case
  proof (cases "length resp = c")
    case True
    then show ?thesis using b by simp
  next
    case False
    then have lt: "\<not> length resp \<le> c" using Cons.prems(5) by simp
    obtain m1 where m1: "write_slice m (fst b) ?p = Inr m1" "same_off (ref_bytes b) m m1"
        "read_part m1 b = ?p @ drop n (read_part m b)"
      using write_piece [OF Cons.prems(1) bin, of ?p] p(2) by (metis b min.cobounded1 n_def snd_conv)
    have wf1: "mem_wf m1" using Cons.prems(1) same_off_wf [OF m1(2)] by simp
    have "n < 4294967296"
      unfolding n_def by (rule le_less_trans [OF min.cobounded1 unat_u32_lt])
    then have w: "unat (wr + of_nat n) + ref_total ws < 2 ^ 32"
      using Cons.prems(4) b by (simp add: unat_add_small unat_of_nat_u32 n_def)
    have cn: "c + n \<le> length resp"
      using Cons.prems(5) by (simp add: n_def)
    obtain m' where m': "scatter m1 head ws resp (c + n) (wr + of_nat n) st =
        (m', wr + of_nat n + of_nat (min (ref_total ws) (length resp - (c + n))), st)"
        "bytes_of m' ws = take (ref_total ws) (drop (c + n) resp) @
          drop (length resp - (c + n)) (bytes_of m1 ws)"
      using Cons.IH [OF wf1 _ ws(2) w cn] refs_in_same_off [OF m1(2)] ws(1) by auto
    have dis: "ref_bytes b \<inter> refs_bytes ws = {}" using Cons.prems(3) by simp
    have "bytes_of m1 ws = bytes_of m ws"
      using bytes_of_frame [OF Cons.prems(1) m1(2)] dis by (simp add: Int_commute)
    moreover have "read_part m' b = read_part m1 b"
      using read_part_frame [OF wf1 scatter_off [OF wf1 m'(1)] dis] .
    moreover have lb: "length (read_part m b) = ?L"
      using bin b by (simp add: read_part_in Cons.prems(1) length_window in_mem_def)
    ultimately have "bytes_of m' (b # ws) = ?p @ drop (length ?p) (read_part m b) @
        take (ref_total ws) (drop (length ?p) ?rest) @ drop (length ?rest - length ?p) (bytes_of m ws)"
      using m1(3) m'(2) p(2) by (simp add: bytes_of_def add.commute)
    also have "\<dots> = take (length (read_part m b) + ref_total ws) ?rest @
        drop (length ?rest) (read_part m b @ bytes_of m ws)"
      by (rule overlay) (use p lb in \<open>auto simp: n_def\<close>)
    finally have "bytes_of m' (b # ws) = take (ref_total (b # ws)) ?rest @
        drop (length resp - c) (bytes_of m (b # ws))"
      using lb b by (simp add: bytes_of_def)
    moreover have "scatter m head (b # ws) resp c wr st =
        (m', wr + of_nat (min (ref_total (b # ws)) (length resp - c)), st)"
    proof -
      have "n + min (ref_total ws) (length resp - (c + n)) = min (ref_total (b # ws)) (length resp - c)"
        using b by (simp add: n_def)
      then show ?thesis
        using m1(1) m'(1) lt b
        by (simp add: Let_def n_def [symmetric]) (metis add.assoc of_nat_add)
    qed
    ultimately show ?thesis by blast
  qed
qed

section \<open>One pass of the processing loop\<close>

lemma serve_chain_rejects:
  assumes "queue_in (dev_layout d) m" "chain_walk m (dev_layout d) h = Inl e"
  shows "\<exists>k. serve_chain work h d m w st =
    (Ok (), d\<lparr>next_used := next_used d + 1, num_added := num_added d + 1\<rparr>, completed d m h 0, w,
     st\<lparr>st_descriptors := st_descriptors st + k, st_rejected := st_rejected st @ [(h, RejectChain e)],
       st_chains := st_chains st + 1\<rparr>)"
proof -
  obtain ds rest where "chain_items (chain d m h) = map Inr ds @ Inl e # rest"
    using walk_result_Inl assms(2) unfolding chain_walk_def chain_def by blast
  then show ?thesis
    by (auto simp: serve_chain_def collect_chain_error Let_def add_used_eq [OF assms(1)] reject_def)
qed

lemma serve_chain_accepts:
  fixes st :: ProcessStats
  assumes "queue_in (dev_layout d) m" "chain_walk m (dev_layout d) h = Inr ds"
  defines "request \<equiv> bytes_of m (readable_refs ds)"
  defines "st1 \<equiv> st\<lparr>st_descriptors := st_descriptors st + of_nat (length ds),
      st_rejected := st_rejected st @ concat (map (read_errors m h) (readable_refs ds)),
      st_bytes_read := st_bytes_read st + of_nat (length request)\<rparr>"
  assumes "work w request = (response, w')"
    and "scatter m h (writable_refs ds) response 0 0 st1 = (m1, written, st2)"
  shows "serve_chain work h d m w st =
    (Ok (), d\<lparr>next_used := next_used d + 1, num_added := num_added d + 1\<rparr>, completed d m1 h written, w',
     st2\<lparr>st_bytes_written := st_bytes_written st2 + ucast written, st_chains := st_chains st2 + 1\<rparr>)"
proof -
  have "chain_items (chain d m h) = map Inr ds"
    using walk_result_Inr assms(2) unfolding chain_walk_def chain_def by blast
  moreover have "queue_in (dev_layout d) m1"
    using queue_in_same_off [OF scatter_off [OF queue_inD(2) [OF assms(1)] assms(6)]] assms(1) by simp
  ultimately show ?thesis
    using assms(5,6)
    by (simp add: serve_chain_def collect_chain_complete gather_eq bytes_of_def request_def st1_def
        add_used_eq)
qed

text \<open>The bytes of the guest's memory that serving a chain may change, apart from the used ring.\<close>

definition writes :: "SharedMem \<Rightarrow> VirtqLayout \<Rightarrow> u16 \<Rightarrow> nat set" where
  "writes m l h =
     (case chain_walk m l h of Inl e \<Rightarrow> {} | Inr ds \<Rightarrow> refs_bytes (writable_refs ds))"

lemma serve_chain_step:
  assumes "queue_in (dev_layout d) m"
  obtains m1 len w' st' where
    "serve_chain work h d m w st =
      (Ok (), d\<lparr>next_used := next_used d + 1, num_added := num_added d + 1\<rparr>, completed d m1 h len, w', st')"
    "same_off (writes m (dev_layout d) h) m m1" "queue_in (dev_layout d) m1"
proof (cases "chain_walk m (dev_layout d) h")
  case (Inl e)
  then show ?thesis
    using serve_chain_rejects [OF assms Inl, of work w st] that assms
    by (auto simp: writes_def)
next
  case (Inr ds)
  let ?req = "bytes_of m (readable_refs ds)"
  let ?st1 = "st\<lparr>st_descriptors := st_descriptors st + of_nat (length ds),
      st_rejected := st_rejected st @ concat (map (read_errors m h) (readable_refs ds)),
      st_bytes_read := st_bytes_read st + of_nat (length ?req)\<rparr>"
  obtain response w' where work: "work w ?req = (response, w')" by fastforce
  obtain m1 written st2 where sc: "scatter m h (writable_refs ds) response 0 0 ?st1 = (m1, written, st2)"
    using prod_cases3 by blast
  have off: "same_off (refs_bytes (writable_refs ds)) m m1"
    by (rule scatter_off [OF queue_inD(2) [OF assms] sc])
  show ?thesis
    using serve_chain_accepts [where st = st and work = work, OF assms Inr work sc] that off queue_in_same_off [OF off] assms Inr
    by (simp add: writes_def)
qed

lemma serve_chain_frame:
  assumes "queue_in (dev_layout d) m" "serve_chain work h d m w st = (r, d', m', w', st')"
  shows "r = Ok ()" "d' = d\<lparr>next_used := next_used d + 1, num_added := num_added d + 1\<rparr>"
    "same_off (writes m (dev_layout d) h \<union> used_slot_bytes (dev_layout d) (next_used d) \<union>
      bytes_at (used_idx (dev_layout d)) 2) m m'"
    "queue_in (dev_layout d) m'" "used_count (dev_layout d) m' = next_used d + 1"
proof -
  obtain m1 len w1 st1 where s:
    "serve_chain work h d m w st =
      (Ok (), d\<lparr>next_used := next_used d + 1, num_added := num_added d + 1\<rparr>, completed d m1 h len, w1, st1)"
    "same_off (writes m (dev_layout d) h) m m1" "queue_in (dev_layout d) m1"
    by (rule serve_chain_step [OF assms(1)])
  then have m': "m' = completed d m1 h len" using assms(2) by simp
  show "r = Ok ()" "d' = d\<lparr>next_used := next_used d + 1, num_added := num_added d + 1\<rparr>"
    using assms(2) s(1) by simp_all
  show "queue_in (dev_layout d) m'" "used_count (dev_layout d) m' = next_used d + 1"
    using completed_facts [OF s(3)] m' by simp_all
  show "same_off (writes m (dev_layout d) h \<union> used_slot_bytes (dev_layout d) (next_used d) \<union>
      bytes_at (used_idx (dev_layout d)) 2) m m'"
    using same_off_trans [OF s(2) completed_facts(1) [OF s(3)]] m' by (simp add: Un_assoc)
qed

section \<open>The loop on a guest that leaves the queue alone\<close>

definition pending :: "Device \<Rightarrow> SharedMem \<Rightarrow> u16 list" where
  "pending d m = avail_queue.contents (dev_layout d) m (next_avail d) (avail_count (dev_layout d) m)"

definition quiet :: "Device \<Rightarrow> SharedMem \<Rightarrow> bool" where
  "quiet d m \<longleftrightarrow> list_all (\<lambda>h. writes m (dev_layout d) h \<inter> queue_area (dev_layout d) = {}) (pending d m)"

lemma pending_Nil_iff: "pending d m = [] \<longleftrightarrow> avail_count (dev_layout d) m = next_avail d"
  by (auto simp: pending_def avail_queue.contents_Nil_iff)

lemma pending_pop:
  assumes "queue_in (dev_layout d) m" "pending d m = h # hs"
  shows "pop_chain_head d m = (Ok (Some h), d\<lparr>next_avail := next_avail d + 1\<rparr>)"
    "pending (d\<lparr>next_avail := next_avail d + 1\<rparr>) m = hs"
proof -
  have ne: "avail_count (dev_layout d) m \<noteq> next_avail d"
    using assms(2) pending_Nil_iff by force
  then have "h = avail_load (dev_layout d) m (next_avail d)" "pending (d\<lparr>next_avail := next_avail d + 1\<rparr>) m = hs"
    using assms(2) avail_queue.contents_pop [OF ne] by (simp_all add: pending_def)
  then show "pop_chain_head d m = (Ok (Some h), d\<lparr>next_avail := next_avail d + 1\<rparr>)"
    "pending (d\<lparr>next_avail := next_avail d + 1\<rparr>) m = hs"
    using ne by (simp_all add: pop_chain_head_eq [OF assms(1)])
qed

lemma pending_frame:
  assumes "queue_in (dev_layout d) m" "same_off S m m'" "avail_area (dev_layout d) \<inter> S = {}"
    "dev_layout d' = dev_layout d" "next_avail d' = next_avail d"
  shows "pending d' m' = pending d m"
proof -
  note sub = slot_bytes_in_areas [OF queue_inD(1) [OF assms(1)]]
  have "avail_count (dev_layout d) m' = avail_count (dev_layout d) m"
    using sub(3) assms(3) by (intro get_u16_frame [OF queue_inD(2) [OF assms(1)] assms(2)]) blast
  moreover have "avail_load (dev_layout d) m' i = avail_load (dev_layout d) m i" for i
    using sub(1) [of i] assms(3) by (intro avail_load_frame [OF assms(1,2)]) blast
  ultimately show ?thesis
    by (simp add: pending_def assms(4,5) avail_queue.contents_def)
qed

lemma process_empty:
  assumes "queue_in (dev_layout d) m" "pending d m = []"
  shows "process work d m w st = Some (Ok st, d, m, w)"
  using assms by (simp add: process.simps pop_chain_head_eq pending_Nil_iff)

lemma process_Cons:
  assumes "queue_in (dev_layout d) m" "pending d m = h # hs"
    and "serve_chain work h (d\<lparr>next_avail := next_avail d + 1\<rparr>) m w st = (Ok (), d', m', w', st')"
  shows "process work d m w st = process work d' m' w' st'"
  using assms(3) pending_pop [OF assms(1,2)] by (simp add: process.simps [of work d m w st])

text \<open>
  On such a guest the loop ends: it serves exactly the pending chains, in their order, and each
  gets one completion in the used ring.
\<close>

definition drained :: "Device \<Rightarrow> SharedMem \<Rightarrow> Device" where
  "drained d m =
     (let n = of_nat (length (pending d m))
      in d\<lparr>next_avail := next_avail d + n, next_used := next_used d + n, num_added := num_added d + n\<rparr>)"

lemma quiet_step:
  assumes "queue_in (dev_layout d) m" "pending d m = h # hs" "quiet d m"
    and "same_off (writes m (dev_layout d) h \<union> used_area (dev_layout d)) m m'"
    and "dev_layout d' = dev_layout d" "next_avail d' = next_avail d + 1"
  shows "pending d' m' = hs" "quiet d' m'"
    "h' \<in> set hs \<Longrightarrow> writes m' (dev_layout d) h' = writes m (dev_layout d) h'"
    "avail_count (dev_layout d) m' = avail_count (dev_layout d) m"
proof -
  let ?l = "dev_layout d" and ?S = "writes m (dev_layout d) h \<union> used_area (dev_layout d)"
  let ?d1 = "d\<lparr>next_avail := next_avail d + 1\<rparr>"
  have "writes m ?l h \<inter> queue_area ?l = {}"
    using assms(2,3) by (simp add: quiet_def)
  then have dis: "avail_area ?l \<inter> ?S = {}" "desc_area ?l \<inter> ?S = {}"
    using areas_disjoint [OF queue_inD(1) [OF assms(1)]] by blast+
  show p: "pending d' m' = hs"
    using pending_frame [of ?d1 m ?S m' d'] pending_pop(2) [OF assms(1,2)] assms dis by simp
  have same: "writes m' ?l h' = writes m ?l h'" for h'
    using chain_walk_frame [OF assms(1,4) dis(2)] by (simp add: writes_def)
  then show "h' \<in> set hs \<Longrightarrow> writes m' ?l h' = writes m ?l h'" by simp
  show "quiet d' m'"
    using assms(2,3,5) by (simp add: quiet_def p same)
  show "avail_count ?l m' = avail_count ?l m"
    using dis(1) slot_bytes_in_areas(3) [OF queue_inD(1) [OF assms(1)]]
    by (intro get_u16_frame [OF queue_inD(2) [OF assms(1)] assms(4)]) blast
qed

definition all_writes :: "SharedMem \<Rightarrow> VirtqLayout \<Rightarrow> u16 list \<Rightarrow> nat set" where
  "all_writes m l hs = (\<Union>h \<in> set hs. writes m l h)"

lemma process_quiet:
  assumes "queue_in (dev_layout d) m" "quiet d m"
  shows "\<exists>st' m' w' lens.
    process work d m w st = Some (Ok st', drained d m, m', w') \<and>
    length lens = length (pending d m) \<and>
    same_off (all_writes m (dev_layout d) (pending d m) \<union> used_area (dev_layout d)) m m' \<and>
    (pending d m \<noteq> [] \<longrightarrow> used_count (dev_layout d) m' = next_used (drained d m)) \<and>
    (\<forall>u0. unat (next_used d - u0) + length (pending d m) \<le> qn (dev_layout d) \<longrightarrow>
      used_queue.contents (dev_layout d) m' u0 (next_used (drained d m)) =
        used_queue.contents (dev_layout d) m u0 (next_used d) @ zip (map ucast (pending d m)) lens)"
  using assms
proof (induction "pending d m" arbitrary: d m w st)
  case Nil
  then show ?case
    using process_empty [OF Nil.prems(1), of work w st]
    by (simp add: drained_def all_writes_def)
next
  case (Cons h hs)
  let ?l = "dev_layout d" and ?d1 = "d\<lparr>next_avail := next_avail d + 1\<rparr>"
  let ?d2 = "?d1\<lparr>next_used := next_used d + 1, num_added := num_added d + 1\<rparr>"
  note q = Cons.prems(1) and p = Cons.hyps(2) [symmetric]
  obtain m1 len w1 st1 where s: "serve_chain work h ?d1 m w st = (Ok (), ?d2, completed ?d1 m1 h len, w1, st1)"
      "same_off (writes m ?l h) m m1" "queue_in ?l m1"
    by (rule serve_chain_step [of ?d1 m work h w st]) (use q in simp_all)
  let ?m2 = "completed ?d1 m1 h len"
  have off: "same_off (writes m ?l h \<union> used_area ?l) m ?m2"
    using same_off_trans [OF s(2) completed_in_used_area [of ?d1 m1 h len]] s(3) by simp
  have q2: "queue_in ?l ?m2"
    using q queue_in_same_off [OF off] by simp
  note step = quiet_step [OF q p Cons.prems(2) off, of ?d2]
  have p2: "pending ?d2 ?m2 = hs" by (rule step) simp_all
  have quiet2: "quiet ?d2 ?m2" by (rule step) simp_all
  have dr: "drained ?d2 ?m2 = drained d m"
    unfolding drained_def p p2 by (simp add: Let_def algebra_simps)
  obtain st' m' w' lens where ih: "process work ?d2 ?m2 w1 st1 = Some (Ok st', drained d m, m', w')"
      "length lens = length hs" "same_off (all_writes ?m2 ?l hs \<union> used_area ?l) ?m2 m'"
      "hs \<noteq> [] \<longrightarrow> used_count ?l m' = next_used (drained d m)"
      "\<forall>u0. unat (next_used d + 1 - u0) + length hs \<le> qn ?l \<longrightarrow>
        used_queue.contents ?l m' u0 (next_used (drained d m)) =
        used_queue.contents ?l ?m2 u0 (next_used d + 1) @ zip (map ucast hs) lens"
    using Cons.hyps(1) [OF p2 [symmetric], of w1 st1] q2 quiet2 by (auto simp: p2 dr)
  have aw: "all_writes ?m2 ?l hs = all_writes m ?l hs"
    unfolding all_writes_def by (intro SUP_cong refl step(3)) simp_all
  have run: "process work d m w st = Some (Ok st', drained d m, m', w')"
    using process_Cons [OF q p s(1)] ih(1) by simp
  have frame: "same_off (all_writes m ?l (h # hs) \<union> used_area ?l) m m'"
    by (rule same_off_mono [OF same_off_trans [OF off ih(3)]]) (auto simp: aw, auto simp: all_writes_def)
  have cnt: "used_count ?l m' = next_used (drained d m)"
  proof (cases hs)
    case Nil
    then have "m' = ?m2"
      using process_empty [of ?d2 ?m2 work w1 st1] q2 p2 ih(1) by simp
    then show ?thesis
      using completed_facts(3) [of ?d1 m1 h len] s(3) Nil p by (simp add: drained_def Let_def)
  qed (use ih(4) in simp)
  have cont: "used_queue.contents ?l m' u0 (next_used (drained d m)) =
      used_queue.contents ?l m u0 (next_used d) @ zip (map ucast (h # hs)) (len # lens)"
    if "unat (next_used d - u0) + length (h # hs) \<le> qn ?l" for u0
  proof -
    have c: "qn ?l \<le> 32768" using layout_wf_bounds [OF queue_inD(1) [OF q]] by simp
    have "unat (next_used d + 1 - u0) = Suc (unat (next_used d - u0))"
      using that c by (intro unat_diff_add_one) simp
    then have "used_queue.contents ?l m' u0 (next_used (drained d m)) =
        used_queue.contents ?l ?m2 u0 (next_used d + 1) @ zip (map ucast hs) lens"
      using ih(5) that by simp
    also have "used_queue.contents ?l ?m2 u0 (next_used d + 1) =
        used_queue.contents ?l m1 u0 (next_used d) @ [(ucast h, len)]"
      using completed_contents [of ?d1 m1 u0 h len] s(3) that by simp
    also have "used_queue.contents ?l m1 u0 (next_used d) = used_queue.contents ?l m u0 (next_used d)"
    proof (rule used_queue.contents_cong)
      fix k
      have "used_slot_bytes ?l (u0 + of_nat k) \<inter> writes m ?l h = {}"
        using Cons.prems(2) p slot_bytes_in_areas(2) [OF queue_inD(1) [OF q]]
          areas_disjoint(4) [OF queue_inD(1) [OF q]] by (fastforce simp: quiet_def)
      then show "used_load ?l m1 (u0 + of_nat k) = used_load ?l m (u0 + of_nat k)"
        by (rule used_load_frame [OF q s(2)])
    qed
    finally show ?thesis by simp
  qed
  show ?case
    unfolding p by (intro exI [of _ st'] exI [of _ m'] exI [of _ w'] exI [of _ "len # lens"] conjI)
      (use run frame cnt cont ih(2) in auto)
qed

end
