(* ===== verification/VqDriver.thy ===== *)
theory VqDriver
  imports VqChain
begin

text \<open>
  The driver half of a virtqueue, \<^verbatim>\<open>rung-02-virtio/toy-virtq-raw/src/driver.rs\<close>: the bump allocator,
  the free list of descriptors, publishing a chain, the kick decision and collecting completions.

  \<^verbatim>\<open>free_descs\<close> is a vector whose end is popped, so it is a list whose last element goes first;
  \<^verbatim>\<open>outstanding\<close> is a finite map from the head of a chain to its descriptors. The assertions of
  \<^verbatim>\<open>add_chain\<close> are \<open>Panic\<close>; its errors leave the driver where \<^verbatim>\<open>?\<close> leaves it.

  The invariant \<open>driver_inv\<close> is that the free list and the outstanding chains partition the
  descriptor table.
\<close>

unbundle bit_operations_syntax

section \<open>The driver\<close>

record Buffer =
  b_addr :: GuestAddr
  b_len :: u32
  b_writable :: bool

record Driver =
  drv_layout :: VirtqLayout
  drv_avail_idx :: u16
  last_kick :: u16
  last_used :: u16
  free_descs :: "u16 list"
  outstanding :: "u16 \<rightharpoonup> u16 list"
  arena :: u64
  arena_end :: u64
  drv_event_idx :: bool

datatype DriverError = OutOfDescriptors | DriverMem MemError

text \<open>\<^verbatim>\<open>u64::next_multiple_of\<close> of the standard library.\<close>

definition next_multiple_of :: "u64 \<Rightarrow> u64 \<Rightarrow> u64" where
  "next_multiple_of v a = (if v mod a = 0 then v else v + (a - v mod a))"

definition driver_new :: "VirtqLayout \<Rightarrow> u64 \<Rightarrow> bool \<Rightarrow> Driver" where
  "driver_new l arena_lim ev =
     \<lparr>drv_layout = l, drv_avail_idx = 0, last_kick = 0, last_used = 0,
      free_descs = rev (map word_of_nat [0..<unat (queue_size l)]), outstanding = Map.empty,
      arena = next_multiple_of (layout_end l) 16, arena_end = arena_lim, drv_event_idx = ev\<rparr>"

definition free_descriptors :: "Driver \<Rightarrow> nat" where
  "free_descriptors d = length (free_descs d)"

section \<open>Buffers\<close>

definition alloc_uninit :: "Driver \<Rightarrow> u32 \<Rightarrow> GuestAddr option \<times> Driver" where
  "alloc_uninit d len =
     (case checked_add (arena d) (ucast len) of
        None \<Rightarrow> (None, d)
      | Some end_addr \<Rightarrow>
          if arena_end d < end_addr then (None, d)
          else (Some (arena d), d\<lparr>arena := next_multiple_of end_addr 8\<rparr>))"

definition alloc :: "Driver \<Rightarrow> SharedMem \<Rightarrow> u8 list \<Rightarrow> GuestAddr option \<times> Driver \<times> SharedMem" where
  "alloc d m data =
     (case alloc_uninit d (word_of_nat (length data)) of
        (None, d') \<Rightarrow> (None, d', m)
      | (Some addr, d') \<Rightarrow>
          (case write_slice m addr data of
             Inl e \<Rightarrow> (None, d', m)
           | Inr m' \<Rightarrow> (Some addr, d', m')))"

section \<open>Publishing a chain\<close>

fun readable_precede :: "Buffer list \<Rightarrow> bool" where
  "readable_precede (b # b' # bs) \<longleftrightarrow>
     (\<not> b_writable b \<or> b_writable b') \<and> readable_precede (b' # bs)"
| "readable_precede _ \<longleftrightarrow> True"

text \<open>\<open>n\<close> times \<^verbatim>\<open>free_descs.pop().unwrap()\<close>: the indices in the order popped, and what is left.\<close>

fun pop_descs :: "nat \<Rightarrow> u16 list \<Rightarrow> (u16 list \<times> u16 list) option" where
  "pop_descs 0 fr = Some ([], fr)"
| "pop_descs (Suc n) fr =
     (if fr = [] then None
      else case pop_descs n (butlast fr) of
        None \<Rightarrow> None
      | Some (indices, rest) \<Rightarrow> Some (last fr # indices, rest))"

definition buffer_flags :: "Buffer \<Rightarrow> bool \<Rightarrow> u16" where
  "buffer_flags b is_last =
     (let f1 = (if b_writable b then 0 OR VIRTQ_DESC_F_WRITE else 0)
      in if \<not> is_last then f1 OR VIRTQ_DESC_F_NEXT else f1)"

text \<open>The four stores that write one descriptor at an address of the table.\<close>

definition store_descriptor :: "SharedMem \<Rightarrow> GuestAddr \<Rightarrow> Descriptor \<Rightarrow> (MemError, unit) outcome \<times> SharedMem" where
  "store_descriptor m at d =
     (case write_slice m at (le_bytes 8 (d_addr d)) of Inl e \<Rightarrow> (Err e, m) | Inr m1 \<Rightarrow>
     (case write_u32 m1 (at + 8) (d_len d) of Inl e \<Rightarrow> (Err e, m1) | Inr m2 \<Rightarrow>
     (case write_u16 m2 (at + 12) (d_flags d) of Inl e \<Rightarrow> (Err e, m2) | Inr m3 \<Rightarrow>
     (case write_u16 m3 (at + 14) (d_next d) of Inl e \<Rightarrow> (Err e, m3) | Inr m4 \<Rightarrow> (Ok (), m4)))))"

text \<open>The loop over the buffers, each with its index: a buffer that is not the last names the next one's.\<close>

definition buffer_descriptor :: "Buffer \<Rightarrow> (u16 \<times> Buffer) list \<Rightarrow> Descriptor" where
  "buffer_descriptor b rest =
     \<lparr>d_addr = b_addr b, d_len = b_len b, d_flags = buffer_flags b (rest = []),
      d_next = (if rest = [] then 0 else fst (hd rest))\<rparr>"

fun write_chain :: "VirtqLayout \<Rightarrow> SharedMem \<Rightarrow> (u16 \<times> Buffer) list \<Rightarrow> (MemError, unit) outcome \<times> SharedMem" where
  "write_chain l m [] = (Ok (), m)"
| "write_chain l m ((idx, b) # rest) =
     (case desc l idx of
        None \<Rightarrow> (Panic, m)
      | Some at \<Rightarrow>
          (case store_descriptor m at (buffer_descriptor b rest) of
             (Ok _, m') \<Rightarrow> write_chain l m' rest
           | (r, m') \<Rightarrow> (r, m')))"

definition add_chain :: "Driver \<Rightarrow> SharedMem \<Rightarrow> Buffer list
    \<Rightarrow> (DriverError, u16) outcome \<times> Driver \<times> SharedMem" where
  "add_chain d m buffers =
     (if buffers = [] then (Panic, d, m)
      else if length (free_descs d) < length buffers then (Err OutOfDescriptors, d, m)
      else if \<not> readable_precede buffers then (Panic, d, m)
      else case pop_descs (length buffers) (free_descs d) of
        None \<Rightarrow> (Panic, d, m)
      | Some (indices, fr) \<Rightarrow>
        let head = hd indices;
            d1 = d\<lparr>free_descs := fr, outstanding := (outstanding d)(head \<mapsto> indices)\<rparr>
        in case write_chain (drv_layout d1) m (zip indices buffers) of
          (Panic, m1) \<Rightarrow> (Panic, d1, m1)
        | (Err e, m1) \<Rightarrow> (Err (DriverMem e), d1, m1)
        | (Ok _, m1) \<Rightarrow>
          (case avail_slot (drv_layout d1) (drv_avail_idx d1) of
            None \<Rightarrow> (Panic, d1, m1)
          | Some slot \<Rightarrow>
            (case write_u16 m1 slot head of
              Inl e \<Rightarrow> (Err (DriverMem e), d1, m1)
            | Inr m2 \<Rightarrow>
              let d2 = d1\<lparr>drv_avail_idx := drv_avail_idx d1 + 1\<rparr>
              in case store_idx_release m2 (avail_idx (drv_layout d2)) (drv_avail_idx d2) of
                Inl e \<Rightarrow> (Err (DriverMem e), d2, m2)
              | Inr m3 \<Rightarrow> (Ok head, d2, m3))))"

section \<open>Notifications and completions\<close>

definition needs_kick :: "Driver \<Rightarrow> SharedMem \<Rightarrow> (MemError + bool) \<times> Driver" where
  "needs_kick d m =
     (let new = drv_avail_idx d;
          old = last_kick d;
          d' = d\<lparr>last_kick := new\<rparr>
      in if \<not> drv_event_idx d' then (Inr True, d')
         else case load_relaxed m (avail_event (drv_layout d')) of
           Inl e \<Rightarrow> (Inl e, d')
         | Inr ev \<Rightarrow> (Inr (need_event ev new old), d'))"

definition arm_used_event :: "Driver \<Rightarrow> SharedMem \<Rightarrow> MemError + SharedMem" where
  "arm_used_event d m = write_u16 m (used_event (drv_layout d)) (last_used d)"

text \<open>One completion: its descriptors go back to the free list, when the head is outstanding.\<close>

definition release :: "Driver \<Rightarrow> u16 \<Rightarrow> Driver" where
  "release d cid =
     (case outstanding d cid of
        None \<Rightarrow> d
      | Some descs \<Rightarrow>
          d\<lparr>outstanding := (outstanding d)(cid := None), free_descs := free_descs d @ descs\<rparr>)"

lemma release_last_used [simp]: "last_used (release d cid) = last_used d"
  by (simp add: release_def split: option.split)

function collect_loop :: "u16 \<Rightarrow> Driver \<Rightarrow> SharedMem \<Rightarrow> (u16 \<times> u32) list
    \<Rightarrow> (MemError, (u16 \<times> u32) list) outcome \<times> Driver" where
  "collect_loop used d m out =
     (if last_used d = used then (Ok out, d)
      else case used_slot (drv_layout d) (last_used d) of
        None \<Rightarrow> (Panic, d)
      | Some (id_addr, len_addr) \<Rightarrow>
        (case read_u32 m id_addr of
           Inl e \<Rightarrow> (Err e, d)
         | Inr x \<Rightarrow>
           let cid = ucast x in
           (case read_u32 m len_addr of
              Inl e \<Rightarrow> (Err e, d)
            | Inr len \<Rightarrow>
              let d' = release d cid
              in collect_loop used (d'\<lparr>last_used := last_used d' + 1\<rparr>) m (out @ [(cid, len)]))))"
  by pat_completeness auto

termination
proof (relation "measure (\<lambda>(used, d, m, out). unat (used - last_used d))", goal_cases)
  case 1
  then show ?case by simp
next
  case (2 used d)
  then have "used \<noteq> last_used d" by simp
  from unat_diff_drop_one [OF this] 2(5-) show ?case by simp
qed

declare collect_loop.simps [simp del]

definition collect_used :: "Driver \<Rightarrow> SharedMem \<Rightarrow> (MemError, (u16 \<times> u32) list) outcome \<times> Driver" where
  "collect_used d m =
     (case load_idx_acquire m (used_idx (drv_layout d)) of
        Inl e \<Rightarrow> (Err e, d)
      | Inr used \<Rightarrow> collect_loop used d m [])"

section \<open>Writing a chain\<close>

lemma u64_of_blit:
  "mem_wf m \<Longrightarrow> write_slice m a (le_bytes 8 (v :: u64)) = Inr m' \<Longrightarrow> read_u64 m' a = Inr v"
proof -
  assume wf: "mem_wf m" and wr: "write_slice m a (le_bytes 8 v) = Inr m'"
  have off: "same_off (bytes_at a 8) m m'"
    using write_slice_same_off [OF wf _ wr] by simp
  have "m' = m\<lparr>buf := blit (unat a) (le_bytes 8 v) (buf m)\<rparr>" "in_mem m a 8"
    using wr wf by (simp_all add: write_slice_eq split: if_splits)
  then show ?thesis
    using wf off by (simp add: read_u64_eq same_off_wf same_off_in_mem window_blit_same length_blit in_mem_def)
qed

lemma store_descriptor_ok:
  assumes "queue_in l m" "desc l i = Some a"
  obtains m' where "store_descriptor m a d = (Ok (), m')" "same_off (desc_bytes l i) m m'"
    "table m' l i = Some d"
proof -
  note q = queue_inD [OF assms(1)] and f = desc_fields [OF assms]
  have len: "length (le_bytes 8 (d_addr d)) < 2 ^ 64" by simp
  obtain m1 where m1: "write_slice m a (le_bytes 8 (d_addr d)) = Inr m1"
    using f(1) q(2) by (simp add: write_slice_eq)
  have o1: "same_off (bytes_at a 8) m m1"
    using write_slice_same_off [OF q(2) len m1] by simp
  have w1: "mem_wf m1" using q(2) same_off_wf [OF o1] by simp
  obtain m2 where m2: "write_u32 m1 (a + 8) (d_len d) = Inr m2"
    using u32_cell.wr_some [OF w1] f(2) same_off_in_mem [OF o1] by metis
  note o2 = u32_cell.wr_frame [OF w1 m2] and w2 = u32_cell.wr_wf [OF w1 m2]
  obtain m3 where m3: "write_u16 m2 (a + 12) (d_flags d) = Inr m3"
    using u16_cell.wr_some [OF w2] f(3) same_off_in_mem [OF o1] same_off_in_mem [OF o2] by metis
  note o3 = u16_cell.wr_frame [OF w2 m3] and w3 = u16_cell.wr_wf [OF w2 m3]
  obtain m4 where m4: "write_u16 m3 (a + 14) (d_next d) = Inr m4"
    using u16_cell.wr_some [OF w3] f(4) same_off_in_mem [OF o1] same_off_in_mem [OF o2]
      same_off_in_mem [OF o3] by metis
  note o4 = u16_cell.wr_frame [OF w3 m4]
  have off: "same_off (desc_bytes l i) m m4"
    by (rule same_off_mono [OF same_off_trans [OF same_off_trans [OF same_off_trans [OF o1 o2] o3] o4]])
       (use f(5) in blast)
  have "read_u64 m4 a = read_u64 m1 a"
    using read_u64_frame [OF w1 o2] read_u64_frame [OF w2 o3] read_u64_frame [OF w3 o4] f(6-8) by simp
  moreover have "read_u32 m4 (a + 8) = read_u32 m2 (a + 8)"
    using u32_cell.rd_frame [OF w2 o3] u32_cell.rd_frame [OF w3 o4] f(9,10) by simp
  moreover have "read_u16 m4 (a + 12) = read_u16 m3 (a + 12)"
    using u16_cell.rd_frame [OF w3 o4] f(11) by simp
  ultimately have "read_descriptor m4 a = Inr d"
    using u64_of_blit [OF q(2) m1] u32_cell.rd_wr [OF w1 m2] u16_cell.rd_wr [OF w2 m3]
      u16_cell.rd_wr [OF w3 m4] by (simp add: read_descriptor_def)
  then have "table m4 l i = Some d"
    using assms(2) by (simp add: table_def)
  moreover have "store_descriptor m a d = (Ok (), m4)"
    by (simp add: store_descriptor_def m1 m2 m3 m4)
  ultimately show ?thesis using that off by blast
qed

text \<open>The descriptors a chain consists of, and that the table holds them.\<close>

fun chain_descs :: "(u16 \<times> Buffer) list \<Rightarrow> Descriptor list" where
  "chain_descs [] = []"
| "chain_descs ((i, b) # rest) = buffer_descriptor b rest # chain_descs rest"

fun stored :: "SharedMem \<Rightarrow> VirtqLayout \<Rightarrow> (u16 \<times> Buffer) list \<Rightarrow> bool" where
  "stored m l [] \<longleftrightarrow> True"
| "stored m l ((i, b) # rest) \<longleftrightarrow> table m l i = Some (buffer_descriptor b rest) \<and> stored m l rest"

definition descs_bytes :: "VirtqLayout \<Rightarrow> u16 list \<Rightarrow> nat set" where
  "descs_bytes l is = (\<Union>i \<in> set is. desc_bytes l i)"

lemma descs_bytes_simps [simp]:
  "descs_bytes l [] = {}" "descs_bytes l (i # is) = desc_bytes l i \<union> descs_bytes l is"
  by (simp_all add: descs_bytes_def)

lemma descs_bytes_in_area: "list_all (\<lambda>i. unat i < qn l) is \<Longrightarrow> descs_bytes l is \<subseteq> desc_area l"
  using desc_bytes_in_area by (fastforce simp: descs_bytes_def list_all_iff)

lemma descs_bytes_disjoint: "set is \<inter> set js = {} \<Longrightarrow> descs_bytes l is \<inter> descs_bytes l js = {}"
  by (auto simp: descs_bytes_def) (metis desc_bytes_disjoint disjoint_iff)

lemma stored_frame:
  "queue_in l m \<Longrightarrow> same_off S m m' \<Longrightarrow> descs_bytes l (map fst ps) \<inter> S = {} \<Longrightarrow> stored m' l ps = stored m l ps"
proof (induction ps)
  case (Cons p ps)
  then show ?case
    using table_frame [OF Cons.prems(1,2), of "fst p"] by (cases p) (simp add: Int_Un_distrib2)
qed simp

lemma write_chain_ok:
  assumes "queue_in l m" "distinct (map fst ps)" "list_all (\<lambda>i. unat i < qn l) (map fst ps)"
  shows "\<exists>m'. write_chain l m ps = (Ok (), m') \<and> same_off (descs_bytes l (map fst ps)) m m' \<and> stored m' l ps"
  using assms
proof (induction ps arbitrary: m)
  case Nil
  then show ?case by simp
next
  case (Cons p ps)
  obtain i b where p: "p = (i, b)" by (cases p)
  have "\<exists>a. desc l i = Some a"
    using Cons.prems(3) p by (simp add: desc_def word_le_nat_alt)
  then obtain a where a: "desc l i = Some a" ..
  obtain m1 where m1: "store_descriptor m a (buffer_descriptor b ps) = (Ok (), m1)"
      "same_off (desc_bytes l i) m m1" "table m1 l i = Some (buffer_descriptor b ps)"
    by (rule store_descriptor_ok [OF Cons.prems(1) a])
  have q1: "queue_in l m1"
    using Cons.prems(1) queue_in_same_off [OF m1(2)] by simp
  obtain m' where m': "write_chain l m1 ps = (Ok (), m')" "same_off (descs_bytes l (map fst ps)) m1 m'"
      "stored m' l ps"
    using Cons.IH [OF q1] Cons.prems p by auto
  have "descs_bytes l [i] \<inter> descs_bytes l (map fst ps) = {}"
    using Cons.prems(2) p by (intro descs_bytes_disjoint) auto
  then have "table m' l i = Some (buffer_descriptor b ps)"
    using table_frame [OF q1 m'(2)] m1(3) by simp
  then show ?case
    using m' same_off_trans [OF m1(2) m'(2)] p a m1(1) by simp
qed

lemma buffer_descriptor_flags [simp]:
  "has_next (buffer_descriptor b rest) \<longleftrightarrow> rest \<noteq> []"
  "is_write_only (buffer_descriptor b rest) \<longleftrightarrow> b_writable b"
  "\<not> is_indirect (buffer_descriptor b rest)"
  "d_next (buffer_descriptor b rest) = (if rest = [] then 0 else fst (hd rest))"
  "d_addr (buffer_descriptor b rest) = b_addr b" "d_len (buffer_descriptor b rest) = b_len b"
  by (simp_all add: buffer_descriptor_def buffer_flags_def has_next_def is_write_only_def
      is_indirect_def virtq_consts Let_def)

lemma stored_linked: "stored m l ps \<Longrightarrow> ps \<noteq> [] \<Longrightarrow> linked m l (fst (hd ps)) (chain_descs ps)"
proof (induction ps rule: chain_descs.induct)
  case (2 i b rest)
  then show ?case
    by (cases rest) auto
qed simp

lemma length_chain_descs [simp]: "length (chain_descs ps) = length ps"
  by (induction ps rule: chain_descs.induct) auto

lemma chain_descs_acceptable:
  assumes "readable_precede (map snd ps)" "sum_list (map (unat \<circ> b_len \<circ> snd) ps) < 2 ^ 32"
  shows "acceptable (chain_descs ps)"
proof -
  have "list_all (\<lambda>d. \<not> is_indirect d) (chain_descs ps)"
    by (induction ps rule: chain_descs.induct) auto
  moreover have "total_len (chain_descs ps) = sum_list (map (unat \<circ> b_len \<circ> snd) ps)"
    by (induction ps rule: chain_descs.induct) auto
  moreover have "ordered seen (chain_descs ps)"
    if "readable_precede (map snd ps)" "seen \<Longrightarrow> ps \<noteq> [] \<Longrightarrow> b_writable (snd (hd ps))" for seen
    using that
  proof (induction ps arbitrary: seen rule: chain_descs.induct)
    case (2 i b rest)
    have "ordered (seen \<or> b_writable b) (chain_descs rest)"
      using "2.prems" by (intro "2.IH") (cases rest; auto)+
    then show ?case using "2.prems" by auto
  qed simp
  ultimately show ?thesis
    using assms by (simp add: acceptable_def ordered_False [symmetric])
qed

lemma stored_valid:
  assumes "stored m l ps" "ps \<noteq> []" "length ps \<le> qn l" "readable_precede (map snd ps)"
    "sum_list (map (unat \<circ> b_len \<circ> snd) ps) < 2 ^ 32"
  shows "valid_chain m l (fst (hd ps)) (chain_descs ps)"
  using assms by (simp add: valid_chain_def stored_linked chain_descs_acceptable)

section \<open>The invariant: every descriptor is free or in one outstanding chain\<close>

definition driver_inv :: "Driver \<Rightarrow> bool" where
  "driver_inv d \<longleftrightarrow> layout_wf (drv_layout d) \<and> distinct (free_descs d) \<and>
     (\<forall>h is. outstanding d h = Some is \<longrightarrow>
       is \<noteq> [] \<and> hd is = h \<and> distinct is \<and> set is \<inter> set (free_descs d) = {}) \<and>
     (\<forall>h is h' is'. outstanding d h = Some is \<longrightarrow> outstanding d h' = Some is' \<longrightarrow> h \<noteq> h' \<longrightarrow>
       set is \<inter> set is' = {}) \<and>
     set (free_descs d) \<union> \<Union> (set ` ran (outstanding d)) = {i. i < queue_size (drv_layout d)}"

lemma driver_invD:
  assumes "driver_inv d"
  shows "layout_wf (drv_layout d)" "distinct (free_descs d)"
    "outstanding d h = Some is \<Longrightarrow> is \<noteq> [] \<and> hd is = h \<and> distinct is \<and> set is \<inter> set (free_descs d) = {}"
    "outstanding d h = Some is \<Longrightarrow> outstanding d h' = Some is' \<Longrightarrow> h \<noteq> h' \<Longrightarrow> set is \<inter> set is' = {}"
    "set (free_descs d) \<union> \<Union> (set ` ran (outstanding d)) = {i. i < queue_size (drv_layout d)}"
  using assms unfolding driver_inv_def by blast+

lemma driver_inv_index:
  assumes "driver_inv d"
  shows "i \<in> set (free_descs d) \<Longrightarrow> unat i < qn (drv_layout d)"
    "outstanding d h = Some is \<Longrightarrow> i \<in> set is \<Longrightarrow> unat i < qn (drv_layout d)"
  using driver_invD(5) [OF assms] by (auto simp: word_less_nat_alt [symmetric] ran_def)

lemma driver_new_inv:
  assumes "layout_wf l"
  shows "driver_inv (driver_new l arena_lim ev)"
proof -
  have q: "qn l \<le> 32768" using layout_wf_bounds [OF assms] by simp
  have un: "unat (word_of_nat k :: u16) = k" if "k < qn l" for k
    using that q by (simp add: unat_of_nat_u16)
  have "inj_on (word_of_nat :: nat \<Rightarrow> u16) {0..<qn l}"
    using un by (intro inj_on_inverseI [of _ unat]) auto
  moreover have "i \<in> word_of_nat ` {0..<qn l}" if "i < queue_size l" for i :: u16
    using that by (intro image_eqI [of _ _ "unat i"]) (simp_all add: word_less_nat_alt)
  ultimately show ?thesis
    using assms un by (auto simp: driver_inv_def driver_new_def distinct_map word_less_nat_alt)
qed

lemma pop_descs_eq:
  "n \<le> length fr \<Longrightarrow> pop_descs n fr = Some (rev (drop (length fr - n) fr), take (length fr - n) fr)"
proof (induction n arbitrary: fr)
  case 0
  then show ?case by simp
next
  case (Suc n)
  then have ne: "fr \<noteq> []" and n: "n \<le> length (butlast fr)" by auto
  obtain ys y where fr: "fr = ys @ [y]" using ne by (metis rev_exhaust)
  then show ?case using Suc.IH [OF n] n by (simp add: Suc_diff_le)
qed

lemma pop_descs_split:
  assumes "n \<le> length fr"
  obtains "is" rest where "pop_descs n fr = Some (is, rest)" "fr = rest @ rev is" "length is = n"
  using pop_descs_eq [OF assms] assms
    that [of "rev (drop (length fr - n) fr)" "take (length fr - n) fr"] by simp

lemma driver_inv_take:
  assumes "driver_inv d" "free_descs d = fr @ rev is" "is \<noteq> []"
  shows "driver_inv (d\<lparr>free_descs := fr, outstanding := (outstanding d)(hd is \<mapsto> is)\<rparr>)"
proof -
  note inv = driver_invD [OF assms(1)]
  have dist: "distinct fr" "distinct is" "set fr \<inter> set is = {}"
    using inv(2) assms(2) by auto
  have hd: "hd is \<in> set is" using assms(3) by simp
  have fresh: "outstanding d (hd is) = None"
  proof (rule ccontr)
    assume "outstanding d (hd is) \<noteq> None"
    then obtain js where "outstanding d (hd is) = Some js" by blast
    then have "hd is \<in> set js" "set js \<inter> set (free_descs d) = {}"
      using inv(3) hd_in_set by metis+
    then show False using hd assms(2) by auto
  qed
  have old: "js \<noteq> [] \<and> hd js = h \<and> distinct js \<and> set js \<inter> set fr = {} \<and> set js \<inter> set is = {}"
    if "outstanding d h = Some js" for h js
    using inv(3) [OF that] unfolding assms(2) by auto
  have cover: "set fr \<union> \<Union> (set ` ran ((outstanding d)(hd is \<mapsto> is))) = {i. i < queue_size (drv_layout d)}"
    using inv(5) fresh by (simp add: assms(2) ran_map_upd Un_ac)
  have each: "js \<noteq> [] \<and> hd js = h \<and> distinct js \<and> set js \<inter> set fr = {}"
    if "((outstanding d)(hd is \<mapsto> is)) h = Some js" for h js
  proof (cases "h = hd is")
    case True
    then have "js = is" using that by simp
    then show ?thesis using True dist assms(3) by blast
  qed (use that old in simp)
  have pair: "set js \<inter> set js' = {}"
    if "((outstanding d)(hd is \<mapsto> is)) h = Some js" "((outstanding d)(hd is \<mapsto> is)) h' = Some js'"
      and ne: "h \<noteq> h'" for h js h' js'
  proof -
    consider "h = hd is" "h' \<noteq> hd is" | "h' = hd is" "h \<noteq> hd is" | "h \<noteq> hd is" "h' \<noteq> hd is"
      using ne by blast
    then show ?thesis
    proof cases
      case 1
      then have "js = is" "outstanding d h' = Some js'" using that by simp_all
      then show ?thesis using old [of h' js'] by (simp add: Int_commute)
    next
      case 2
      then have "js' = is" "outstanding d h = Some js" using that by simp_all
      then show ?thesis using old [of h js] by simp
    next
      case 3
      then show ?thesis using that inv(4) [of h js h' js'] by simp
    qed
  qed
  show ?thesis
    unfolding driver_inv_def
    using inv(1) dist(1) each pair cover by (simp del: fun_upd_apply)
qed

lemma driver_inv_release: "driver_inv d \<Longrightarrow> driver_inv (release d cid)"
proof (cases "outstanding d cid")
  case None
  then show "driver_inv d \<Longrightarrow> driver_inv (release d cid)" by (simp add: release_def)
next
  case (Some "is")
  assume inv': "driver_inv d"
  note inv = driver_invD [OF inv']
  have ran: "ran (outstanding d) = insert is (ran ((outstanding d)(cid := None)))"
    using Some by (auto simp: ran_def) (metis option.inject)
  have "js \<noteq> [] \<and> hd js = h \<and> distinct js \<and> set js \<inter> set (free_descs d @ is) = {}"
    if "((outstanding d)(cid := None)) h = Some js" for h js
    using that inv(3) [of h js] inv(4) [OF Some, of h js] by (auto split: if_splits)
  moreover have "set (free_descs d @ is) \<union> \<Union> (set ` ran ((outstanding d)(cid := None))) =
      {i. i < queue_size (drv_layout d)}"
    using inv(5) unfolding ran by (simp add: Un_ac)
  moreover have "distinct (free_descs d @ is)"
    using inv(2) inv(3) [OF Some] by auto
  moreover have "set js \<inter> set js' = {}"
    if "((outstanding d)(cid := None)) h = Some js" "((outstanding d)(cid := None)) h' = Some js'"
      "h \<noteq> h'" for h js h' js'
    using that inv(4) [of h js h' js'] by (auto split: if_splits)
  ultimately show "driver_inv (release d cid)"
    using Some inv(1) by (simp add: release_def driver_inv_def)
qed

lemma driver_inv_cong:
  "drv_layout d' = drv_layout d \<Longrightarrow> free_descs d' = free_descs d \<Longrightarrow> outstanding d' = outstanding d \<Longrightarrow>
    driver_inv d' = driver_inv d"
  by (simp add: driver_inv_def)

section \<open>Publishing on a queue inside the region\<close>

definition published :: "VirtqLayout \<Rightarrow> SharedMem \<Rightarrow> u16 \<Rightarrow> u16 \<Rightarrow> SharedMem" where
  "published l m i head = put_u16 (avail_store l m i head) (avail_idx l) (i + 1)"

lemma published_facts:
  assumes "queue_in l m"
  shows "same_off (avail_slot_bytes l i \<union> bytes_at (avail_idx l) 2) m (published l m i head)"
    "queue_in l (published l m i head)"
    "avail_count l (published l m i head) = i + 1"
    "avail_load l (published l m i head) j = avail_load l (avail_store l m i head) j"
proof -
  let ?m2 = "avail_store l m i head"
  have q: "queue_in l ?m2" using assms by simp
  have off: "same_off (bytes_at (avail_idx l) 2) ?m2 (published l m i head)"
    unfolding published_def by (rule put_u16_off [OF queue_inD(2) [OF q]])
  show "same_off (avail_slot_bytes l i \<union> bytes_at (avail_idx l) 2) m (published l m i head)"
    by (rule same_off_trans [OF avail_store_off [OF assms] off])
  show "queue_in l (published l m i head)"
    using q by (simp add: published_def)
  show "avail_count l (published l m i head) = i + 1"
    unfolding published_def by (rule get_put_u16 [OF queue_inD(2) [OF q] fields_in_mem(1) [OF q]])
  show "avail_load l (published l m i head) j = avail_load l ?m2 j"
    using slot_bytes_disjoint(3) [OF queue_inD(1) [OF assms], of j]
    by (intro avail_load_frame [OF q off]) auto
qed

lemma published_contents:
  assumes "queue_in l m" "unat (i - r) < qn l"
  shows "avail_queue.contents l (published l m i head) r (i + 1) = avail_queue.contents l m r i @ [head]"
  using avail_queue.contents_push [OF assms, of head] published_facts(4) [OF assms(1)]
  by (simp add: avail_queue.contents_def)

lemma add_chain_ok:
  assumes "queue_in (drv_layout d) m" "driver_inv d"
    and "bs \<noteq> []" "length bs \<le> length (free_descs d)" "readable_precede bs"
  obtains "is" fr m1 where
    "free_descs d = fr @ rev is" "length is = length bs"
    "add_chain d m bs = (Ok (hd is),
      d\<lparr>free_descs := fr, outstanding := (outstanding d)(hd is \<mapsto> is), drv_avail_idx := drv_avail_idx d + 1\<rparr>,
      published (drv_layout d) m1 (drv_avail_idx d) (hd is))"
    "same_off (descs_bytes (drv_layout d) is) m m1" "queue_in (drv_layout d) m1"
    "stored m1 (drv_layout d) (zip is bs)"
proof -
  let ?l = "drv_layout d"
  obtain "is" fr where pop: "pop_descs (length bs) (free_descs d) = Some (is, fr)"
      "free_descs d = fr @ rev is" "length is = length bs"
    by (rule pop_descs_split [OF assms(4)])
  have fst: "map fst (zip is bs) = is" using pop(3) by simp
  have dist: "distinct is" using driver_invD(2) [OF assms(2)] pop(2) by auto
  have idx: "list_all (\<lambda>i. unat i < qn ?l) is"
    using driver_inv_index(1) [OF assms(2)] pop(2) by (auto simp: list_all_iff)
  obtain m1 where m1: "write_chain ?l m (zip is bs) = (Ok (), m1)"
      "same_off (descs_bytes ?l is) m m1" "stored m1 ?l (zip is bs)"
    using write_chain_ok [OF assms(1), of "zip is bs"] dist idx unfolding fst by blast
  have q1: "queue_in ?l m1"
    using assms(1) queue_in_same_off [OF m1(2)] by simp
  obtain a where a: "avail_slot ?l (drv_avail_idx d) = Some a"
    using slots_some [OF queue_inD(1) [OF q1]] by metis
  have q2: "queue_in ?l (avail_store ?l m1 (drv_avail_idx d) (hd is))" using q1 by simp
  have st: "write_u16 (avail_store ?l m1 (drv_avail_idx d) (hd is)) (avail_idx ?l) (drv_avail_idx d + 1) =
      Inr (published ?l m1 (drv_avail_idx d) (hd is))"
    unfolding published_def by (rule write_u16_put [OF queue_inD(2) [OF q2] fields_in_mem(1) [OF q2]])
  have "add_chain d m bs = (Ok (hd is),
      d\<lparr>free_descs := fr, outstanding := (outstanding d)(hd is \<mapsto> is), drv_avail_idx := drv_avail_idx d + 1\<rparr>,
      published ?l m1 (drv_avail_idx d) (hd is))"
    using assms(3-5) by (simp add: add_chain_def pop(1) Let_def m1(1) a avail_store_eq [OF q1 a]
        store_idx_release_def st)
  with that pop(2,3) m1(2,3) q1 show ?thesis by blast
qed

section \<open>Collecting on a queue inside the region\<close>

abbreviation completion :: "u32 \<times> u32 \<Rightarrow> u16 \<times> u32" where
  "completion e \<equiv> (ucast (fst e), snd e)"

lemma release_layout [simp]: "drv_layout (release d cid) = drv_layout d"
  by (simp add: release_def split: option.split)

lemma release_upd [simp]: "release (d\<lparr>last_used := k\<rparr>) cid = (release d cid)\<lparr>last_used := k\<rparr>"
  by (simp add: release_def split: option.split)

lemma foldl_release_upd: "foldl release (d\<lparr>last_used := k\<rparr>) hs = (foldl release d hs)\<lparr>last_used := k\<rparr>"
  by (induction hs arbitrary: d) simp_all

lemma foldl_release_layout [simp]: "drv_layout (foldl release d hs) = drv_layout d"
  by (induction hs arbitrary: d) simp_all

lemma collect_loop_eq:
  assumes "queue_in (drv_layout d) m"
  shows "collect_loop used d m out =
    (let cs = map completion (used_queue.contents (drv_layout d) m (last_used d) used)
     in (Ok (out @ cs), (foldl release d (map fst cs))\<lparr>last_used := used\<rparr>))"
  using assms
proof (induction "unat (used - last_used d)" arbitrary: d out)
  case 0
  then have e: "used = last_used d" by (simp add: unat_eq_0)
  then have "used_queue.contents (drv_layout d) m (last_used d) used = []"
    by (simp add: used_queue.contents_Nil_iff)
  then show ?case using e by (simp add: collect_loop.simps)
next
  case (Suc n)
  let ?l = "drv_layout d" and ?e = "used_load (drv_layout d) m (last_used d)"
  have ne: "used \<noteq> last_used d" using Suc.hyps(2) by auto
  obtain a b where ab: "used_slot ?l (last_used d) = Some (a, b)"
    using used_slots_some [OF queue_inD(1) [OF Suc.prems]] by metis
  let ?d1 = "(release d (ucast (fst ?e)))\<lparr>last_used := last_used d + 1\<rparr>"
  have "collect_loop used d m out = collect_loop used ?d1 m (out @ [completion ?e])"
    using ne used_load_eq(1,2) [OF Suc.prems ab]
    by (simp add: collect_loop.simps [of used d] ab Let_def)
  also have "\<dots> = (let cs = map completion (used_queue.contents ?l m (last_used d + 1) used)
      in (Ok ((out @ [completion ?e]) @ cs), (foldl release ?d1 (map fst cs))\<lparr>last_used := used\<rparr>))"
    using Suc.hyps(1) [of ?d1 "out @ [completion ?e]"] Suc.hyps(2) Suc.prems unat_diff_drop_one [OF ne]
    by simp
  finally show ?case
    using used_queue.contents_pop [OF ne, of ?l m] by (simp add: Let_def foldl_release_upd)
qed

lemma collect_used_eq:
  assumes "queue_in (drv_layout d) m"
  shows "collect_used d m =
    (let cs = map completion (used_queue.contents (drv_layout d) m (last_used d) (used_count (drv_layout d) m))
     in (Ok cs, (foldl release d (map fst cs))\<lparr>last_used := used_count (drv_layout d) m\<rparr>))"
  using read_u16_get [OF queue_inD(2) [OF assms] fields_in_mem(2) [OF assms]] collect_loop_eq [OF assms]
  by (simp add: collect_used_def load_idx_acquire_def)

lemma foldl_release_inv: "driver_inv d \<Longrightarrow> driver_inv (foldl release d hs)"
  by (induction hs arbitrary: d) (simp_all add: driver_inv_release)

lemma collect_used_inv:
  assumes "queue_in (drv_layout d) m" "driver_inv d"
  shows "driver_inv (snd (collect_used d m))"
  using foldl_release_inv [OF assms(2)] by (simp add: collect_used_eq [OF assms(1)] Let_def driver_inv_def)

section \<open>The allocator\<close>

lemma next_multiple_of_bounds:
  assumes "0 < unat a" "unat v + unat a < 2 ^ 64"
  shows "unat v \<le> unat (next_multiple_of v a)" "unat (next_multiple_of v a) < unat v + unat a"
    "unat (next_multiple_of v a) mod unat a = 0"
proof -
  define r where "r = unat v mod unat a"
  have r: "r < unat a" "r \<le> unat v" using assms(1) by (simp_all add: r_def)
  have eq: "unat (next_multiple_of v a) = (if r = 0 then unat v else unat v + (unat a - r))"
  proof (cases "r = 0")
    case True
    then have "v mod a = 0" by (simp add: word_unat_eq_iff unat_mod r_def)
    with True show ?thesis by (simp add: next_multiple_of_def)
  next
    case False
    then have ne: "v mod a \<noteq> 0" by (simp add: word_unat_eq_iff unat_mod r_def)
    have "v mod a \<le> a" using r by (simp add: word_le_nat_alt unat_mod r_def)
    then have "unat (a - v mod a) = unat a - r" by (simp add: unat_sub unat_mod r_def)
    then have "unat (v + (a - v mod a)) = unat v + (unat a - r)"
      using assms(2) by (simp add: unat_add_small)
    with False ne show ?thesis by (simp add: next_multiple_of_def)
  qed
  show "unat v \<le> unat (next_multiple_of v a)" "unat (next_multiple_of v a) < unat v + unat a"
    unfolding eq using r assms(1) by auto
  have "(unat v + (unat a - r)) mod unat a = 0" if "r \<noteq> 0"
  proof -
    have "unat v + (unat a - r) = (unat v - r) + unat a"
      using r by simp
    then show ?thesis by (simp add: minus_mod_eq_mult_div r_def)
  qed
  then show "unat (next_multiple_of v a) mod unat a = 0"
    unfolding eq by (simp add: r_def)
qed

lemma alloc_uninit_bounds:
  assumes "alloc_uninit d len = (Some a, d')" "unat (arena_end d) < 2 ^ 63"
  shows "a = arena d" "unat a + unat len \<le> unat (arena_end d)"
    "unat a + unat len \<le> unat (arena d')" "unat (arena d') mod 8 = 0"
    "d' = d\<lparr>arena := arena d'\<rparr>"
proof -
  obtain e where e: "checked_add (arena d) (ucast len) = Some e" "\<not> arena_end d < e"
      "a = arena d" "d' = d\<lparr>arena := next_multiple_of e 8\<rparr>"
    using assms(1) by (auto simp: alloc_uninit_def split: option.splits if_splits)
  then have u: "unat e = unat (arena d) + unat len" "unat e \<le> unat (arena_end d)"
    by (simp_all add: checked_add_Some_iff word_less_nat_alt)
  then have "0 < unat (8 :: u64)" "unat e + unat (8 :: u64) < 2 ^ 64"
    using assms(2) by simp_all
  note n = next_multiple_of_bounds [OF this]
  show "a = arena d" "unat a + unat len \<le> unat (arena_end d)"
    "unat a + unat len \<le> unat (arena d')" "unat (arena d') mod 8 = 0" "d' = d\<lparr>arena := arena d'\<rparr>"
    using e(3,4) u n by simp_all
qed

end
