(* ===== verification/VqQueue.thy ===== *)
theory VqQueue
  imports VqDevice VqDriver
begin

text \<open>
  Both halves of the virtqueue on one memory, as \<^verbatim>\<open>rung-02-virtio/toy-virtq-raw/src/main.rs\<close> runs
  them: the driver publishes and collects, the device processes, and the guest writes to its own
  buffers. \<open>queue_inv\<close> is the protocol between them: the chains in flight are the outstanding
  chains of the driver, each is either pending in the avail ring or completed in the used ring,
  and each is stored in the descriptor table. \<open>queue_step\<close> is one call of either side; the
  invariant holds of every reachable state, for any values of the free-running counters.

  A driver keeps the promise of the specification (\<open>good_buffers\<close>): fewer than \<open>2^32\<close> bytes in a
  chain, readable buffers first, and no writable buffer inside the queue itself.
\<close>

unbundle bit_operations_syntax

section \<open>The chains a driver publishes\<close>

definition buffer_refs :: "Buffer list \<Rightarrow> buffer_ref list" where
  "buffer_refs bs = map (\<lambda>b. (b_addr b, b_len b)) bs"

abbreviation request_refs :: "Buffer list \<Rightarrow> buffer_ref list" where
  "request_refs bs \<equiv> buffer_refs (filter (\<lambda>b. \<not> b_writable b) bs)"

abbreviation reply_refs :: "Buffer list \<Rightarrow> buffer_ref list" where
  "reply_refs bs \<equiv> buffer_refs (filter b_writable bs)"

definition good_buffers :: "VirtqLayout \<Rightarrow> Buffer list \<Rightarrow> bool" where
  "good_buffers l bs \<longleftrightarrow> bs \<noteq> [] \<and> readable_precede bs \<and> sum_list (map (unat \<circ> b_len) bs) < 2 ^ 32 \<and>
     refs_bytes (reply_refs bs) \<inter> queue_area l = {}"

lemma refs_chain_descs:
  "readable_refs (chain_descs ps) = request_refs (map snd ps)"
  "writable_refs (chain_descs ps) = reply_refs (map snd ps)"
  by (induction ps rule: chain_descs.induct) (simp_all add: refs_def buffer_refs_def)

lemma stored_walk:
  assumes "stored m l (zip is bs)" "length is = length bs" "good_buffers l bs" "length is \<le> qn l"
  shows "chain_walk m l (hd is) = Inr (chain_descs (zip is bs))"
    "writes m l (hd is) = refs_bytes (reply_refs bs)"
proof -
  have "is \<noteq> []" using assms(2,3) by (auto simp: good_buffers_def)
  then have hd: "fst (hd (zip is bs)) = hd is" "zip is bs \<noteq> []"
    using assms(2) by (cases "is"; cases bs; simp)+
  have snd: "map snd (zip is bs) = bs" using assms(2) by simp
  have "map (unat \<circ> b_len \<circ> snd) (zip is bs) = map (unat \<circ> b_len) bs"
    using snd by (metis map_map)
  then have "valid_chain m l (hd is) (chain_descs (zip is bs))"
    using stored_valid [OF assms(1) hd(2)] hd assms snd by (simp add: good_buffers_def)
  then show walk: "chain_walk m l (hd is) = Inr (chain_descs (zip is bs))"
    by (simp add: chain_walk_Inr_iff)
  show "writes m l (hd is) = refs_bytes (reply_refs bs)"
    using refs_chain_descs(2) [of "zip is bs"] snd by (simp add: writes_def walk)
qed

section \<open>The protocol\<close>

definition chains_stored :: "VirtqLayout \<Rightarrow> SharedMem \<Rightarrow> (u16 \<rightharpoonup> u16 list) \<Rightarrow> bool" where
  "chains_stored l m out \<longleftrightarrow>
     (\<forall>h is. out h = Some is \<longrightarrow>
       (\<exists>bs. length bs = length is \<and> good_buffers l bs \<and> stored m l (zip is bs)))"

definition in_used :: "Driver \<Rightarrow> Device \<Rightarrow> SharedMem \<Rightarrow> u16 list" where
  "in_used drv dev m =
     map (\<lambda>e. ucast (fst e)) (used_queue.contents (drv_layout drv) m (last_used drv) (next_used dev))"

definition queue_inv :: "Driver \<Rightarrow> Device \<Rightarrow> SharedMem \<Rightarrow> bool" where
  "queue_inv drv dev m \<longleftrightarrow>
     dev_layout dev = drv_layout drv \<and> queue_in (drv_layout drv) m \<and> driver_inv drv \<and>
     avail_count (drv_layout drv) m = drv_avail_idx drv \<and>
     used_count (drv_layout drv) m = next_used dev \<and>
     distinct (in_used drv dev m @ pending dev m) \<and>
     set (in_used drv dev m @ pending dev m) = dom (outstanding drv) \<and>
     chains_stored (drv_layout drv) m (outstanding drv)"

lemma queue_invD:
  assumes "queue_inv drv dev m"
  shows "dev_layout dev = drv_layout drv" "queue_in (drv_layout drv) m" "driver_inv drv"
    "avail_count (drv_layout drv) m = drv_avail_idx drv"
    "used_count (drv_layout drv) m = next_used dev"
    "distinct (in_used drv dev m @ pending dev m)"
    "set (in_used drv dev m @ pending dev m) = dom (outstanding drv)"
    "chains_stored (drv_layout drv) m (outstanding drv)"
  using assms by (simp_all add: queue_inv_def)

lemma chain_length:
  assumes "driver_inv drv" "outstanding drv h = Some is"
  shows "length is \<le> qn (drv_layout drv)"
proof -
  have d: "distinct is" using driver_invD(3) [OF assms] by blast
  have "set (map unat is) \<subseteq> {..<qn (drv_layout drv)}"
    using driver_inv_index(2) [OF assms] by auto
  then have "card (set (map unat is)) \<le> qn (drv_layout drv)"
    using card_mono [of "{..<qn (drv_layout drv)}"] by simp
  moreover have "distinct (map unat is)"
    using d by (simp add: distinct_map inj_on_def word_unat_eq_iff)
  ultimately show ?thesis
    using distinct_card [of "map unat is"] by simp
qed

text \<open>Heads are descriptors, so there are never more chains in flight than ring slots.\<close>

lemma heads_bound:
  assumes "driver_inv drv" "distinct hs" "set hs \<subseteq> dom (outstanding drv)"
  shows "length hs \<le> qn (drv_layout drv)"
proof -
  have "unat h < qn (drv_layout drv)" if "h \<in> set hs" for h
  proof -
    have "h \<in> dom (outstanding drv)" using that assms(3) by blast
    then obtain "is" where o: "outstanding drv h = Some is" by blast
    then have "h \<in> set is" using driver_invD(3) [OF assms(1)] by (metis hd_in_set)
    then show ?thesis using driver_inv_index(2) [OF assms(1) o] by simp
  qed
  then have "set (map unat hs) \<subseteq> {..<qn (drv_layout drv)}" by auto
  then have "card (set (map unat hs)) \<le> qn (drv_layout drv)"
    using card_mono [of "{..<qn (drv_layout drv)}"] by simp
  moreover have "distinct (map unat hs)"
    using assms(2) by (simp add: distinct_map inj_on_def word_unat_eq_iff)
  ultimately show ?thesis
    using distinct_card [of "map unat hs"] by simp
qed

lemma pending_length: "length (pending dev m) = unat (avail_count (dev_layout dev) m - next_avail dev)"
  by (simp add: pending_def avail_queue.length_contents)

lemma queue_inv_quiet:
  assumes "queue_inv drv dev m"
  shows "quiet dev m"
  unfolding quiet_def list_all_iff
proof
  fix h assume "h \<in> set (pending dev m)"
  then obtain "is" where o: "outstanding drv h = Some is"
    using queue_invD(7) [OF assms] by auto
  then obtain bs where bs: "length bs = length is" "good_buffers (drv_layout drv) bs"
      "stored m (drv_layout drv) (zip is bs)"
    using queue_invD(8) [OF assms] unfolding chains_stored_def by blast
  have "hd is = h" using driver_invD(3) [OF queue_invD(3) [OF assms] o] by simp
  then show "writes m (dev_layout dev) h \<inter> queue_area (dev_layout dev) = {}"
    using stored_walk(2) [OF bs(3) bs(1) [symmetric] bs(2) chain_length [OF queue_invD(3) [OF assms] o]]
      bs(2) queue_invD(1) [OF assms] by (simp add: good_buffers_def)
qed

text \<open>Writes outside the descriptor table do not change the chains stored in it.\<close>

lemma chains_stored_frame:
  assumes "chains_stored l m (outstanding drv)" "queue_in l m" "driver_inv drv" "drv_layout drv = l"
    and "same_off S m m'" "desc_area l \<inter> S = {}"
  shows "chains_stored l m' (outstanding drv)"
  unfolding chains_stored_def
proof (intro allI impI)
  fix h "is" assume o: "outstanding drv h = Some is"
  then obtain bs where bs: "length bs = length is" "good_buffers l bs" "stored m l (zip is bs)"
    using assms(1) unfolding chains_stored_def by blast
  have "list_all (\<lambda>i. unat i < qn l) is"
    using driver_inv_index(2) [OF assms(3) o] assms(4) by (auto simp: list_all_iff)
  then have "descs_bytes l (map fst (zip is bs)) \<inter> S = {}"
    using descs_bytes_in_area [of l "is"] assms(6) bs(1) by (fastforce simp: map_fst_zip)
  then have "stored m' l (zip is bs)"
    using stored_frame [OF assms(2,5)] bs(3) by simp
  with bs show "\<exists>bs. length bs = length is \<and> good_buffers l bs \<and> stored m' l (zip is bs)" by blast
qed

section \<open>Each operation keeps the protocol\<close>

text \<open>
  The bytes the protocol depends on: the descriptor table, the ring slots and the two counters.
  The flags and the event thresholds are not among them.
\<close>

definition live_area :: "VirtqLayout \<Rightarrow> nat set" where
  "live_area l = desc_area l \<union> bytes_at (avail_idx l) 2 \<union> bytes_at (used_idx l) 2 \<union>
     (\<Union>i. avail_slot_bytes l i) \<union> (\<Union>i. used_slot_bytes l i)"

lemma live_in_queue_area:
  assumes "layout_wf l"
  shows "live_area l \<subseteq> queue_area l"
  using slot_bytes_in_areas [OF assms] areas_disjoint(4) [OF assms] unfolding live_area_def by blast

lemma queue_inv_frame_live:
  assumes "queue_inv drv dev m" "same_off S m m'" "live_area (drv_layout drv) \<inter> S = {}"
  shows "queue_inv drv dev m'"
proof -
  let ?l = "drv_layout drv"
  note inv = queue_invD [OF assms(1)] and wf = queue_inD [OF queue_invD(2) [OF assms(1)]]
  have dis: "desc_area ?l \<inter> S = {}" "bytes_at (avail_idx ?l) 2 \<inter> S = {}" "bytes_at (used_idx ?l) 2 \<inter> S = {}"
      "avail_slot_bytes ?l i \<inter> S = {}" "used_slot_bytes ?l i \<inter> S = {}" for i
    using assms(3) by (auto simp: live_area_def)
  have counts: "avail_count ?l m' = avail_count ?l m" "used_count ?l m' = used_count ?l m"
    using dis(2,3) get_u16_frame [OF wf(2) assms(2)] by simp_all
  have "used_load ?l m' i = used_load ?l m i" "avail_load ?l m' i = avail_load ?l m i" for i
    using used_load_frame [OF inv(2) assms(2) dis(5)] avail_load_frame [OF inv(2) assms(2) dis(4)] by simp_all
  then have "in_used drv dev m' = in_used drv dev m" "pending dev m' = pending dev m"
    using counts by (simp_all add: in_used_def pending_def inv(1) used_queue.contents_def avail_queue.contents_def)
  moreover have "chains_stored ?l m' (outstanding drv)"
    by (rule chains_stored_frame [OF inv(8) inv(2) inv(3) refl assms(2) dis(1)])
  ultimately show ?thesis
    using inv counts queue_in_same_off [OF assms(2)] by (simp add: queue_inv_def)
qed

lemma queue_inv_frame:
  assumes "queue_inv drv dev m" "same_off S m m'" "S \<inter> queue_area (drv_layout drv) = {}"
  shows "queue_inv drv dev m'"
  using assms(3) live_in_queue_area [OF queue_inD(1) [OF queue_invD(2) [OF assms(1)]]]
  by (intro queue_inv_frame_live [OF assms(1,2)]) blast

lemma queue_inv_cong:
  assumes "queue_inv drv dev m"
    and "drv_layout drv' = drv_layout drv" "drv_avail_idx drv' = drv_avail_idx drv"
      "last_used drv' = last_used drv" "free_descs drv' = free_descs drv" "outstanding drv' = outstanding drv"
    and "dev_layout dev' = dev_layout dev" "next_avail dev' = next_avail dev" "next_used dev' = next_used dev"
  shows "queue_inv drv' dev' m"
proof -
  have "driver_inv drv' = driver_inv drv"
    by (rule driver_inv_cong) (use assms in simp_all)
  moreover have "pending dev' m = pending dev m" "in_used drv' dev' m = in_used drv dev m"
    using assms(2-) by (simp_all add: pending_def in_used_def)
  ultimately show ?thesis
    using assms by (simp add: queue_inv_def)
qed

lemma queue_inv_process:
  assumes "queue_inv drv dev m"
  obtains st' m' w' lens where
    "process work dev m w st = Some (Ok st', drained dev m, m', w')"
    "queue_inv drv (drained dev m) m'"
    "pending (drained dev m) m' = []"
    "length lens = length (pending dev m)"
    "in_used drv (drained dev m) m' = in_used drv dev m @ pending dev m"
    "used_queue.contents (drv_layout drv) m' (last_used drv) (next_used (drained dev m)) =
       used_queue.contents (drv_layout drv) m (last_used drv) (next_used dev) @
         zip (map ucast (pending dev m)) lens"
    "same_off (all_writes m (drv_layout drv) (pending dev m) \<union> used_area (drv_layout drv)) m m'"
proof -
  let ?l = "drv_layout drv" and ?p = "pending dev m" and ?dev' = "drained dev m"
  note inv = queue_invD [OF assms] and wf = queue_inD [OF queue_invD(2) [OF assms]]
  note quiet = queue_inv_quiet [OF assms]
  have q: "queue_in (dev_layout dev) m" using inv(1,2) by simp
  obtain st' m' w' lens where run: "process work dev m w st = Some (Ok st', ?dev', m', w')"
    and lens: "length lens = length ?p"
    and off: "same_off (all_writes m ?l ?p \<union> used_area ?l) m m'"
    and cnt: "?p \<noteq> [] \<longrightarrow> used_count ?l m' = next_used ?dev'"
    and cont: "\<And>u0. unat (next_used dev - u0) + length ?p \<le> qn ?l \<Longrightarrow>
      used_queue.contents ?l m' u0 (next_used ?dev') =
        used_queue.contents ?l m u0 (next_used dev) @ zip (map ucast ?p) lens"
    using process_quiet [OF q quiet, of work w st] inv(1) by auto
  have lay: "dev_layout ?dev' = ?l" by (simp add: drained_def Let_def inv(1))
  have aw: "all_writes m ?l ?p \<inter> queue_area ?l = {}"
    using quiet inv(1) by (auto simp: all_writes_def quiet_def list_all_iff)
  then have dis: "desc_area ?l \<inter> (all_writes m ?l ?p \<union> used_area ?l) = {}"
      "avail_area ?l \<inter> (all_writes m ?l ?p \<union> used_area ?l) = {}"
    using areas_disjoint [OF wf(1)] by blast+
  have "length (in_used drv dev m @ ?p) \<le> qn ?l"
    using inv(6,7) by (intro heads_bound [OF inv(3)]) auto
  then have cap: "unat (next_used dev - last_used drv) + length ?p \<le> qn ?l"
    by (simp add: in_used_def used_queue.length_contents)
  note cont' = cont [OF cap]
  have "map (ucast \<circ> fst) (zip (map ucast ?p :: u32 list) lens) = ?p"
    using lens by (simp add: map_zip_map [symmetric] flip: map_map) (simp add: comp_def)
  then have used: "in_used drv ?dev' m' = in_used drv dev m @ ?p"
    by (simp add: in_used_def cont' comp_def)
  have acount: "avail_count ?l m' = avail_count ?l m"
    using slot_bytes_in_areas(3) [OF wf(1)] dis(2) by (intro get_u16_frame [OF wf(2) off]) blast
  have nxt: "next_avail ?dev' = drv_avail_idx drv"
    using inv(1,4) by (simp add: drained_def Let_def pending_length)
  then have pend: "pending ?dev' m' = []"
    by (simp add: pending_Nil_iff lay acount inv(4))
  have ucount: "used_count ?l m' = next_used ?dev'"
  proof (cases "?p = []")
    case True
    then have "m' = m" using process_empty [OF q True, of work w st] run by simp
    then show ?thesis using True inv(5) by (simp add: drained_def)
  qed (use cnt in simp)
  have "queue_in ?l m'" using inv(2) queue_in_same_off [OF off] by simp
  moreover have "chains_stored ?l m' (outstanding drv)"
    by (rule chains_stored_frame [OF inv(8) inv(2) inv(3) refl off dis(1)])
  ultimately have "queue_inv drv ?dev' m'"
    using inv(3,4,6,7) lay acount ucount pend used by (simp add: queue_inv_def)
  with that run pend lens used cont' off show ?thesis by blast
qed

lemma outstanding_foldl_release: "outstanding (foldl release d hs) = outstanding d |` (- set hs)"
proof (induction hs arbitrary: d)
  case (Cons h hs)
  have "outstanding (release d h) = (outstanding d)(h := None)"
    by (auto simp: release_def split: option.split)
  then show ?case
    unfolding foldl.simps Cons.IH by (auto simp: restrict_map_def fun_eq_iff)
qed (simp add: restrict_map_def)

lemma foldl_release_simps [simp]:
  "drv_avail_idx (foldl release d hs) = drv_avail_idx d" "last_kick (foldl release d hs) = last_kick d"
  "drv_event_idx (foldl release d hs) = drv_event_idx d" "arena (foldl release d hs) = arena d"
  "arena_end (foldl release d hs) = arena_end d"
  by (induction hs arbitrary: d) (simp_all add: release_def split: option.split)

lemma queue_inv_collect:
  assumes "queue_inv drv dev m"
  defines "cs \<equiv> map completion (used_queue.contents (drv_layout drv) m (last_used drv) (next_used dev))"
  shows "collect_used drv m =
      (Ok cs, (foldl release drv (in_used drv dev m))\<lparr>last_used := next_used dev\<rparr>)"
    "queue_inv ((foldl release drv (in_used drv dev m))\<lparr>last_used := next_used dev\<rparr>) dev m"
proof -
  let ?l = "drv_layout drv" and ?us = "in_used drv dev m"
  let ?drv' = "(foldl release drv ?us)\<lparr>last_used := next_used dev\<rparr>"
  note inv = queue_invD [OF assms(1)]
  have "map fst cs = ?us" by (simp add: cs_def in_used_def comp_def)
  then show eq: "collect_used drv m = (Ok cs, ?drv')"
    using collect_used_eq [OF inv(2)] inv(5) by (simp add: cs_def Let_def)
  have "driver_inv ?drv'"
    using collect_used_inv [OF inv(2,3)] eq by simp
  moreover have "in_used ?drv' dev m = []"
    by (simp add: in_used_def used_queue.contents_Nil_iff)
  moreover have "set (pending dev m) = dom (outstanding ?drv')"
    using inv(6,7) by (auto simp: outstanding_foldl_release)
  moreover have "chains_stored ?l m (outstanding ?drv')"
    using inv(8) by (simp add: chains_stored_def outstanding_foldl_release restrict_map_def)
  ultimately show "queue_inv ?drv' dev m"
    using inv by (simp add: queue_inv_def)
qed

lemma collect_all_outstanding:
  assumes "queue_inv drv dev m" "pending dev m = []"
  shows "outstanding (foldl release drv (in_used drv dev m)) = Map.empty"
proof -
  have "set (in_used drv dev m) = dom (outstanding drv)"
    using queue_invD(7) [OF assms(1)] assms(2) by simp
  then show ?thesis
    by (auto simp: outstanding_foldl_release restrict_map_def fun_eq_iff)
qed

lemma free_not_head: "driver_inv d \<Longrightarrow> i \<in> set (free_descs d) \<Longrightarrow> outstanding d i = None"
proof (rule ccontr)
  assume inv: "driver_inv d" and i: "i \<in> set (free_descs d)" and "outstanding d i \<noteq> None"
  then obtain js where "outstanding d i = Some js" by blast
  then have "hd js = i" "js \<noteq> []" "set js \<inter> set (free_descs d) = {}"
    using driver_invD(3) [OF inv] by blast+
  then show False using i hd_in_set [of js] by blast
qed

lemma queue_inv_add_chain:
  assumes "queue_inv drv dev m" "good_buffers (drv_layout drv) bs" "length bs \<le> length (free_descs drv)"
  obtains "is" drv' m' where
    "add_chain drv m bs = (Ok (hd is), drv', m')" "queue_inv drv' dev m'"
    "pending dev m' = pending dev m @ [hd is]" "in_used drv' dev m' = in_used drv dev m"
    "outstanding drv (hd is) = None" "outstanding drv' = (outstanding drv)(hd is \<mapsto> is)" "length is = length bs"
    "free_descs drv = free_descs drv' @ rev is"
    "drv' = drv\<lparr>free_descs := free_descs drv', outstanding := outstanding drv',
       drv_avail_idx := drv_avail_idx drv + 1\<rparr>"
    "stored m' (drv_layout drv) (zip is bs)"
    "\<forall>js bs'. stored m (drv_layout drv) (zip js bs') \<longrightarrow> length js = length bs' \<longrightarrow>
       outstanding drv (hd js) = Some js \<longrightarrow> stored m' (drv_layout drv) (zip js bs')"
    "same_off (desc_area (drv_layout drv) \<union> avail_slot_bytes (drv_layout drv) (drv_avail_idx drv) \<union>
       bytes_at (avail_idx (drv_layout drv)) 2) m m'"
proof -
  let ?l = "drv_layout drv" and ?i = "drv_avail_idx drv"
  note inv = queue_invD [OF assms(1)] and wf = queue_inD [OF queue_invD(2) [OF assms(1)]]
  have bs: "bs \<noteq> []" "readable_precede bs" using assms(2) by (simp_all add: good_buffers_def)
  obtain "is" fr m1 where add: "free_descs drv = fr @ rev is" "length is = length bs"
      "add_chain drv m bs = (Ok (hd is),
        drv\<lparr>free_descs := fr, outstanding := (outstanding drv)(hd is \<mapsto> is), drv_avail_idx := ?i + 1\<rparr>,
        published ?l m1 ?i (hd is))"
      and off1: "same_off (descs_bytes ?l is) m m1" and q1: "queue_in ?l m1"
      and st: "stored m1 ?l (zip is bs)"
    by (rule add_chain_ok [OF inv(2,3) bs(1) assms(3) bs(2)])
  define drv' where "drv' = drv\<lparr>free_descs := fr, outstanding := (outstanding drv)(hd is \<mapsto> is),
      drv_avail_idx := ?i + 1\<rparr>"
  define m' where "m' = published ?l m1 ?i (hd is)"
  have ne: "is \<noteq> []" using add(2) bs(1) by auto
  have "hd is \<in> set (free_descs drv)" using add(1) ne by simp
  note fresh = free_not_head [OF inv(3) this]
  have idx: "list_all (\<lambda>i. unat i < qn ?l) is"
    using driver_inv_index(1) [OF inv(3)] add(1) by (auto simp: list_all_iff)
  note area1 = descs_bytes_in_area [OF idx] and dis = areas_disjoint [OF wf(1)]
  note p = published_facts [OF q1, of ?i "hd is", folded m'_def]
  have offa: "same_off (avail_area ?l) m1 m'"
    by (rule same_off_mono [OF p(1)]) (use slot_bytes_in_areas [OF wf(1)] in blast)
  have off: "same_off (desc_area ?l \<union> avail_slot_bytes ?l ?i \<union> bytes_at (avail_idx ?l) 2) m m'"
    by (rule same_off_mono [OF same_off_trans [OF off1 p(1)]]) (use area1 in blast)
  have offda: "same_off (desc_area ?l \<union> avail_area ?l) m m'"
    by (rule same_off_mono [OF off]) (use slot_bytes_in_areas [OF wf(1)] in blast)
  have dinv: "driver_inv drv'"
    by (subst driver_inv_cong) (use driver_inv_take [OF inv(3) add(1) ne] in \<open>simp_all add: drv'_def\<close>)
  have "used_load ?l m' j = used_load ?l m j" for j
    using slot_bytes_in_areas(2) [OF wf(1), of j] dis by (intro used_load_frame [OF inv(2) offda]) blast
  then have us: "in_used drv' dev m' = in_used drv dev m"
    by (simp add: in_used_def used_queue.contents_def drv'_def)
  have heads: "distinct ((in_used drv dev m @ pending dev m) @ [hd is])"
      "set ((in_used drv dev m @ pending dev m) @ [hd is]) = dom (outstanding drv')"
    using inv(6,7) fresh by (auto simp: drv'_def)
  have "length ((in_used drv dev m @ pending dev m) @ [hd is]) \<le> qn (drv_layout drv')"
    by (rule heads_bound [OF dinv heads(1)]) (use heads(2) in simp)
  then have "length ((in_used drv dev m @ pending dev m) @ [hd is]) \<le> qn ?l"
    by (simp add: drv'_def)
  then have cap: "unat (?i - next_avail dev) < qn ?l"
    using pending_length [of dev m] inv(1,4) by simp
  have "avail_load ?l m1 j = avail_load ?l m j" for j
    using slot_bytes_in_areas(1) [OF wf(1), of j] dis(1) area1 by (intro avail_load_frame [OF inv(2) off1]) blast
  then have "avail_queue.contents ?l m1 (next_avail dev) ?i = pending dev m"
    by (simp add: pending_def inv(1,4) avail_queue.contents_def)
  then have pend: "pending dev m' = pending dev m @ [hd is]"
    using published_contents [OF q1 cap, of "hd is"] p(3) by (simp add: pending_def inv(1) m'_def)
  have ucount: "used_count ?l m' = used_count ?l m"
    using slot_bytes_in_areas(4) [OF wf(1)] dis by (intro get_u16_frame [OF wf(2) offda]) blast
  have keep: "stored m' ?l ps = stored m1 ?l ps" if "list_all (\<lambda>i. unat i < qn ?l) (map fst ps)" for ps
    using descs_bytes_in_area [OF that] dis(1) by (intro stored_frame [OF q1 offa]) blast
  have st': "stored m' ?l (zip is bs)"
    using keep [of "zip is bs"] idx add(2) st by simp
  have other: "stored m' ?l (zip js bs')"
    if "stored m ?l (zip js bs')" "length js = length bs'" "outstanding drv (hd js) = Some js" for js bs'
  proof -
    have "set js \<inter> set is = {}"
      using driver_invD(3) [OF inv(3) that(3)] add(1) by auto
    then have "descs_bytes ?l (map fst (zip js bs')) \<inter> descs_bytes ?l is = {}"
      using descs_bytes_disjoint that(2) by simp
    then have "stored m1 ?l (zip js bs')"
      using stored_frame [OF inv(2) off1] that(1) by blast
    moreover have "list_all (\<lambda>i. unat i < qn ?l) (map fst (zip js bs'))"
      using driver_inv_index(2) [OF inv(3) that(3)] that(2) by (simp add: list_all_iff)
    ultimately show ?thesis using keep by blast
  qed
  have "chains_stored ?l m' (outstanding drv')"
    unfolding chains_stored_def
  proof (intro allI impI)
    fix h js assume o: "outstanding drv' h = Some js"
    show "\<exists>bs. length bs = length js \<and> good_buffers ?l bs \<and> stored m' ?l (zip js bs)"
    proof (cases "h = hd is")
      case True
      then have "js = is" using o by (simp add: drv'_def)
      then show ?thesis using add(2) assms(2) st' by (intro exI [of _ bs]) simp
    next
      case False
      then have o': "outstanding drv h = Some js" using o by (simp add: drv'_def)
      then obtain bs' where "length bs' = length js" "good_buffers ?l bs'" "stored m ?l (zip js bs')"
        using inv(8) unfolding chains_stored_def by blast
      moreover have "hd js = h" using driver_invD(3) [OF inv(3) o'] by blast
      ultimately show ?thesis using other [of js bs'] o' by auto
    qed
  qed
  then have "queue_inv drv' dev m'"
    using inv(1,5) p(2,3) dinv us ucount pend heads unfolding queue_inv_def by (simp add: drv'_def)
  moreover have "add_chain drv m bs = (Ok (hd is), drv', m')"
    using add(3) by (simp add: drv'_def m'_def)
  moreover have "free_descs drv = free_descs drv' @ rev is"
    using add(1) by (simp add: drv'_def)
  moreover have "outstanding drv' = (outstanding drv)(hd is \<mapsto> is)"
      "drv' = drv\<lparr>free_descs := free_descs drv', outstanding := outstanding drv',
        drv_avail_idx := drv_avail_idx drv + 1\<rparr>"
    by (simp_all add: drv'_def)
  ultimately show ?thesis
    using that pend us fresh add(2) st' other off by blast
qed

section \<open>Serving a stored chain\<close>

lemma free_all:
  assumes "driver_inv d" "outstanding d = Map.empty"
  shows "length (free_descs d) = qn (drv_layout d)"
proof -
  have "set (map unat (free_descs d)) = {..<qn (drv_layout d)}"
  proof
    show "set (map unat (free_descs d)) \<subseteq> {..<qn (drv_layout d)}"
      using driver_inv_index(1) [OF assms(1)] by auto
    show "{..<qn (drv_layout d)} \<subseteq> set (map unat (free_descs d))"
    proof
      fix k assume k: "k \<in> {..<qn (drv_layout d)}"
      then have "k < 65536" by (auto intro: less_trans [OF _ unat_u16_lt])
      then have "unat (word_of_nat k :: u16) = k" by (rule unat_of_nat_u16)
      then have "word_of_nat k \<in> set (free_descs d)"
        using driver_invD(5) [OF assms(1)] assms(2) k by (simp add: word_less_nat_alt)
      then show "k \<in> set (map unat (free_descs d))"
        using \<open>unat (word_of_nat k :: u16) = k\<close> by force
    qed
  qed
  moreover have "distinct (map unat (free_descs d))"
    using driver_invD(2) [OF assms(1)] by (simp add: distinct_map inj_on_def word_unat_eq_iff)
  ultimately show ?thesis
    using distinct_card [of "map unat (free_descs d)"] by simp
qed

text \<open>Serving a chain that the driver stored: the work function gets the readable buffers, its answer fills
  the writable ones, and the statistics count both.\<close>

abbreviation reply_len :: "Buffer list \<Rightarrow> u8 list \<Rightarrow> u32" where
  "reply_len bs response \<equiv> word_of_nat (min (ref_total (reply_refs bs)) (length response))"

definition filled :: "SharedMem \<Rightarrow> Buffer list \<Rightarrow> u8 list \<Rightarrow> u8 list" where
  "filled m bs response =
     take (ref_total (reply_refs bs)) response @ drop (length response) (bytes_of m (reply_refs bs))"

definition count_served :: "SharedMem \<Rightarrow> u16 \<Rightarrow> Buffer list \<Rightarrow> u8 list \<Rightarrow> ProcessStats \<Rightarrow> ProcessStats" where
  "count_served m h bs response st =
     st\<lparr>st_descriptors := st_descriptors st + of_nat (length bs),
       st_rejected := st_rejected st @ concat (map (read_errors m h) (request_refs bs)),
       st_bytes_read := st_bytes_read st + of_nat (length (bytes_of m (request_refs bs))),
       st_bytes_written := st_bytes_written st + ucast (reply_len bs response), st_chains := st_chains st + 1\<rparr>"

lemma serve_stored:
  assumes "queue_in (dev_layout d) m" "stored m (dev_layout d) (zip is bs)" "length is = length bs"
    and "good_buffers (dev_layout d) bs" "length is \<le> qn (dev_layout d)"
    and "refs_in m (reply_refs bs)" "refs_disjoint (reply_refs bs)"
    and "work w (bytes_of m (request_refs bs)) = (response, w')"
  obtains m1 where
    "serve_chain work (hd is) d m w st =
      (Ok (), d\<lparr>next_used := next_used d + 1, num_added := num_added d + 1\<rparr>,
       completed d m1 (hd is) (reply_len bs response), w', count_served m (hd is) bs response st)"
    "same_off (refs_bytes (reply_refs bs)) m m1" "queue_in (dev_layout d) m1"
    "bytes_of m1 (reply_refs bs) = filled m bs response"
proof -
  let ?r = "reply_refs bs" and ?h = "hd is"
  note wf = queue_inD [OF assms(1)]
  have snd: "map snd (zip is bs) = bs" using assms(3) by simp
  note walk = stored_walk(1) [OF assms(2-5)]
  have total: "ref_total ?r < 2 ^ 32"
    using le_less_trans [OF ref_total_le_total_len] walk refs_chain_descs(2) [of "zip is bs"] snd
    by (metis acceptable_def chain_walk_Inr_iff valid_chain_def)
  let ?st1 = "st\<lparr>st_descriptors := st_descriptors st + of_nat (length (chain_descs (zip is bs))),
      st_rejected := st_rejected st @ concat (map (read_errors m ?h) (request_refs bs)),
      st_bytes_read := st_bytes_read st + of_nat (length (bytes_of m (request_refs bs)))\<rparr>"
  obtain m1 where sc: "scatter m ?h ?r response 0 0 ?st1 = (m1, reply_len bs response, ?st1)"
      and bytes: "bytes_of m1 ?r = filled m bs response"
    using scatter_content [OF wf(2) assms(6,7), of 0 0 response ?h ?st1] total
    by (auto simp: filled_def)
  have off: "same_off (refs_bytes ?r) m m1" by (rule scatter_off [OF wf(2) sc])
  have n: "length (chain_descs (zip is bs)) = length bs" using assms(3) by simp
  have "serve_chain work ?h d m w st =
      (Ok (), d\<lparr>next_used := next_used d + 1, num_added := num_added d + 1\<rparr>,
       completed d m1 ?h (reply_len bs response), w', count_served m ?h bs response st)"
    using serve_chain_accepts [where st = st and d = d and work = work, OF assms(1) walk, of w response w' m1
        "reply_len bs response" ?st1] sc assms(8) refs_chain_descs [of "zip is bs"] snd n
    by (simp add: count_served_def)
  with that off bytes assms(1) show ?thesis
    using queue_in_same_off [OF off] by simp
qed

section \<open>Starting up\<close>

lemma get_u16_new: "len < 2 ^ 63 \<Longrightarrow> get_u16 (mem_new len) a = 0"
proof -
  assume "len < 2 ^ 63"
  then have wf: "mem_wf (mem_new len)" by (simp add: mem_wf_def mem_new_def)
  have z: "le_val (replicate n 0) = 0" for n by (induction n) auto
  have "window (unat a) 2 (replicate len (0 :: u8)) = replicate (min 2 (len - unat a)) 0"
    by (simp add: window_def min.commute)
  then have "of_le_bytes (window (unat a) 2 (buf (mem_new len))) = (0 :: u16)"
    by (simp add: mem_new_def of_le_bytes_def z)
  then show ?thesis
    by (simp add: get_u16_def read_u16_eq wf)
qed

lemma queue_in_new:
  "layout_wf l \<Longrightarrow> len < 2 ^ 63 \<Longrightarrow> unat (layout_end l) \<le> len \<Longrightarrow> queue_in l (mem_new len)"
  by (simp add: queue_in_def mem_wf_def mem_new_def total_size_at)

lemma queue_inv_init:
  assumes "layout_wf l" "len < 2 ^ 63" "unat (layout_end l) \<le> len"
  shows "queue_inv (driver_new l lim ev) (device_new l ev') (mem_new len)"
proof -
  have "pending (device_new l ev') (mem_new len) = []"
    by (simp add: pending_Nil_iff device_new_def get_u16_new [OF assms(2)])
  moreover have "in_used (driver_new l lim ev) (device_new l ev') (mem_new len) = []"
    by (simp add: in_used_def used_queue.contents_Nil_iff driver_new_def device_new_def)
  ultimately show ?thesis
    using queue_in_new [OF assms] driver_new_inv [OF assms(1), of lim ev]
    by (simp add: queue_inv_def driver_new_def device_new_def get_u16_new [OF assms(2)] chains_stored_def)
qed

section \<open>The queue as a transition system\<close>

text \<open>
  One call of either side, or one store of the guest to memory outside the queue. A failing call
  keeps the state that the call left.
\<close>

type_synonym queue_state = "Driver \<times> Device \<times> SharedMem"

inductive queue_step :: "('w \<Rightarrow> u8 list \<Rightarrow> u8 list \<times> 'w) \<Rightarrow> queue_state \<Rightarrow> queue_state \<Rightarrow> bool"
  for work :: "'w \<Rightarrow> u8 list \<Rightarrow> u8 list \<times> 'w" where
  publish: "good_buffers (drv_layout drv) bs \<Longrightarrow> add_chain drv m bs = (r, drv', m') \<Longrightarrow>
    queue_step work (drv, dev, m) (drv', dev, m')"
| kick: "needs_kick drv m = (b, drv') \<Longrightarrow> queue_step work (drv, dev, m) (drv', dev, m)"
| arm: "arm_used_event drv m = Inr m' \<Longrightarrow> queue_step work (drv, dev, m) (drv, dev, m')"
| collect: "collect_used drv m = (cs, drv') \<Longrightarrow> queue_step work (drv, dev, m) (drv', dev, m)"
| alloc_uninit: "alloc_uninit drv len = (p, drv') \<Longrightarrow> queue_step work (drv, dev, m) (drv', dev, m)"
| alloc: "length data < 2 ^ 63 \<Longrightarrow> alloc drv m data = (p, drv', m') \<Longrightarrow>
    queue_step work (drv, dev, m) (drv', dev, m')"
| serve: "process work dev m w st = Some (res, dev', m', w') \<Longrightarrow>
    queue_step work (drv, dev, m) (drv, dev', m')"
| notify: "needs_notification dev m = (b, dev') \<Longrightarrow> queue_step work (drv, dev, m) (drv, dev', m)"
| enable: "enable_notification dev m = (b', m') \<Longrightarrow> queue_step work (drv, dev, m) (drv, dev, m')"
| disable: "disable_notification dev m = Inr m' \<Longrightarrow> queue_step work (drv, dev, m) (drv, dev, m')"
| guest: "same_off S m m' \<Longrightarrow> S \<inter> queue_area (drv_layout drv) = {} \<Longrightarrow>
    queue_step work (drv, dev, m) (drv, dev, m')"

inductive queue_reachable :: "('w \<Rightarrow> u8 list \<Rightarrow> u8 list \<times> 'w) \<Rightarrow> queue_state \<Rightarrow> bool"
  for work :: "'w \<Rightarrow> u8 list \<Rightarrow> u8 list \<times> 'w" where
  start: "layout_wf l \<Longrightarrow> len < 2 ^ 63 \<Longrightarrow> unat (layout_end l) \<le> len \<Longrightarrow> unat lim \<le> len \<Longrightarrow>
    queue_reachable work (driver_new l lim ev, device_new l ev', mem_new len)"
| step: "queue_reachable work s \<Longrightarrow> queue_step work s s' \<Longrightarrow> queue_reachable work s'"

inductive_cases queue_stepE: "queue_step work (drv, dev, m) s'"

definition system_inv :: "queue_state \<Rightarrow> bool" where
  "system_inv s \<longleftrightarrow> (case s of (drv, dev, m) \<Rightarrow> queue_inv drv dev m \<and>
     unat (layout_end (drv_layout drv)) \<le> unat (arena drv) \<and> unat (arena_end drv) \<le> length (buf m))"

lemma system_inv_start:
  assumes "layout_wf l" "len < 2 ^ 63" "unat (layout_end l) \<le> len" "unat lim \<le> len"
  shows "system_inv (driver_new l lim ev, device_new l ev', mem_new len)"
proof -
  have "0 < unat (16 :: u64)" "unat (layout_end l) + unat (16 :: u64) < 2 ^ 64"
    using assms(2,3) by simp_all
  then have "unat (layout_end l) \<le> unat (next_multiple_of (layout_end l) 16)"
    by (rule next_multiple_of_bounds(1))
  then show ?thesis
    using queue_inv_init [OF assms(1-3), of lim ev ev'] assms(4)
    by (simp add: system_inv_def driver_new_def mem_new_def)
qed

lemma enable_notification_off:
  assumes "mem_wf m" "enable_notification dev m = (b, m')"
  shows "same_off (bytes_at (avail_event (dev_layout dev)) 2 \<union> bytes_at (used_flags (dev_layout dev)) 2) m m'"
proof -
  have "same_off (bytes_at a 2) m m1" if "write_u16 m a v = Inr m1" for a v m1
    using u16_cell.wr_frame [OF assms(1) that] .
  then show ?thesis
    using assms(2) by (auto simp: enable_notification_def Let_def intro: same_off_mono
        split: if_splits sum.splits)
qed

lemma disable_notification_off:
  "mem_wf m \<Longrightarrow> disable_notification dev m = Inr m' \<Longrightarrow>
    same_off (bytes_at (used_flags (dev_layout dev)) 2) m m'"
  using u16_cell.wr_frame [of m] by (auto simp: disable_notification_def split: if_splits sum.splits)

lemma live_disjointI:
  assumes "desc_area l \<inter> X = {}" "bytes_at (avail_idx l) 2 \<inter> X = {}" "bytes_at (used_idx l) 2 \<inter> X = {}"
    "\<And>i. avail_slot_bytes l i \<inter> X = {}" "\<And>i. used_slot_bytes l i \<inter> X = {}"
  shows "live_area l \<inter> X = {}"
  using assms unfolding live_area_def by blast

lemma subset_disjoint: "A \<subseteq> C \<Longrightarrow> B \<subseteq> D \<Longrightarrow> C \<inter> D = {} \<Longrightarrow> A \<inter> B = {}"
  by blast

lemma thresholds_not_live:
  assumes "layout_wf l"
  shows "live_area l \<inter> bytes_at (used_event l) 2 = {}" "live_area l \<inter> bytes_at (avail_event l) 2 = {}"
    "live_area l \<inter> bytes_at (used_flags l) 2 = {}"
proof -
  note b = layout_wf_bounds [OF assms] and s = slot_bytes_in_areas [OF assms]
    and d = slot_bytes_disjoint(3-) [OF assms] and a = areas_disjoint [OF assms]
  have f: "bytes_at (used_flags l) 2 \<inter> used_slot_bytes l i = {}" "bytes_at (used_flags l) 2 \<inter> bytes_at (used_idx l) 2 = {}" for i
    using b by (auto simp: bytes_at_def used_flags_def used_slot_bytes_def Let_def layout_bounds assms)
  have avail: "desc_area l \<inter> X = {}" "bytes_at (used_idx l) 2 \<inter> X = {}" "used_slot_bytes l i \<inter> X = {}"
    if "X \<subseteq> avail_area l" for X i
    using subset_disjoint [OF subset_refl that a(1)]
      subset_disjoint [OF s(4) that] subset_disjoint [OF s(2) that] a(3) by (simp_all add: Int_commute)
  have used: "desc_area l \<inter> X = {}" "bytes_at (avail_idx l) 2 \<inter> X = {}" "avail_slot_bytes l i \<inter> X = {}"
    if "X \<subseteq> used_area l" for X i
    using subset_disjoint [OF subset_refl that a(2)]
      subset_disjoint [OF s(3) that a(3)] subset_disjoint [OF s(1) that a(3)] by simp_all
  show "live_area l \<inter> bytes_at (used_event l) 2 = {}"
    by (rule live_disjointI) (use avail [OF s(5)] d in \<open>simp_all add: Int_commute\<close>)
  show "live_area l \<inter> bytes_at (avail_event l) 2 = {}"
    by (rule live_disjointI) (use used [OF s(6)] d in \<open>simp_all add: Int_commute\<close>)
  show "live_area l \<inter> bytes_at (used_flags l) 2 = {}"
    by (rule live_disjointI) (use used [OF s(8)] f in \<open>simp_all add: Int_commute\<close>)
qed

lemma add_chain_unchanged:
  assumes "bs \<noteq> []" "length (free_descs drv) < length bs"
  shows "add_chain drv m bs = (Err OutOfDescriptors, drv, m)"
  using assms by (simp add: add_chain_def)

lemma alloc_uninit_frame:
  assumes "alloc_uninit drv len = (p, drv')" "unat (arena_end drv) < 2 ^ 63"
  shows "\<exists>a. drv' = drv\<lparr>arena := a\<rparr> \<and> unat (arena drv) \<le> unat a"
proof (cases p)
  case None
  then have "drv' = drv"
    using assms(1) by (auto simp: alloc_uninit_def split: option.splits if_splits)
  then show ?thesis by (intro exI [of _ "arena drv"]) simp
next
  case (Some x)
  then show ?thesis
    using alloc_uninit_bounds [of drv len x drv'] assms
    by (metis add_leD1)
qed

text \<open>\<^verbatim>\<open>Driver::alloc\<close> writes the arena only, which begins after the queue.\<close>

lemma alloc_frame:
  assumes "alloc drv m data = (p, drv', m')" "length data < 2 ^ 63" "unat (arena_end drv) < 2 ^ 63"
    "queue_in (drv_layout drv) m" "unat (layout_end (drv_layout drv)) \<le> unat (arena drv)"
  obtains S a where "same_off S m m'" "S \<inter> queue_area (drv_layout drv) = {}"
    "drv' = drv\<lparr>arena := a\<rparr>" "unat (arena drv) \<le> unat a"
proof -
  obtain p1 where p1: "alloc_uninit drv (word_of_nat (length data)) = (p1, drv')"
    using assms(1) by (auto simp: alloc_def split: prod.splits option.splits sum.splits)
  obtain a where a: "drv' = drv\<lparr>arena := a\<rparr>" "unat (arena drv) \<le> unat a"
    using alloc_uninit_frame [OF p1 assms(3)] by blast
  have "m' = m \<or> (\<exists>x. p1 = Some x \<and> write_slice m x data = Inr m')"
    using assms(1) p1 by (auto simp: alloc_def split: option.splits sum.splits)
  then show ?thesis
  proof
    assume "m' = m"
    then show ?thesis using that [of "{}" a] a by simp
  next
    assume "\<exists>x. p1 = Some x \<and> write_slice m x data = Inr m'"
    then obtain x where x: "p1 = Some x" "write_slice m x data = Inr m'" by blast
    have "length data < 2 ^ 64" using assms(2) by simp
    note off = write_slice_same_off [OF queue_inD(2) [OF assms(4)] this x(2)]
    have "x = arena drv"
      using alloc_uninit_bounds(1) [of drv "word_of_nat (length data)" x drv'] p1 x(1) assms(3) by simp
    then have "bytes_at x (length data) \<inter> queue_area (drv_layout drv) = {}"
      using assms(5) queue_inD(1) [OF assms(4)] by (auto simp: bytes_at_def queue_area_def total_size_at)
    then show ?thesis using that off a by blast
  qed
qed

lemma system_inv_step:
  assumes "queue_step work s s'" "system_inv s"
  shows "system_inv s'"
  using assms
proof (induction rule: queue_step.induct)
  case (publish drv bs m r drv' m' dev)
  then have inv: "queue_inv drv dev m" and ar: "unat (layout_end (drv_layout drv)) \<le> unat (arena drv)"
      "unat (arena_end drv) \<le> length (buf m)"
    by (simp_all add: system_inv_def)
  show ?case
  proof (cases "length bs \<le> length (free_descs drv)")
    case True
    obtain "is" drv1 m1 where add: "add_chain drv m bs = (Ok (hd is), drv1, m1)" "queue_inv drv1 dev m1"
        "drv1 = drv\<lparr>free_descs := free_descs drv1, outstanding := outstanding drv1,
          drv_avail_idx := drv_avail_idx drv + 1\<rparr>"
        and off: "same_off (desc_area (drv_layout drv) \<union> avail_slot_bytes (drv_layout drv) (drv_avail_idx drv) \<union>
          bytes_at (avail_idx (drv_layout drv)) 2) m m1"
      using queue_inv_add_chain [OF inv publish(1) True] by metis
    have "drv_layout drv1 = drv_layout drv" "arena drv1 = arena drv" "arena_end drv1 = arena_end drv"
      by (subst add(3), simp)+
    then show ?thesis
      using add(1,2) publish(2) ar same_off_length [OF off] by (simp add: system_inv_def)
  next
    case False
    then show ?thesis
      using publish add_chain_unchanged [of bs drv m] by (auto simp: good_buffers_def)
  qed
next
  case (kick drv m b drv' dev)
  then have "drv' = drv\<lparr>last_kick := drv_avail_idx drv\<rparr>"
    by (auto simp: needs_kick_def Let_def split: if_splits sum.splits)
  then show ?case
    using kick(2) queue_inv_cong [of drv dev m drv' dev] by (simp add: system_inv_def)
next
  case (arm drv m m' dev)
  then have inv: "queue_inv drv dev m" by (simp add: system_inv_def)
  note wf = queue_inD [OF queue_invD(2) [OF inv]]
  have off: "same_off (bytes_at (used_event (drv_layout drv)) 2) m m'"
    using u16_cell.wr_frame [OF wf(2)] arm(1) by (simp add: arm_used_event_def)
  show ?case
    using queue_inv_frame_live [OF inv off thresholds_not_live(1) [OF wf(1)]] arm(2) same_off_length [OF off]
    by (simp add: system_inv_def)
next
  case (collect drv m cs drv' dev)
  then have inv: "queue_inv drv dev m" by (simp add: system_inv_def)
  have eq: "drv' = (foldl release drv (in_used drv dev m))\<lparr>last_used := next_used dev\<rparr>"
    using queue_inv_collect(1) [OF inv] collect(1) by simp
  have "arena drv' = arena drv" "arena_end drv' = arena_end drv" "drv_layout drv' = drv_layout drv"
    by (simp_all add: eq)
  then show ?case
    using queue_inv_collect(2) [OF inv] collect(2) eq by (simp add: system_inv_def)
next
  case (alloc_uninit drv len p drv' dev m)
  then have inv: "queue_inv drv dev m" by (simp add: system_inv_def)
  have "unat (arena_end drv) < 2 ^ 63"
    using alloc_uninit(2) queue_inD(2) [OF queue_invD(2) [OF inv]] by (simp add: system_inv_def mem_wf_def)
  then obtain a where "drv' = drv\<lparr>arena := a\<rparr>" "unat (arena drv) \<le> unat a"
    using alloc_uninit_frame [OF alloc_uninit(1)] by blast
  then show ?case
    using alloc_uninit(2) queue_inv_cong [of drv dev m drv' dev] by (simp add: system_inv_def)
next
  case (alloc data drv m p drv' m' dev)
  then have inv: "queue_inv drv dev m" and ar: "unat (layout_end (drv_layout drv)) \<le> unat (arena drv)"
      "unat (arena_end drv) \<le> length (buf m)"
    by (simp_all add: system_inv_def)
  have "unat (arena_end drv) < 2 ^ 63"
    using ar(2) queue_inD(2) [OF queue_invD(2) [OF inv]] by (simp add: mem_wf_def)
  then obtain S a where S: "same_off S m m'" "S \<inter> queue_area (drv_layout drv) = {}"
      "drv' = drv\<lparr>arena := a\<rparr>" "unat (arena drv) \<le> unat a"
    using alloc_frame [OF alloc(2,1) _ queue_invD(2) [OF inv] ar(1)] by blast
  show ?case
    using queue_inv_cong [OF queue_inv_frame [OF inv S(1,2)], of drv' dev] S ar same_off_length [OF S(1)]
    by (simp add: system_inv_def)
next
  case (serve dev m w st res dev' m' w' drv)
  then have inv: "queue_inv drv dev m" by (simp add: system_inv_def)
  obtain st2 m2 w2 where p: "process work dev m w st = Some (Ok st2, drained dev m, m2, w2)"
      "queue_inv drv (drained dev m) m2"
      and off: "same_off (all_writes m (drv_layout drv) (pending dev m) \<union> used_area (drv_layout drv)) m m2"
    using queue_inv_process [OF inv, of work w st] by metis
  show ?case
    using p serve same_off_length [OF off] by (simp add: system_inv_def)
next
  case (notify dev m b dev' drv)
  then have "dev' = dev \<or> dev' = dev\<lparr>num_added := 0\<rparr>"
    by (auto simp: needs_notification_def Let_def split: if_splits sum.splits)
  then show ?case
    using notify(2) queue_inv_cong [of drv dev m drv dev'] by (auto simp: system_inv_def)
next
  case (enable dev m b' m' drv)
  then have inv: "queue_inv drv dev m" by (simp add: system_inv_def)
  note wf = queue_inD [OF queue_invD(2) [OF inv]]
  note off = enable_notification_off [OF wf(2) enable(1)]
  show ?case
    using queue_inv_frame_live [OF inv off] thresholds_not_live(2,3) [OF wf(1)] queue_invD(1) [OF inv]
      enable(2) same_off_length [OF off] by (simp add: system_inv_def Int_Un_distrib)
next
  case (disable dev m m' drv)
  then have inv: "queue_inv drv dev m" by (simp add: system_inv_def)
  note wf = queue_inD [OF queue_invD(2) [OF inv]]
  show ?case
  proof (cases "dev_event_idx dev")
    case True
    then show ?thesis using disable by (simp add: disable_notification_def)
  next
    case False
    note off = disable_notification_off [OF wf(2) disable(1)]
    show ?thesis
      using queue_inv_frame_live [OF inv off] thresholds_not_live(3) [OF wf(1)] queue_invD(1) [OF inv]
        disable(2) same_off_length [OF off] by (simp add: system_inv_def)
  qed
next
  case (guest S m m' drv dev)
  then show ?case
    using queue_inv_frame [of drv dev m S m'] same_off_length [of S m m'] by (simp add: system_inv_def)
qed

lemma system_inv_reachable: "queue_reachable work s \<Longrightarrow> system_inv s"
  by (induction rule: queue_reachable.induct) (blast intro: system_inv_start system_inv_step)+

end
