(* ===== verification/VqBatch.thy ===== *)
theory VqBatch
  imports VqQueue
begin

text \<open>
  Several requests in flight. \<open>in_flight\<close> describes a queue to which a driver has published some
  requests since it was quiescent; it is kept by publishing and by writes outside the queue, and one
  call of \<^verbatim>\<open>Device::process\<close> answers all of them in order (\<open>requests_roundtrip\<close>).
\<close>

section \<open>Published requests\<close>

text \<open>The descriptors of a chain and the buffers they describe.\<close>

type_synonym flight = "u16 list \<times> Buffer list"

abbreviation flight_head :: "flight \<Rightarrow> u16" where
  "flight_head f \<equiv> hd (fst f)"

abbreviation flight_request :: "SharedMem \<Rightarrow> flight \<Rightarrow> u8 list" where
  "flight_request m f \<equiv> bytes_of m (request_refs (snd f))"

definition usable :: "VirtqLayout \<Rightarrow> SharedMem \<Rightarrow> Buffer list \<Rightarrow> bool" where
  "usable l m bs \<longleftrightarrow> good_buffers l bs \<and> refs_bytes (request_refs bs) \<inter> queue_area l = {} \<and>
     refs_in m (reply_refs bs) \<and> refs_disjoint (reply_refs bs)"

definition ready :: "VirtqLayout \<Rightarrow> SharedMem \<Rightarrow> flight \<Rightarrow> bool" where
  "ready l m f \<longleftrightarrow> stored m l (zip (fst f) (snd f)) \<and> length (fst f) = length (snd f) \<and>
     length (fst f) \<le> qn l \<and> usable l m (snd f)"

text \<open>No reply buffer of a request overlaps a buffer of a later one.\<close>

definition clear_of :: "Buffer list \<Rightarrow> Buffer list \<Rightarrow> bool" where
  "clear_of bs bs' \<longleftrightarrow> refs_bytes (reply_refs bs) \<inter> (refs_bytes (request_refs bs') \<union> refs_bytes (reply_refs bs')) = {}"

definition apart :: "flight list \<Rightarrow> bool" where
  "apart fs \<longleftrightarrow> sorted_wrt clear_of (map snd fs)"

lemma apart_simps [simp]:
  "apart []" "apart (f # fs) \<longleftrightarrow> (\<forall>f' \<in> set fs. clear_of (snd f) (snd f')) \<and> apart fs"
  "apart (fs @ [f]) \<longleftrightarrow> apart fs \<and> (\<forall>f' \<in> set fs. clear_of (snd f') (snd f))"
  by (auto simp: apart_def sorted_wrt_append)

text \<open>The answers of a work function to requests in order.\<close>

fun answers :: "('w \<Rightarrow> u8 list \<Rightarrow> u8 list \<times> 'w) \<Rightarrow> 'w \<Rightarrow> u8 list list \<Rightarrow> u8 list list \<times> 'w" where
  "answers work w [] = ([], w)"
| "answers work w (r # rs) =
     (let (a, w1) = work w r; (as, w2) = answers work w1 rs in (a # as, w2))"

lemma length_answers: "length (fst (answers work w rs)) = length rs"
  by (induction rs arbitrary: w) (simp_all add: Let_def case_prod_beta)

fun count_all :: "SharedMem \<Rightarrow> flight list \<Rightarrow> u8 list list \<Rightarrow> ProcessStats \<Rightarrow> ProcessStats" where
  "count_all m (f # fs) (a # as) st = count_all m fs as (count_served m (flight_head f) (snd f) a st)"
| "count_all m _ _ st = st"

abbreviation reply_lens :: "flight list \<Rightarrow> u8 list list \<Rightarrow> u32 list" where
  "reply_lens fs as \<equiv> map2 (\<lambda>f a. reply_len (snd f) a) fs as"

definition flight_writes :: "flight list \<Rightarrow> nat set" where
  "flight_writes fs = (\<Union>f \<in> set fs. refs_bytes (reply_refs (snd f)))"

lemma flight_writes_simps [simp]:
  "flight_writes [] = {}" "flight_writes (f # fs) = refs_bytes (reply_refs (snd f)) \<union> flight_writes fs"
  by (simp_all add: flight_writes_def)

lemma usable_outside:
  assumes "layout_wf l" "usable l m bs"
  shows "refs_bytes (request_refs bs) \<inter> used_area l = {}" "refs_bytes (reply_refs bs) \<inter> used_area l = {}"
    "refs_bytes (reply_refs bs) \<inter> queue_area l = {}" "refs_bytes (reply_refs bs) \<inter> desc_area l = {}"
  using assms(2) areas_disjoint(4) [OF assms(1)] unfolding usable_def good_buffers_def by blast+

lemma stored_indices: "stored m l ps \<Longrightarrow> list_all (\<lambda>i. unat i < qn l) (map fst ps)"
  by (induction ps rule: chain_descs.induct)
    (auto simp: table_def desc_def word_le_nat_alt split: if_splits)

lemma ready_frame:
  assumes "ready l m f" "queue_in l m" "same_off S m m'" "desc_area l \<inter> S = {}"
  shows "ready l m' f"
proof -
  have "descs_bytes l (map fst (zip (fst f) (snd f))) \<inter> S = {}"
    using descs_bytes_in_area [OF stored_indices] assms(1,4) unfolding ready_def by blast
  then show ?thesis
    using assms(1) stored_frame [OF assms(2,3)] refs_in_same_off [OF assms(3)] by (simp add: ready_def usable_def)
qed

lemma read_errors_frame:
  "mem_wf m \<Longrightarrow> same_off S m m' \<Longrightarrow> read_errors m' h = read_errors m h"
proof
  fix b assume wf: "mem_wf m" and off: "same_off S m m'"
  show "read_errors m' h b = read_errors m h b"
    using wf off same_off_wf [OF off] same_off_in_mem [OF off] same_off_mem_len [OF off]
    by (simp add: read_errors_def read_slice_eq)
qed

section \<open>One pass over all of them\<close>

lemma ready_writes:
  assumes "ready l m f"
  shows "writes m l (flight_head f) = refs_bytes (reply_refs (snd f))"
  using assms stored_walk(2) [of m l "fst f" "snd f"] by (simp add: ready_def usable_def)

lemma count_all_frame:
  assumes "mem_wf m" "same_off S m m'" "\<forall>f \<in> set fs. refs_bytes (request_refs (snd f)) \<inter> S = {}"
  shows "count_all m' fs as st = count_all m fs as st"
  using assms(3)
proof (induction fs as arbitrary: st rule: list_induct2')
  case (4 f fs a as)
  have "bytes_of m' (request_refs (snd f)) = bytes_of m (request_refs (snd f))"
    by (rule bytes_of_frame [OF assms(1,2)]) (use 4(2) in simp)
  then show ?case
    using 4 read_errors_frame [OF assms(1,2)] by (simp add: count_served_def)
qed simp_all

lemma filled_frame:
  "mem_wf m \<Longrightarrow> same_off S m m' \<Longrightarrow> refs_bytes (reply_refs bs) \<inter> S = {} \<Longrightarrow> filled m' bs a = filled m bs a"
  unfolding filled_def by (subst bytes_of_frame [of m S m']) simp_all

lemma clear_ofD:
  assumes "clear_of bs bs'"
  shows "refs_bytes (request_refs bs') \<inter> refs_bytes (reply_refs bs) = {}"
    "refs_bytes (reply_refs bs') \<inter> refs_bytes (reply_refs bs) = {}"
  using assms unfolding clear_of_def by blast+

lemma process_flight:
  assumes "queue_in (dev_layout d) m" "pending d m = map flight_head fs" "\<forall>f \<in> set fs. ready (dev_layout d) m f"
    and "apart fs" "answers work w (map (flight_request m) fs) = (as, w')"
  shows "\<exists>m'. process work d m w st = Some (Ok (count_all m fs as st), drained d m, m', w') \<and>
    same_off (flight_writes fs \<union> used_area (dev_layout d)) m m' \<and>
    map (\<lambda>f. bytes_of m' (reply_refs (snd f))) fs = map2 (\<lambda>f a. filled m (snd f) a) fs as \<and>
    (\<forall>u0. unat (next_used d - u0) + length fs \<le> qn (dev_layout d) \<longrightarrow>
      used_queue.contents (dev_layout d) m' u0 (next_used (drained d m)) =
        used_queue.contents (dev_layout d) m u0 (next_used d) @ zip (map (\<lambda>f. ucast (flight_head f)) fs) (reply_lens fs as))"
  using assms
proof (induction fs arbitrary: d m w st as)
  case Nil
  then show ?case
    using process_empty [OF Nil(1), of work w st] by (simp add: drained_def)
next
  case (Cons f fs)
  let ?l = "dev_layout d" and ?d1 = "d\<lparr>next_avail := next_avail d + 1\<rparr>" and ?h = "flight_head f" and ?bs = "snd f"
  let ?d2 = "?d1\<lparr>next_used := next_used d + 1, num_added := num_added d + 1\<rparr>"
  note q = Cons.prems(1) and wf = queue_inD [OF Cons.prems(1)]
  have p: "pending d m = ?h # map flight_head fs" using Cons.prems(2) by simp
  have rf: "ready ?l m f" and rfs: "\<forall>f' \<in> set fs. ready ?l m f'" using Cons.prems(3) by simp_all
  obtain a w1 as' where a: "work w (flight_request m f) = (a, w1)"
      "answers work w1 (map (flight_request m) fs) = (as', w')" "as = a # as'"
    using Cons.prems(5) by (auto simp: Let_def split: prod.splits)
  obtain m1 where s: "serve_chain work ?h ?d1 m w st =
        (Ok (), ?d2, completed ?d1 m1 ?h (reply_len ?bs a), w1, count_served m ?h ?bs a st)"
      "same_off (refs_bytes (reply_refs ?bs)) m m1" "queue_in ?l m1"
      "bytes_of m1 (reply_refs ?bs) = filled m ?bs a"
    by (rule serve_stored [of ?d1 m "fst f" ?bs work w a w1 st])
      (use rf q a in \<open>simp_all add: ready_def usable_def\<close>)
  let ?m2 = "completed ?d1 m1 ?h (reply_len ?bs a)"
  have offu: "same_off (used_area ?l) m1 ?m2" using completed_in_used_area [of ?d1 m1] s(3) by simp
  have off: "same_off (refs_bytes (reply_refs ?bs) \<union> used_area ?l) m ?m2"
    by (rule same_off_trans [OF s(2) offu])
  have q2: "queue_in ?l ?m2" using q queue_in_same_off [OF off] by simp
  have us: "usable ?l m (snd f')" if "f' \<in> set (f # fs)" for f'
    using Cons.prems(3) that unfolding ready_def by blast
  have "quiet d m"
    using Cons.prems(2,3) ready_writes usable_outside(3) [OF wf(1) us] by (auto simp: quiet_def list_all_iff)
  note step = quiet_step [OF q p this off [folded ready_writes [OF rf]], of ?d2]
  have p2: "pending ?d2 ?m2 = map flight_head fs" by (rule step) simp_all
  have dr: "drained ?d2 ?m2 = drained d m"
    unfolding drained_def p p2 by (simp add: Let_def algebra_simps)
  have clear: "refs_bytes (request_refs (snd f')) \<inter> (refs_bytes (reply_refs ?bs) \<union> used_area ?l) = {}"
      "refs_bytes (reply_refs (snd f')) \<inter> (refs_bytes (reply_refs ?bs) \<union> used_area ?l) = {}" if "f' \<in> set fs" for f'
    using clear_ofD [of ?bs "snd f'"] usable_outside(1,2) [OF wf(1) us, of f'] Cons.prems(4) that
    by (simp_all add: Int_Un_distrib)
  have "desc_area ?l \<inter> (refs_bytes (reply_refs ?bs) \<union> used_area ?l) = {}"
    using usable_outside(4) [OF wf(1) us, of f] areas_disjoint(2) [OF wf(1)] by auto
  then have r2: "\<forall>f' \<in> set fs. ready ?l ?m2 f'"
    using ready_frame [OF _ q off] rfs by blast
  have req2: "map (flight_request ?m2) fs = map (flight_request m) fs"
    using bytes_of_frame [OF wf(2) off clear(1)] by simp
  obtain m' where ih: "process work ?d2 ?m2 w1 (count_served m ?h ?bs a st) =
        Some (Ok (count_all ?m2 fs as' (count_served m ?h ?bs a st)), drained d m, m', w')"
      "same_off (flight_writes fs \<union> used_area ?l) ?m2 m'"
      "map (\<lambda>f. bytes_of m' (reply_refs (snd f))) fs = map2 (\<lambda>f a. filled ?m2 (snd f) a) fs as'"
      "\<forall>u0. unat (next_used d + 1 - u0) + length fs \<le> qn ?l \<longrightarrow>
        used_queue.contents ?l m' u0 (next_used (drained d m)) =
        used_queue.contents ?l ?m2 u0 (next_used d + 1) @ zip (map (\<lambda>f. ucast (flight_head f)) fs) (reply_lens fs as')"
    using Cons.IH [of ?d2 ?m2 w1 as' "count_served m ?h ?bs a st"] q2 p2 r2 Cons.prems(4) a(2) req2 dr by auto
  have stats: "count_all ?m2 fs as' st' = count_all m fs as' st'" for st'
    by (rule count_all_frame [OF wf(2) off]) (use clear(1) in blast)
  have fill: "map2 (\<lambda>f a. filled ?m2 (snd f) a) fs as' = map2 (\<lambda>f a. filled m (snd f) a) fs as'"
    using filled_frame [OF wf(2) off clear(2)] by (intro map_cong refl) (auto dest: set_zip_leftD)
  have "refs_bytes (reply_refs ?bs) \<inter> flight_writes fs = {}"
    using Cons.prems(4) clear_ofD(2) [of ?bs] by (fastforce simp: flight_writes_def)
  then have "bytes_of m' (reply_refs ?bs) = bytes_of ?m2 (reply_refs ?bs)"
    using usable_outside(2) [OF wf(1) us, of f]
    by (intro bytes_of_frame [OF queue_inD(2) [OF q2] ih(2)]) (simp add: Int_Un_distrib)
  also have "\<dots> = bytes_of m1 (reply_refs ?bs)"
    using usable_outside(2) [OF wf(1) us, of f] by (intro bytes_of_frame [OF queue_inD(2) [OF s(3)] offu]) simp
  finally have mine: "bytes_of m' (reply_refs ?bs) = filled m ?bs a" by (simp only: s(4))
  have cont: "used_queue.contents ?l m' u0 (next_used (drained d m)) =
      used_queue.contents ?l m u0 (next_used d) @
        zip (map (\<lambda>f. ucast (flight_head f)) (f # fs)) (reply_lens (f # fs) as)"
    if room: "unat (next_used d - u0) + length (f # fs) \<le> qn ?l" for u0
  proof -
    have "qn ?l \<le> 32768" using layout_wf_bounds [OF wf(1)] by simp
    then have "unat (next_used d + 1 - u0) = Suc (unat (next_used d - u0))"
      using room by (intro unat_diff_add_one) simp
    moreover have "used_queue.contents ?l ?m2 u0 (next_used d + 1) =
        used_queue.contents ?l m1 u0 (next_used d) @ [(ucast ?h, reply_len ?bs a)]"
      using completed_contents [of ?d1 m1 u0 ?h "reply_len ?bs a"] s(3) room by simp
    moreover have "used_queue.contents ?l m1 u0 (next_used d) = used_queue.contents ?l m u0 (next_used d)"
    proof (rule used_queue.contents_cong)
      fix k
      have "used_slot_bytes ?l (u0 + of_nat k) \<inter> refs_bytes (reply_refs ?bs) = {}"
        using usable_outside(2) [OF wf(1) us, of f] slot_bytes_in_areas(2) [OF wf(1), of "u0 + of_nat k"] by auto
      then show "used_load ?l m1 (u0 + of_nat k) = used_load ?l m (u0 + of_nat k)"
        by (rule used_load_frame [OF q s(2)])
    qed
    ultimately show ?thesis using ih(4) room a(3) by simp
  qed
  have run: "process work d m w st = Some (Ok (count_all m (f # fs) as st), drained d m, m', w')"
    using process_Cons [OF q p s(1)] ih(1) stats a(3) by simp
  have frame: "same_off (flight_writes (f # fs) \<union> used_area ?l) m m'"
    by (rule same_off_mono [OF same_off_trans [OF off ih(2)]]) auto
  show ?case
    by (intro exI [of _ m'] conjI) (use run frame mine ih(3) fill a(3) cont in simp_all)
qed

section \<open>Requests in flight\<close>

definition in_flight :: "Driver \<Rightarrow> Device \<Rightarrow> SharedMem \<Rightarrow> flight list \<Rightarrow> bool" where
  "in_flight drv dev m fs \<longleftrightarrow> queue_inv drv dev m \<and> in_used drv dev m = [] \<and>
     pending dev m = map flight_head fs \<and> apart fs \<and>
     (\<forall>f \<in> set fs. ready (drv_layout drv) m f \<and> outstanding drv (flight_head f) = Some (fst f)) \<and>
     length (free_descs drv) + sum_list (map (length \<circ> fst) fs) = qn (drv_layout drv)"

lemma in_flightD:
  assumes "in_flight drv dev m fs"
  shows "queue_inv drv dev m" "in_used drv dev m = []" "pending dev m = map flight_head fs" "apart fs"
    "f \<in> set fs \<Longrightarrow> ready (drv_layout drv) m f" "f \<in> set fs \<Longrightarrow> outstanding drv (flight_head f) = Some (fst f)"
    "length (free_descs drv) + sum_list (map (length \<circ> fst) fs) = qn (drv_layout drv)"
  using assms by (simp_all add: in_flight_def)

lemma in_flight_start:
  assumes "queue_inv drv dev m" "outstanding drv = Map.empty"
  shows "in_flight drv dev m []"
  using assms queue_invD(7) [OF assms(1)] free_all [OF queue_invD(3) [OF assms(1)] assms(2)]
  by (simp add: in_flight_def)

text \<open>Writes outside the queue, such as the driver's to its arena, leave the requests in flight.\<close>

lemma in_flight_frame:
  assumes "in_flight drv dev m fs" "same_off S m m'" "S \<inter> queue_area (drv_layout drv) = {}"
  shows "in_flight (drv\<lparr>arena := a\<rparr>) dev m' fs"
proof -
  let ?l = "drv_layout drv"
  note f = in_flightD [OF assms(1)] and i = queue_invD [OF in_flightD(1) [OF assms(1)]]
  note wf = queue_inD [OF i(2)]
  have inv: "queue_inv (drv\<lparr>arena := a\<rparr>) dev m'"
    by (rule queue_inv_cong [OF queue_inv_frame [OF f(1) assms(2,3)]]) simp_all
  have dis: "avail_area ?l \<inter> S = {}" "used_area ?l \<inter> S = {}" "desc_area ?l \<inter> S = {}"
    using assms(3) areas_disjoint(4) [OF wf(1)] by blast+
  have "pending dev m' = pending dev m"
    by (rule pending_frame [of dev m S m' dev]) (use i(1,2) assms(2) dis(1) in simp_all)
  moreover have "used_load ?l m' j = used_load ?l m j" for j
    using slot_bytes_in_areas(2) [OF wf(1), of j] dis(2) by (intro used_load_frame [OF i(2) assms(2)]) blast
  then have "in_used (drv\<lparr>arena := a\<rparr>) dev m' = in_used drv dev m"
    by (simp add: in_used_def used_queue.contents_def)
  ultimately show ?thesis
    using f inv ready_frame [OF f(5) i(2) assms(2) dis(3)] by (simp add: in_flight_def)
qed

lemma in_flight_add:
  assumes "in_flight drv dev m fs" "usable (drv_layout drv) m bs" "length bs \<le> length (free_descs drv)"
    and "\<forall>f \<in> set fs. clear_of (snd f) bs"
  obtains "is" drv' m' where
    "add_chain drv m bs = (Ok (hd is), drv', m')" "in_flight drv' dev m' (fs @ [(is, bs)])"
    "free_descs drv = free_descs drv' @ rev is" "length is = length bs"
    "drv' = drv\<lparr>free_descs := free_descs drv', outstanding := outstanding drv',
       drv_avail_idx := drv_avail_idx drv + 1\<rparr>"
    "same_off (live_area (drv_layout drv)) m m'"
proof -
  let ?l = "drv_layout drv"
  note f = in_flightD [OF assms(1)] and i = queue_invD [OF in_flightD(1) [OF assms(1)]]
  note wf = queue_inD [OF i(2)]
  have good: "good_buffers ?l bs" using assms(2) by (simp add: usable_def)
  obtain "is" drv' m' where add: "add_chain drv m bs = (Ok (hd is), drv', m')" "queue_inv drv' dev m'"
      "pending dev m' = pending dev m @ [hd is]" "in_used drv' dev m' = in_used drv dev m"
      "outstanding drv (hd is) = None" "outstanding drv' = (outstanding drv)(hd is \<mapsto> is)" "length is = length bs"
      "free_descs drv = free_descs drv' @ rev is"
      "drv' = drv\<lparr>free_descs := free_descs drv', outstanding := outstanding drv',
         drv_avail_idx := drv_avail_idx drv + 1\<rparr>"
      "stored m' ?l (zip is bs)"
      "\<forall>js bs'. stored m ?l (zip js bs') \<longrightarrow> length js = length bs' \<longrightarrow>
         outstanding drv (hd js) = Some js \<longrightarrow> stored m' ?l (zip js bs')"
      and off: "same_off (desc_area ?l \<union> avail_slot_bytes ?l (drv_avail_idx drv) \<union> bytes_at (avail_idx ?l) 2) m m'"
    by (rule queue_inv_add_chain [OF f(1) good assms(3)])
  have lay: "drv_layout drv' = ?l" by (subst add(9)) simp
  have live: "same_off (live_area ?l) m m'"
    by (rule same_off_mono [OF off]) (auto simp: live_area_def)
  have us: "usable ?l m' bs' = usable ?l m bs'" for bs'
    using refs_in_same_off [OF off] by (simp add: usable_def)
  have old: "ready ?l m' g \<and> outstanding drv' (flight_head g) = Some (fst g)" if g: "g \<in> set fs" for g
  proof
    show "ready ?l m' g"
      using f(5) [OF g] add(11) f(6) [OF g] us by (simp add: ready_def)
    have "flight_head g \<noteq> hd is" using f(6) [OF g] add(5) by auto
    then show "outstanding drv' (flight_head g) = Some (fst g)" using f(6) [OF g] add(6) by simp
  qed
  have "length is \<le> qn ?l"
    using f(7) assms(3) add(7) by simp
  then have new: "ready ?l m' (is, bs)"
    using add(7,10) us assms(2) by (simp add: ready_def)
  have "in_flight drv' dev m' (fs @ [(is, bs)])"
    using add(2,3,4,6) f(2,3,4,7) old new assms(4) add(8) by (simp add: in_flight_def lay)
  with that add(1,7,8,9) live show ?thesis by blast
qed

text \<open>One pass of the device and one of the driver finish everything in flight.\<close>

lemma in_flight_done:
  assumes "in_flight drv dev m fs" "answers work w (map (flight_request m) fs) = (as, w')"
  obtains m' drv' where
    "process work dev m w st = Some (Ok (count_all m fs as st), drained dev m, m', w')"
    "same_off (flight_writes fs \<union> used_area (drv_layout drv)) m m'"
    "map (\<lambda>f. bytes_of m' (reply_refs (snd f))) fs = map2 (\<lambda>f a. filled m (snd f) a) fs as"
    "collect_used drv m' = (Ok (zip (map flight_head fs) (reply_lens fs as)), drv')"
    "in_flight drv' (drained dev m) m' []" "outstanding drv' = Map.empty"
    "drv' = drv\<lparr>free_descs := free_descs drv', outstanding := Map.empty, last_used := last_used drv'\<rparr>"
proof -
  let ?l = "drv_layout drv" and ?dev = "drained dev m"
  note f = in_flightD [OF assms(1)] and i = queue_invD [OF in_flightD(1) [OF assms(1)]]
  have lay: "dev_layout dev = ?l" by (rule i(1))
  obtain m' where p: "process work dev m w st = Some (Ok (count_all m fs as st), ?dev, m', w')"
      "same_off (flight_writes fs \<union> used_area ?l) m m'"
      "map (\<lambda>f. bytes_of m' (reply_refs (snd f))) fs = map2 (\<lambda>f a. filled m (snd f) a) fs as"
      "\<forall>u0. unat (next_used dev - u0) + length fs \<le> qn ?l \<longrightarrow>
        used_queue.contents ?l m' u0 (next_used ?dev) =
        used_queue.contents ?l m u0 (next_used dev) @ zip (map (\<lambda>f. ucast (flight_head f)) fs) (reply_lens fs as)"
    using process_flight [of dev m fs work w as w' st] f i(2) assms(2) lay by auto
  have inv: "queue_inv drv ?dev m'" and idle: "pending ?dev m' = []"
    by (rule queue_inv_process [OF f(1), of work w st]; use p(1) in simp)+
  note f' = queue_invD [OF inv]
  have even: "next_used dev = last_used drv"
    using f(2) by (simp add: in_used_def used_queue.contents_Nil_iff)
  have "length (pending dev m) \<le> qn ?l"
    using i(6,7) f(2) by (intro heads_bound [OF i(3)]) auto
  then have n: "length fs \<le> qn ?l" by (simp add: f(3))
  have cont: "used_queue.contents ?l m' (last_used drv) (next_used ?dev) =
      zip (map (\<lambda>f. ucast (flight_head f)) fs) (reply_lens fs as)"
    using p(4) n by (simp add: even used_queue.contents_def)
  let ?hs = "map flight_head fs"
  have len: "length as = length fs" using length_answers [of work w "map (flight_request m) fs"] assms(2) by simp
  have cs: "map completion (used_queue.contents ?l m' (last_used drv) (next_used ?dev)) = zip ?hs (reply_lens fs as)"
    unfolding cont by (rule nth_equalityI) (simp_all add: len)
  have us: "in_used drv ?dev m' = ?hs"
    unfolding in_used_def cont by (rule nth_equalityI) (simp_all add: len)
  let ?drv = "(foldl release drv ?hs)\<lparr>last_used := next_used ?dev\<rparr>"
  have collect: "collect_used drv m' = (Ok (zip ?hs (reply_lens fs as)), ?drv)" and inv2: "queue_inv ?drv ?dev m'"
    using queue_inv_collect [OF inv] unfolding cs us by simp_all
  have out: "outstanding ?drv = Map.empty"
    using collect_all_outstanding [OF inv idle] by (simp add: us)
  have "?drv = drv\<lparr>free_descs := free_descs ?drv, outstanding := Map.empty, last_used := last_used ?drv\<rparr>"
    using out by (intro Driver.equality) simp_all
  with that [OF p(1-3) collect in_flight_start [OF inv2 out] out] show ?thesis by blast
qed

section \<open>There and back\<close>

text \<open>A driver that publishes one chain after the other: the heads it gets.\<close>

fun add_chains :: "Driver \<Rightarrow> SharedMem \<Rightarrow> Buffer list list \<Rightarrow> (u16 list \<times> Driver \<times> SharedMem) option" where
  "add_chains d m [] = Some ([], d, m)"
| "add_chains d m (bs # bss) =
     (case add_chain d m bs of
        (Ok h, d1, m1) \<Rightarrow>
          (case add_chains d1 m1 bss of None \<Rightarrow> None | Some (hs, d2, m2) \<Rightarrow> Some (h # hs, d2, m2))
      | _ \<Rightarrow> None)"

lemma usable_same_off: "same_off S m m' \<Longrightarrow> usable l m' bs = usable l m bs"
  by (simp add: usable_def refs_in_same_off)

lemma add_chains_in_flight:
  assumes "in_flight drv dev m fs" "\<forall>bs \<in> set bss. usable (drv_layout drv) m bs"
    and "sorted_wrt clear_of (map snd fs @ bss)" "sum_list (map length bss) \<le> length (free_descs drv)"
  shows "\<exists>gs drv' m'. add_chains drv m bss = Some (map flight_head gs, drv', m') \<and>
    in_flight drv' dev m' (fs @ gs) \<and> map snd gs = bss \<and> drv_layout drv' = drv_layout drv \<and>
    same_off (live_area (drv_layout drv)) m m'"
  using assms
proof (induction bss arbitrary: drv m fs)
  case Nil
  then show ?case by simp
next
  case (Cons bs bss)
  have u: "usable (drv_layout drv) m bs" "length bs \<le> length (free_descs drv)" "\<forall>f \<in> set fs. clear_of (snd f) bs"
    using Cons.prems by (auto simp: sorted_wrt_append)
  obtain "is" drv1 m1 where add: "add_chain drv m bs = (Ok (hd is), drv1, m1)"
      "in_flight drv1 dev m1 (fs @ [(is, bs)])" "free_descs drv = free_descs drv1 @ rev is" "length is = length bs"
      "drv1 = drv\<lparr>free_descs := free_descs drv1, outstanding := outstanding drv1,
         drv_avail_idx := drv_avail_idx drv + 1\<rparr>"
      "same_off (live_area (drv_layout drv)) m m1"
    by (rule in_flight_add [OF Cons.prems(1) u])
  have lay: "drv_layout drv1 = drv_layout drv" by (subst add(5)) simp
  have "sum_list (map length bss) \<le> length (free_descs drv1)"
    using Cons.prems(4) add(3,4) by simp
  then obtain gs drv' m' where ih: "add_chains drv1 m1 bss = Some (map flight_head gs, drv', m')"
      "in_flight drv' dev m' ((fs @ [(is, bs)]) @ gs)" "map snd gs = bss" "drv_layout drv' = drv_layout drv"
      "same_off (live_area (drv_layout drv)) m1 m'"
    using Cons.IH [OF add(2)] Cons.prems(2,3) usable_same_off [OF add(6)] lay by auto
  show ?case
    by (intro exI [of _ "(is, bs) # gs"] exI [of _ drv'] exI [of _ m'])
      (use add(1) ih same_off_trans [OF add(6) ih(5)] in simp)
qed

lemma requests_roundtrip:
  assumes "queue_inv drv dev m" "outstanding drv = Map.empty"
    and "\<forall>bs \<in> set bss. usable (drv_layout drv) m bs" "sorted_wrt clear_of bss"
    and "sum_list (map length bss) \<le> qn (drv_layout drv)"
    and "answers work w (map (\<lambda>bs. bytes_of m (request_refs bs)) bss) = (as, w')"
  shows "\<exists>hs drv1 m1 st' dev2 m2 drv2.
    add_chains drv m bss = Some (hs, drv1, m1) \<and>
    process work dev m1 w st = Some (Ok st', dev2, m2, w') \<and>
    map (\<lambda>bs. bytes_of m2 (reply_refs bs)) bss = map2 (filled m) bss as \<and>
    collect_used drv1 m2 = (Ok (zip hs (map2 reply_len bss as)), drv2) \<and>
    queue_inv drv2 dev2 m2 \<and> outstanding drv2 = Map.empty \<and>
    length (free_descs drv2) = qn (drv_layout drv)"
proof -
  let ?l = "drv_layout drv"
  note start = in_flight_start [OF assms(1,2)] and wf = queue_inD [OF queue_invD(2) [OF assms(1)]]
  have room: "sum_list (map length bss) \<le> length (free_descs drv)"
    using in_flightD(7) [OF start] assms(5) by simp
  obtain gs drv1 m1 where pub: "add_chains drv m bss = Some (map flight_head gs, drv1, m1)"
      "in_flight drv1 dev m1 gs" "map snd gs = bss" "drv_layout drv1 = ?l" "same_off (live_area ?l) m m1"
    using add_chains_in_flight [OF start, of bss] assms(3,4) room by auto
  have off: "same_off (queue_area ?l) m m1"
    by (rule same_off_mono [OF pub(5) live_in_queue_area [OF wf(1)]])
  have us: "usable ?l m (snd f)" if "f \<in> set gs" for f
    using assms(3) pub(3) that by auto
  have req: "bytes_of m1 (request_refs (snd f)) = bytes_of m (request_refs (snd f))"
    and rep: "filled m1 (snd f) a = filled m (snd f) a" if "f \<in> set gs" for f a
    using us [OF that] bytes_of_frame [OF wf(2) off] filled_frame [OF wf(2) off] usable_outside(3) [OF wf(1) us [OF that]]
    by (simp_all add: usable_def)
  have gs: "map (\<lambda>f. h (snd f)) gs = map h bss" "map2 (\<lambda>f a. k (snd f) a) gs as = map2 k bss as"
    for h :: "Buffer list \<Rightarrow> 'x" and k :: "Buffer list \<Rightarrow> u8 list \<Rightarrow> 'y"
    by (auto simp flip: pub(3) simp: zip_map1)
  have "answers work w (map (flight_request m1) gs) = (as, w')"
    using assms(6) req gs(1) [of "\<lambda>bs. bytes_of m (request_refs bs)"] by (metis (mono_tags, lifting) map_cong)
  then obtain m2 drv2 where fin: "process work dev m1 w st = Some (Ok (count_all m1 gs as st), drained dev m1, m2, w')"
      "map (\<lambda>f. bytes_of m2 (reply_refs (snd f))) gs = map2 (\<lambda>f a. filled m1 (snd f) a) gs as"
      "collect_used drv1 m2 = (Ok (zip (map flight_head gs) (reply_lens gs as)), drv2)"
      "in_flight drv2 (drained dev m1) m2 []" "outstanding drv2 = Map.empty"
      "drv2 = drv1\<lparr>free_descs := free_descs drv2, outstanding := Map.empty, last_used := last_used drv2\<rparr>"
    by (rule in_flight_done [OF pub(2), of work w as w' st])
  have "map2 (\<lambda>f a. filled m1 (snd f) a) gs as = map2 (\<lambda>f a. filled m (snd f) a) gs as"
    using rep by (intro map_cong refl) (auto dest: set_zip_leftD)
  then have bytes: "map (\<lambda>bs. bytes_of m2 (reply_refs bs)) bss = map2 (filled m) bss as"
    using fin(2) gs(1) [of "\<lambda>bs. bytes_of m2 (reply_refs bs)"] gs(2) [of "filled m"] by simp
  have "drv_layout drv2 = ?l" using pub(4) by (subst fin(6)) simp
  then have free: "length (free_descs drv2) = qn ?l" using in_flightD(7) [OF fin(4)] by simp
  show ?thesis
    using pub(1) fin(1,3,5) bytes in_flightD(1) [OF fin(4)] free gs(2) [of reply_len] by auto
qed

end
