(* ===== verification/VqNotify.thy ===== *)
theory VqNotify
  imports VqBatch
begin

text \<open>
  Notification suppression with \<^verbatim>\<open>EVENT_IDX\<close>: the driver's kick decision and the device's interrupt
  decision are one protocol with the two rings swapped. The locale \<open>notifier\<close> is that protocol: a
  producer with a free-running counter decides, since its previous decision, whether the counter
  crossed the threshold the other side published. It is interpreted on \<^verbatim>\<open>Driver::needs_kick\<close> and on
  \<^verbatim>\<open>Device::needs_notification\<close>; the facts about lost wakeups and suppression come from it.
\<close>

unbundle bit_operations_syntax

section \<open>Distances of counters\<close>

lemma unat_diff_trans:
  "unat (a - b) + unat (b - c) < 65536 \<Longrightarrow> unat (a - c) = unat (a - b) + unat (b - c)"
  for a b c :: u16
  using unat_add_small [of "a - b" "b - c"] by simp

lemma need_event_fires:
  "new \<noteq> event \<Longrightarrow> unat (event - old) + unat (new - event) < 65536 \<Longrightarrow> need_event event new old"
  using unat_diff_trans [of new event old] by (simp add: need_event_iff_distances)

lemma need_event_silent:
  "old \<noteq> event \<Longrightarrow> unat (old - event) + unat (new - old) < 65536 \<Longrightarrow> \<not> need_event event new old"
  using unat_diff_trans [of new old event] unat_gt_0 [of "old - event"]
  by (simp add: need_event_iff_distances)

section \<open>The protocol\<close>

locale notifier =
  fixes ok :: "'p \<Rightarrow> 'm \<Rightarrow> bool"
    and decide :: "'p \<Rightarrow> 'm \<Rightarrow> bool"
    and produced :: "'p \<Rightarrow> u16"
    and decided :: "'p \<Rightarrow> u16"
    and threshold :: "'p \<Rightarrow> 'm \<Rightarrow> u16"
  assumes decide_iff: "ok p m \<Longrightarrow> decide p m \<longleftrightarrow> need_event (threshold p m) (produced p) (decided p)"
begin

lemma fires:
  assumes "ok p m" "produced p \<noteq> threshold p m"
    and "unat (threshold p m - decided p) + unat (produced p - threshold p m) < 65536"
  shows "decide p m"
  using assms need_event_fires by (simp add: decide_iff)

lemma silent:
  assumes "ok p m" "decided p \<noteq> threshold p m"
    and "unat (decided p - threshold p m) + unat (produced p - decided p) < 65536"
  shows "\<not> decide p m"
  using assms need_event_silent by (simp add: decide_iff)

lemma crossed: "ok p m \<Longrightarrow> decide p m \<longleftrightarrow>
    (\<exists>j < unat (produced p - decided p). threshold p m = decided p + of_nat j)"
  by (simp add: decide_iff need_event_iff_passed)

end

section \<open>Both directions\<close>

lemma needs_kick_eq:
  assumes "queue_in (drv_layout d) m"
  shows "needs_kick d m =
    (Inr (drv_event_idx d \<longrightarrow>
       need_event (get_u16 m (avail_event (drv_layout d))) (drv_avail_idx d) (last_kick d)),
     d\<lparr>last_kick := drv_avail_idx d\<rparr>)"
  using read_u16_get [OF queue_inD(2) [OF assms] fields_in_mem(4) [OF assms]]
  by (simp add: needs_kick_def Let_def load_relaxed_def)

lemma needs_notification_eq:
  assumes "queue_in (dev_layout d) m"
  shows "needs_notification d m =
    (Inr (dev_event_idx d \<longrightarrow>
       need_event (get_u16 m (used_event (dev_layout d))) (next_used d) (next_used d - num_added d)),
     d\<lparr>num_added := 0\<rparr>)"
  using read_u16_get [OF queue_inD(2) [OF assms] fields_in_mem(3) [OF assms]]
  by (simp add: needs_notification_def Let_def load_relaxed_def)

definition kicks :: "Driver \<Rightarrow> SharedMem \<Rightarrow> bool" where
  "kicks d m = (case fst (needs_kick d m) of Inl e \<Rightarrow> False | Inr b \<Rightarrow> b)"

definition interrupts :: "Device \<Rightarrow> SharedMem \<Rightarrow> bool" where
  "interrupts d m = (case fst (needs_notification d m) of Inl e \<Rightarrow> False | Inr b \<Rightarrow> b)"

interpretation kick: notifier "\<lambda>d m. queue_in (drv_layout d) m \<and> drv_event_idx d" kicks drv_avail_idx
  last_kick "\<lambda>d m. get_u16 m (avail_event (drv_layout d))"
  by unfold_locales (simp add: kicks_def needs_kick_eq)

interpretation irq: notifier "\<lambda>d m. queue_in (dev_layout d) m \<and> dev_event_idx d" interrupts next_used
  "\<lambda>d. next_used d - num_added d" "\<lambda>d m. get_u16 m (used_event (dev_layout d))"
  by unfold_locales (simp add: interrupts_def needs_notification_eq)

section \<open>Re-enabling notifications\<close>

lemma enable_notification_eq:
  assumes "queue_in (dev_layout d) m" "dev_event_idx d"
  shows "enable_notification d m =
    (Inr (avail_count (dev_layout d) m \<noteq> next_avail d), put_u16 m (avail_event (dev_layout d)) (next_avail d))"
proof -
  let ?l = "dev_layout d" and ?m = "put_u16 m (avail_event (dev_layout d)) (next_avail d)"
  note wf = queue_inD [OF assms(1)]
  have "bytes_at (avail_idx ?l) 2 \<inter> bytes_at (avail_event ?l) 2 = {}"
    using areas_disjoint(3) [OF wf(1)] slot_bytes_in_areas(3,6) [OF wf(1)] by blast
  then have "avail_count ?l ?m = avail_count ?l m"
    by (rule get_put_u16_other [OF wf(2)])
  then have "available d ?m = Inr (avail_count ?l m - next_avail d)"
    using available_eq [of d ?m] assms(1) by simp
  then show ?thesis
    using assms(2) write_u16_put [OF wf(2) fields_in_mem(4) [OF assms(1)], of "next_avail d"]
    by (simp add: enable_notification_def)
qed

lemma enable_notification_pending:
  assumes "queue_inv drv dev m" "dev_event_idx dev"
  obtains m' where "enable_notification dev m = (Inr (pending dev m \<noteq> []), m')"
    "queue_inv drv dev m'" "get_u16 m' (avail_event (drv_layout drv)) = next_avail dev"
    "pending dev m' = pending dev m"
proof -
  let ?m = "put_u16 m (avail_event (drv_layout drv)) (next_avail dev)"
  note i = queue_invD [OF assms(1)] and wf = queue_inD [OF queue_invD(2) [OF assms(1)]]
  have eq: "enable_notification dev m = (Inr (pending dev m \<noteq> []), ?m)"
    using enable_notification_eq [of dev m] i(1,2) assms(2) by (auto simp: pending_Nil_iff)
  have off: "same_off (bytes_at (avail_event (drv_layout drv)) 2) m ?m"
    by (rule put_u16_off [OF wf(2)])
  have inv: "queue_inv drv dev ?m"
    by (rule queue_inv_frame_live [OF assms(1) off thresholds_not_live(2) [OF wf(1)]])
  have "get_u16 ?m (avail_event (drv_layout drv)) = next_avail dev"
    by (rule get_put_u16 [OF wf(2) fields_in_mem(4) [OF i(2)]])
  moreover have "pending dev ?m = pending dev m"
  proof -
    have "live_area (drv_layout drv) \<inter> bytes_at (avail_event (drv_layout drv)) 2 = {}"
      by (rule thresholds_not_live(2) [OF wf(1)])
    then have "avail_slot_bytes (drv_layout drv) j \<inter> bytes_at (avail_event (drv_layout drv)) 2 = {}" for j
      unfolding live_area_def by blast
    then have "avail_load (drv_layout drv) ?m j = avail_load (drv_layout drv) m j" for j
      by (rule avail_load_frame [OF i(2) off])
    then show ?thesis
      using i(4) queue_invD(4) [OF inv] by (simp add: pending_def i(1) avail_queue.contents_def)
  qed
  ultimately show ?thesis using that eq inv by blast
qed

text \<open>
  No lost wakeup: the device re-enables notifications and sleeps because it saw no work; whatever
  the driver publishes next, its kick decision is yes, as long as fewer than 65535 chains were
  published since its previous decision.
\<close>

lemma sleeping_device_is_kicked:
  assumes "queue_inv drv dev m" "dev_event_idx dev" "drv_event_idx drv"
    and "enable_notification dev m = (Inr False, m1)"
    and "good_buffers (drv_layout drv) bs" "add_chain drv m1 bs = (Ok h, drv', m2)"
    and "unat (drv_avail_idx drv - last_kick drv) < 65535"
  shows "needs_kick drv' m2 = (Inr True, drv'\<lparr>last_kick := drv_avail_idx drv'\<rparr>)" "pending dev m2 = [h]"
proof -
  let ?l = "drv_layout drv" and ?c = "next_avail dev"
  obtain m1' where m1: "enable_notification dev m = (Inr (pending dev m \<noteq> []), m1')" "queue_inv drv dev m1'"
      "get_u16 m1' (avail_event ?l) = ?c" "pending dev m1' = pending dev m"
    by (rule enable_notification_pending [OF assms(1,2)])
  then have eq: "m1' = m1" "pending dev m1 = []" using assms(4) by auto
  note inv1 = m1(2)[unfolded eq(1)] and wf = queue_inD [OF queue_invD(2) [OF m1(2) [unfolded eq(1)]]]
  have "length bs \<le> length (free_descs drv)"
    using assms(5,6) add_chain_unchanged [of bs drv m1] by (force simp: good_buffers_def)
  from queue_inv_add_chain [OF inv1 assms(5) this]
  obtain "is" drv1 m2' where add: "add_chain drv m1 bs = (Ok (hd is), drv1, m2')" "queue_inv drv1 dev m2'"
      "pending dev m2' = [hd is]"
      "drv1 = drv\<lparr>free_descs := free_descs drv1, outstanding := outstanding drv1,
        drv_avail_idx := drv_avail_idx drv + 1\<rparr>"
      and off: "same_off (desc_area ?l \<union> avail_slot_bytes ?l (drv_avail_idx drv) \<union>
        bytes_at (avail_idx ?l) 2) m1 m2'"
    using eq(2) by (metis append_Nil)
  have same: "drv1 = drv'" "m2' = m2" "hd is = h" using add(1) assms(6) by simp_all
  show "pending dev m2 = [h]" using add(3) same by simp
  have f: "drv_layout drv' = ?l" "last_kick drv' = last_kick drv" "drv_event_idx drv' = drv_event_idx drv"
      "drv_avail_idx drv' = drv_avail_idx drv + 1"
    unfolding same(1) [symmetric] by (subst add(4), simp)+
  have "bytes_at (avail_event ?l) 2 \<inter>
      (desc_area ?l \<union> avail_slot_bytes ?l (drv_avail_idx drv) \<union> bytes_at (avail_idx ?l) 2) = {}"
    using thresholds_not_live(2) [OF wf(1)] unfolding live_area_def by blast
  then have ev: "get_u16 m2 (avail_event ?l) = ?c"
    using get_u16_frame [OF wf(2) off] m1(3) eq(1) same(2) by simp
  have c: "drv_avail_idx drv = ?c"
    using eq(2) queue_invD(1,4) [OF inv1] by (simp add: pending_Nil_iff)
  have q2: "queue_in (drv_layout drv') m2"
    using queue_invD(2) [OF add(2)] same by simp
  have "need_event ?c (?c + 1) (last_kick drv)"
    by (rule need_event_fires) (use assms(7) c in simp_all)
  then show "needs_kick drv' m2 = (Inr True, drv'\<lparr>last_kick := drv_avail_idx drv'\<rparr>)"
    using needs_kick_eq [OF q2] ev f c by simp
qed

text \<open>The mirror image: an armed driver is interrupted by the next completion.\<close>

lemma arm_used_event_sets:
  assumes "queue_inv drv dev m"
  obtains m1 where "arm_used_event drv m = Inr m1" "queue_inv drv dev m1"
    "get_u16 m1 (used_event (drv_layout drv)) = last_used drv"
    "same_off (bytes_at (used_event (drv_layout drv)) 2) m m1"
proof -
  let ?l = "drv_layout drv" and ?m = "put_u16 m (used_event (drv_layout drv)) (last_used drv)"
  note i = queue_invD [OF assms] and wf = queue_inD [OF queue_invD(2) [OF assms]]
  have "arm_used_event drv m = Inr ?m"
    using write_u16_put [OF wf(2) fields_in_mem(3) [OF i(2)]] by (simp add: arm_used_event_def)
  moreover have off: "same_off (bytes_at (used_event ?l) 2) m ?m" by (rule put_u16_off [OF wf(2)])
  moreover have "queue_inv drv dev ?m"
    by (rule queue_inv_frame_live [OF assms off thresholds_not_live(1) [OF wf(1)]])
  moreover have "get_u16 ?m (used_event ?l) = last_used drv"
    by (rule get_put_u16 [OF wf(2) fields_in_mem(3) [OF i(2)]])
  ultimately show ?thesis using that by blast
qed

lemma process_interrupts:
  assumes "queue_inv drv dev m" "dev_event_idx dev" "in_used drv dev m = []"
    and "get_u16 m (used_event (drv_layout drv)) = last_used drv"
    and "pending dev m \<noteq> []" "unat (num_added dev) + length (pending dev m) < 65536"
    and "process work dev m w st = Some (Ok st', dev2, m2, w')"
  shows "needs_notification dev2 m2 = (Inr True, dev2\<lparr>num_added := 0\<rparr>)"
proof -
  let ?l = "drv_layout drv" and ?n = "length (pending dev m)"
  note i = queue_invD [OF assms(1)] and wf = queue_inD [OF queue_invD(2) [OF assms(1)]]
  obtain st'' m2' w'' where p: "process work dev m w st = Some (Ok st'', drained dev m, m2', w'')"
      "queue_inv drv (drained dev m) m2'"
      and off2: "same_off (all_writes m ?l (pending dev m) \<union> used_area ?l) m m2'"
    by (rule queue_inv_process [OF assms(1), of work w st])
  have same: "dev2 = drained dev m" "m2' = m2" using p(1) assms(7) by simp_all
  have "all_writes m ?l (pending dev m) \<inter> queue_area ?l = {}"
    using queue_inv_quiet [OF assms(1)] i(1) by (auto simp: all_writes_def quiet_def list_all_iff)
  then have "bytes_at (used_event ?l) 2 \<inter> (all_writes m ?l (pending dev m) \<union> used_area ?l) = {}"
    using slot_bytes_in_areas(5) [OF wf(1)] areas_disjoint(3,4) [OF wf(1)] by blast
  then have ev: "get_u16 m2 (used_event ?l) = last_used drv"
    using get_u16_frame [OF wf(2) off2] assms(4) same(2) by simp
  have even: "next_used dev = last_used drv"
    using assms(3) by (simp add: in_used_def used_queue.contents_Nil_iff)
  have n: "0 < ?n" "unat (word_of_nat ?n :: u16) = ?n"
    using assms(5,6) by (simp_all add: unat_of_nat_u16)
  have f: "dev_layout dev2 = ?l" "dev_event_idx dev2" "next_used dev2 = last_used drv + of_nat ?n"
      "next_used dev2 - num_added dev2 = last_used drv - num_added dev"
    using i(1) assms(2) by (simp_all add: same(1) drained_def Let_def even)
  have "word_of_nat ?n \<noteq> (0 :: u16)" using n by auto
  then have "need_event (last_used drv) (next_used dev2) (next_used dev2 - num_added dev2)"
    unfolding f(4) unfolding f(3) by (intro need_event_fires) (use n assms(6) in simp_all)
  moreover have "queue_in (dev_layout dev2) m2"
    using queue_invD(2) [OF p(2)] same f(1) by simp
  ultimately show ?thesis
    using needs_notification_eq ev f(1) by simp
qed

lemma waiting_driver_is_interrupted:
  assumes "queue_inv drv dev m" "dev_event_idx dev" "in_used drv dev m = []"
    and "arm_used_event drv m = Inr m1"
    and "pending dev m1 \<noteq> []" "unat (num_added dev) + length (pending dev m1) < 65536"
    and "process work dev m1 w st = Some (Ok st', dev2, m2, w')"
  shows "needs_notification dev2 m2 = (Inr True, dev2\<lparr>num_added := 0\<rparr>)"
proof -
  have a: "queue_inv drv dev m1" "get_u16 m1 (used_event (drv_layout drv)) = last_used drv"
    using arm_used_event_sets [OF assms(1)] assms(4) by (metis sum.inject(2))+
  have "in_used drv dev m1 = []"
    using assms(3) by (simp add: in_used_def used_queue.contents_Nil_iff)
  then show ?thesis by (rule process_interrupts [OF a(1) assms(2) _ a(2) assms(5-7)])
qed

end
