(* ===== verification/VqHostile.thy ===== *)
theory VqHostile
  imports VqNotify
begin

text \<open>
  Hostile guests. The first part is \<^verbatim>\<open>hostile_chains\<close> of \<^verbatim>\<open>rung-02-virtio/toy-virtq-raw/src/main.rs\<close>:
  five malformed chains that bypass the driver, what the walk says of each, and that each is
  refused and completed. The second part is a guest those defences do not cover: its chains are
  well formed, but they let the device write the counter that bounds \<^verbatim>\<open>Device::process\<close>, which then
  never returns.
\<close>

unbundle bit_operations_syntax

section \<open>What the walk says of malformed chains\<close>

lemma running_too_long:
  assumes "running m l h ds" "length ds = qn l" "ds \<noteq> []" "acceptable ds"
  shows "chain_walk m l h = Inl (TooLong (queue_size l))"
proof -
  have "chain_items (chain_new m l h) = map Inr ds @ [Inl (TooLong (queue_size l))]"
    using chain_items_too_long_iff [of "chain_new m l h" ds "queue_size l"] assms
    by (simp add: chain_new_def acceptable_def ordered_False)
  then show ?thesis
    by (simp add: chain_walk_def walk_result_append_Inl)
qed

lemma running_replicate:
  "table m l h = Some d \<Longrightarrow> has_next d \<Longrightarrow> d_next d = h \<Longrightarrow> running m l h (replicate n d)"
  by (induction n) auto

lemma self_loop_rejected:
  assumes "table m l h = Some d" "has_next d" "d_next d = h" "\<not> is_indirect d"
    and "unat (d_len d) * qn l < 2 ^ 32" "queue_size l \<noteq> 0"
  shows "chain_walk m l h = Inl (TooLong (queue_size l))"
proof (rule running_too_long)
  show "running m l h (replicate (qn l) d)"
    using assms by (simp add: running_replicate)
  show "replicate (qn l) d \<noteq> []"
    using assms(6) by (simp add: unat_eq_0)
  have "total_len (replicate n d) = n * unat (d_len d)" for n
    by (induction n) auto
  moreover have "readable_first (replicate n d)" for n
    using ordered_True [of "replicate n d"]
    by (cases "is_write_only d"; induction n) (auto simp: ordered_False [symmetric] ordered_True list_all_iff)
  ultimately show "acceptable (replicate (qn l) d)"
    using assms(4,5) by (simp add: acceptable_def list_all_iff mult.commute)
qed simp

lemma two_cycle_rejected:
  assumes "table m l h = Some d" "has_next d" "table m l (d_next d) = Some d'" "has_next d'" "d_next d' = h"
    and "\<not> is_indirect d" "\<not> is_indirect d'" "\<not> is_write_only d" "\<not> is_write_only d'"
    and "unat (d_len d) + unat (d_len d') < 65536" "is_power_of_two (queue_size l)" "queue_size l \<noteq> 1"
  shows "chain_walk m l h = Inl (TooLong (queue_size l))"
proof (rule running_too_long)
  let ?n = "qn l div 2"
  define ds where "ds = concat (replicate ?n [d, d'])"
  obtain k where k: "k < 16" "queue_size l = 2 ^ k"
    using assms(11) by (auto simp: is_power_of_two_iff)
  have "(2 :: nat) ^ k < 2 ^ 16" using k(1) by (rule power_strict_increasing) simp
  then have "unat (word_of_nat (2 ^ k) :: u16) = 2 ^ k" by (intro unat_of_nat_u16) simp
  then have q: "qn l = 2 ^ k" using k(2) by simp
  have "k \<noteq> 0" using k(2) assms(12) by (intro notI) simp
  then obtain j where "k = Suc j" by (cases k) auto
  then have even: "2 * ?n = qn l" "0 < ?n" using q by simp_all
  have "running m l h (concat (replicate n [d, d']))" for n
    using assms(1-5) by (induction n) auto
  then show "running m l h ds" by (simp add: ds_def)
  show "length ds = qn l" using even by (simp add: ds_def length_concat sum_list_replicate)
  show "ds \<noteq> []" using even by (simp add: ds_def)
  have "total_len (concat (replicate n [d, d'])) = n * (unat (d_len d) + unat (d_len d'))" for n
    by (induction n) auto
  moreover have "?n * (unat (d_len d) + unat (d_len d')) \<le> 32768 * 65536"
    using assms(10) even power_of_two_u16_bounds(2) [OF assms(11)] by (intro mult_le_mono) simp_all
  moreover have "ordered False (concat (replicate n [d, d']))" for n
    using assms(8,9) by (induction n) auto
  moreover have "list_all (\<lambda>d. \<not> is_indirect d) (concat (replicate n [d, d']))" for n
    using assms(6,7) by (induction n) auto
  ultimately show "acceptable ds"
    by (simp add: acceptable_def ds_def ordered_False [symmetric])
qed

lemma chain_walk_step:
  assumes "table m l h = Some d" "\<not> is_indirect d" "queue_size l \<noteq> 0" "has_next d"
  shows "chain_items (chain_new m l h) = Inr d # chain_items (after (chain_new m l h) d)"
proof -
  have "chain_next (chain_new m l h) = (Some (Inr d), after (chain_new m l h) d)"
    using assms by (subst chain_next_Inr_iff) (simp_all add: chain_new_def)
  then show ?thesis by (rule chain_items_Some)
qed

lemma next_outside_rejected:
  assumes "table m l h = Some d" "\<not> is_indirect d" "has_next d" "queue_size l \<le> d_next d"
    "queue_size l \<noteq> 0" "queue_size l \<noteq> 1"
  shows "chain_walk m l h = Inl (IndexOutOfRange (d_next d) (queue_size l))"
proof -
  let ?it = "after (chain_new m l h) d"
  have ttl: "queue_size l - 1 \<noteq> 0" using assms(6) by simp
  have "chain_next ?it = (Some (Inl (IndexOutOfRange (d_next d) (queue_size l))), ?it\<lparr>it_done := True\<rparr>)"
    using assms ttl by (simp add: chain_next_def chain_new_def desc_def)
  then have "chain_items ?it = [Inl (IndexOutOfRange (d_next d) (queue_size l))]"
    by (simp add: chain_items_Some chain_items_done)
  then show ?thesis
    using chain_walk_step [OF assms(1,2,5,3)] by (simp add: chain_walk_def)
qed

lemma readable_after_writable_rejected:
  assumes "table m l h = Some d" "\<not> is_indirect d" "has_next d" "is_write_only d"
    and "table m l (d_next d) = Some d'" "\<not> is_indirect d'" "\<not> is_write_only d'"
    and "unat (d_len d) + unat (d_len d') < 2 ^ 32" "queue_size l \<noteq> 0" "queue_size l \<noteq> 1"
  shows "chain_walk m l h = Inl ReadableAfterWritable"
proof -
  let ?it = "after (chain_new m l h) d"
  have ttl: "queue_size l - 1 \<noteq> 0" using assms(10) by simp
  obtain a where a: "desc l (d_next d) = Some a" "read_descriptor m a = Inr d'"
    using assms(5) by (auto simp: table_def split: option.splits sum.splits)
  obtain it' where "chain_next ?it = (Some (Inl ReadableAfterWritable), it')" "it_done it'"
    using assms ttl a by (simp add: chain_next_def chain_new_def checked_add_def Let_def)
  then have "chain_items ?it = [Inl ReadableAfterWritable]"
    by (simp add: chain_items_Some chain_items_done)
  then show ?thesis
    using chain_walk_step [OF assms(1,2,9,3)] by (simp add: chain_walk_def)
qed

section \<open>A guest that keeps the device busy for ever\<close>

text \<open>
  The chain reads \<^verbatim>\<open>used.idx\<close> and writes \<^verbatim>\<open>avail.idx\<close>. With a device that answers the request with
  itself, each completion moves \<^verbatim>\<open>avail.idx\<close> to one less than the device's own counter, so the ring
  always looks full of work. \<open>trapped\<close> is the invariant of that loop.
\<close>

definition echo :: "unit \<Rightarrow> u8 list \<Rightarrow> u8 list \<times> unit" where
  "echo w r = (r, w)"

definition trap_descs :: "VirtqLayout \<Rightarrow> Descriptor list" where
  "trap_descs l =
     [\<lparr>d_addr = used_idx l, d_len = 2, d_flags = VIRTQ_DESC_F_NEXT, d_next = 1\<rparr>,
      \<lparr>d_addr = avail_idx l, d_len = 2, d_flags = VIRTQ_DESC_F_WRITE, d_next = 0\<rparr>]"

definition trapped :: "Device \<Rightarrow> SharedMem \<Rightarrow> bool" where
  "trapped d m \<longleftrightarrow> queue_in (dev_layout d) m \<and> 2 \<le> qn (dev_layout d) \<and>
     table m (dev_layout d) 0 = Some (trap_descs (dev_layout d) ! 0) \<and>
     table m (dev_layout d) 1 = Some (trap_descs (dev_layout d) ! 1) \<and>
     (\<forall>i. avail_load (dev_layout d) m i = 0) \<and>
     used_count (dev_layout d) m = next_used d \<and> next_used d = next_avail d \<and>
     avail_count (dev_layout d) m \<noteq> next_avail d"

lemma trap_walk:
  assumes "queue_in l m" "2 \<le> qn l" "table m l 0 = Some (trap_descs l ! 0)" "table m l 1 = Some (trap_descs l ! 1)"
  shows "chain_walk m l 0 = Inr (trap_descs l)"
proof -
  have "valid_chain m l 0 (trap_descs l)"
    using assms(2-4) by (simp add: valid_chain_def trap_descs_def acceptable_def readable_first_Cons
        has_next_def is_write_only_def is_indirect_def virtq_consts)
  then show ?thesis by (simp add: chain_walk_Inr_iff)
qed

lemma trap_refs:
  "readable_refs (trap_descs l) = [(used_idx l, 2)]" "writable_refs (trap_descs l) = [(avail_idx l, 2)]"
  by (simp_all add: trap_descs_def refs_def is_write_only_def virtq_consts)

lemma trapped_step:
  assumes "trapped d m"
  obtains d' m' st' where "pop_chain_head d m = (Ok (Some 0), d\<lparr>next_avail := next_avail d + 1\<rparr>)"
    "serve_chain echo 0 (d\<lparr>next_avail := next_avail d + 1\<rparr>) m w st = (Ok (), d', m', w, st')" "trapped d' m'"
proof -
  let ?l = "dev_layout d" and ?d1 = "d\<lparr>next_avail := next_avail d + 1\<rparr>"
  have q: "queue_in ?l m" and qs: "2 \<le> qn ?l"
    and tab: "table m ?l 0 = Some (trap_descs ?l ! 0)" "table m ?l 1 = Some (trap_descs ?l ! 1)"
    and av: "\<And>i. avail_load ?l m i = 0" and cnt: "used_count ?l m = next_used d" "next_used d = next_avail d"
    and ne: "avail_count ?l m \<noteq> next_avail d"
    using assms by (simp_all add: trapped_def)
  note wf = queue_inD [OF q] and walk = trap_walk [OF q qs tab]
  have pop: "pop_chain_head d m = (Ok (Some 0), ?d1)"
    using ne av by (simp add: pop_chain_head_eq [OF q])
  define req where "req = bytes_of m [(used_idx ?l, 2)]"
  have uin: "in_mem m (used_idx ?l) 2" and ain: "in_mem m (avail_idx ?l) 2"
    using fields_in_mem [OF q] by simp_all
  have req: "req = window (unat (used_idx ?l)) 2 (buf m)" "of_le_bytes req = next_used d"
    using uin cnt(1) by (simp_all add: req_def bytes_of_def read_part_in wf(2) get_u16_def read_u16_eq)
  then have len: "length req = 2" using uin by (simp add: length_window in_mem_def)
  let ?st1 = "st\<lparr>st_descriptors := st_descriptors st + of_nat (length (trap_descs ?l)),
      st_rejected := st_rejected st @ concat (map (read_errors m 0) [(used_idx ?l, 2)]),
      st_bytes_read := st_bytes_read st + of_nat (length req)\<rparr>"
  obtain m1 where sc: "scatter m 0 [(avail_idx ?l, 2)] req 0 0 ?st1 = (m1, 2, ?st1)"
      and bytes: "bytes_of m1 [(avail_idx ?l, 2)] = req"
    using scatter_content [OF wf(2), of "[(avail_idx ?l, 2)]" 0 0 req 0 ?st1] ain len
      length_bytes_of [OF wf(2), of "[(avail_idx ?l, 2)]"]
    by (auto simp: refs_in_def simp del: scatter.simps)
  have off: "same_off (bytes_at (avail_idx ?l) 2) m m1"
    using scatter_off [OF wf(2) sc] by (simp add: ref_bytes_def)
  have q1: "queue_in ?l m1" using q queue_in_same_off [OF off] by simp
  have a1: "avail_count ?l m1 = next_used d"
    using bytes req(2) fields_in_mem(1) [OF q1] queue_inD(2) [OF q1]
    by (simp add: bytes_of_def read_part_in get_u16_def read_u16_eq)
  let ?d' = "?d1\<lparr>next_used := next_used d + 1, num_added := num_added d + 1\<rparr>"
    and ?m' = "completed ?d1 m1 0 2"
  obtain st' where serve: "serve_chain echo 0 ?d1 m w st = (Ok (), ?d', ?m', w, st')"
    using serve_chain_accepts [where d = ?d1 and st = st and work = echo and w = w and w' = w and response = req,
        of m 0 "trap_descs ?l" m1 2 ?st1] q walk sc by (simp add: trap_refs req_def echo_def)
  note c = completed_facts [of ?d1 m1 0 2]
  have qd: "queue_in (dev_layout ?d1) m1" using q1 by simp
  have off2: "same_off (used_area ?l) m1 ?m'" using completed_in_used_area [OF qd, of 0 2] by simp
  have "avail_slot_bytes ?l i \<inter> bytes_at (avail_idx ?l) 2 = {}" "avail_slot_bytes ?l i \<inter> used_area ?l = {}" for i
    using slot_bytes_disjoint(3) [OF wf(1), of i]
      subset_disjoint [OF slot_bytes_in_areas(1) [OF wf(1)] subset_refl areas_disjoint(3) [OF wf(1)]]
    by (simp_all add: Int_commute)
  then have av': "avail_load ?l ?m' i = 0" for i
    using avail_load_frame [OF q1 off2] avail_load_frame [OF q off] av by simp
  have "table ?m' ?l i = table m ?l i" if "unat i < qn ?l" for i
    using table_frame [OF q1 off2, of i] table_frame [OF q off, of i]
      subset_disjoint [OF desc_bytes_in_area [OF that] subset_refl areas_disjoint(2) [OF wf(1)]]
      subset_disjoint [OF desc_bytes_in_area [OF that] slot_bytes_in_areas(3) [OF wf(1)] areas_disjoint(1) [OF wf(1)]]
    by simp
  then have tab': "table ?m' ?l 0 = Some (trap_descs ?l ! 0)" "table ?m' ?l 1 = Some (trap_descs ?l ! 1)"
    using tab qs by simp_all
  have "bytes_at (avail_idx ?l) 2 \<inter> used_area ?l = {}"
    using slot_bytes_in_areas(3) [OF wf(1)] areas_disjoint(3) [OF wf(1)] by blast
  then have "avail_count ?l ?m' = next_used d"
    using get_u16_frame [OF queue_inD(2) [OF q1] off2] a1 by simp
  then have "trapped ?d' ?m'"
    using c(2,3) [OF qd] qs tab' av' cnt(2) by (simp add: trapped_def)
  then show ?thesis using that pop serve by blast
qed

lemma trapped_never_returns:
  assumes "process work d m w st = Some r"
  shows "work = echo \<longrightarrow> \<not> trapped d m"
proof (rule process.raw_induct [where P = "\<lambda>work d m w st r. work = echo \<longrightarrow> \<not> trapped d m", OF _ assms])
  fix rec work d m w st r
  assume ih: "\<And>work d m w st r. rec work d m w st = Some r \<Longrightarrow> work = echo \<longrightarrow> \<not> trapped d m"
    and step: "(case pop_chain_head d m of (Ok None, d') \<Rightarrow> Some (Ok st, d', m, w)
      | (Ok (Some head), d') \<Rightarrow>
          case serve_chain work head d' m w st of
            (Ok x, d'', m', w', st') \<Rightarrow> rec work d'' m' w' st'
          | (Err e, d'', m', w', st') \<Rightarrow> Some (Err e, d'', m', w')
          | (Panic, d'', m', w', st') \<Rightarrow> Some (Panic, d'', m', w')
      | (Err e, d') \<Rightarrow> Some (Err e, d', m, w)
      | (Panic, d') \<Rightarrow> Some (Panic, d', m, w)) = Some r"
  show "work = echo \<longrightarrow> \<not> trapped d m"
  proof (intro impI notI)
    assume echo: "work = echo" and trapped: "trapped d m"
    obtain d' m' st' where s: "pop_chain_head d m = (Ok (Some 0), d\<lparr>next_avail := next_avail d + 1\<rparr>)"
        "serve_chain echo 0 (d\<lparr>next_avail := next_avail d + 1\<rparr>) m w st = (Ok (), d', m', w, st')" "trapped d' m'"
      by (rule trapped_step [OF trapped])
    then have "rec echo d' m' w st' = Some r" using step echo by simp
    then show False using ih s(3) by blast
  qed
qed

lemma trapped_process: "trapped d m \<Longrightarrow> process echo d m w st = None"
  using trapped_never_returns [of echo d m w st] by (cases "process echo d m w st") auto

end
