(* ===== verification/VqExample.thy ===== *)
theory VqExample
  imports VqHostile
begin

text \<open>
  A small queue on which the properties of the virtqueue are applied: two descriptors laid out at
  address 0 of a region of 128 bytes, one request buffer and one reply buffer above the queue, and
  the tables of two hostile guests. Nothing here models code.
\<close>

definition small_layout :: VirtqLayout where
  "small_layout = \<lparr>queue_size = 2, desc_table = 0, avail_ring = 32, used_ring = 44\<rparr>"

lemma small_layout_new: "layout_new 0 2 = Some small_layout"
  by code_simp

lemma small_layout_fields [simp]:
  "queue_size small_layout = 2" "desc_table small_layout = 0" "avail_ring small_layout = 32"
  "used_ring small_layout = 44"
  by (simp_all add: small_layout_def)

lemma small_wf: "layout_wf small_layout"
  by (rule layout_new_wf [OF small_layout_new]) simp

lemma small_end: "unat (layout_end small_layout) = 66"
  using total_size_at(2) [OF small_wf] by simp

definition small_driver :: Driver where "small_driver = driver_new small_layout 128 True"
definition small_device :: Device where "small_device = device_new small_layout True"
definition small_mem :: SharedMem where "small_mem = mem_new 128"

lemma small_reachable: "queue_reachable work (small_driver, small_device, small_mem)"
  unfolding small_driver_def small_device_def small_mem_def
  by (rule queue_reachable.start [OF small_wf]) (simp_all add: small_end)

lemma small_inv: "queue_inv small_driver small_device small_mem"
  unfolding small_driver_def small_device_def small_mem_def
  by (rule queue_inv_init [OF small_wf]) (simp_all add: small_end)

lemma small_fields [simp]:
  "drv_layout small_driver = small_layout" "dev_layout small_device = small_layout"
  "outstanding small_driver = Map.empty" "drv_event_idx small_driver" "dev_event_idx small_device"
  "length (free_descs small_driver) = 2" "drv_avail_idx small_driver = 0" "last_kick small_driver = 0"
  "last_used small_driver = 0" "num_added small_device = 0" "next_used small_device = 0" "next_avail small_device = 0"
  by (simp_all add: small_driver_def driver_new_def small_device_def device_new_def)

lemma small_queue_in: "queue_in small_layout small_mem"
  using queue_invD(2) [OF small_inv] by simp

definition small_buffers :: "Buffer list" where
  "small_buffers = [\<lparr>b_addr = 80, b_len = 4, b_writable = False\<rparr>, \<lparr>b_addr = 88, b_len = 4, b_writable = True\<rparr>]"

lemma small_refs:
  "request_refs small_buffers = [(80, 4)]" "reply_refs small_buffers = [(88, 4)]" "length small_buffers = 2"
  by (simp_all add: small_buffers_def buffer_refs_def)

lemma small_good: "good_buffers small_layout small_buffers"
  unfolding good_buffers_def small_refs
  by (simp add: small_buffers_def ref_bytes_def bytes_at_def queue_area_def)

lemma small_published:
  "\<exists>h drv' m'. add_chain small_driver small_mem small_buffers = (Ok h, drv', m') \<and>
    queue_inv drv' small_device m' \<and> pending small_device m' = [h] \<and> in_used drv' small_device m' = [] \<and>
    drv_layout drv' = small_layout \<and> same_off (queue_area small_layout) small_mem m'"
proof -
  have empty: "in_used small_driver small_device small_mem @ pending small_device small_mem = []"
    using queue_invD(7) [OF small_inv] by simp
  obtain "is" drv' m' where p: "add_chain small_driver small_mem small_buffers = (Ok (hd is), drv', m')"
      "queue_inv drv' small_device m'" "pending small_device m' = pending small_device small_mem @ [hd is]"
      "in_used drv' small_device m' = in_used small_driver small_device small_mem"
      "drv' = small_driver\<lparr>free_descs := free_descs drv', outstanding := outstanding drv',
         drv_avail_idx := drv_avail_idx small_driver + 1\<rparr>"
      "same_off (desc_area small_layout \<union> avail_slot_bytes small_layout (drv_avail_idx small_driver) \<union>
         bytes_at (avail_idx small_layout) 2) small_mem m'"
    using queue_inv_add_chain [OF small_inv, of small_buffers] small_good small_refs(3)
    by (simp only: small_fields) (metis order_refl)
  have "desc_area small_layout \<union> avail_slot_bytes small_layout 0 \<union> bytes_at (avail_idx small_layout) 2 \<subseteq>
      queue_area small_layout"
    using slot_bytes_in_areas(1,3) [OF small_wf] areas_disjoint(4) [OF small_wf] by blast
  then have "same_off (queue_area small_layout) small_mem m'"
    using p(6) same_off_mono by (simp only: small_fields)
  moreover have "drv_layout drv' = small_layout" by (subst p(5)) simp
  ultimately show ?thesis
    using p(1-4) empty by simp
qed

section \<open>Hostile tables\<close>

text \<open>A descriptor that is its own successor.\<close>

definition loop_desc :: Descriptor where
  "loop_desc = \<lparr>d_addr = 80, d_len = 4, d_flags = VIRTQ_DESC_F_NEXT, d_next = 0\<rparr>"

definition bytes_of_desc :: "Descriptor \<Rightarrow> u8 list" where
  "bytes_of_desc d = le_bytes 8 (d_addr d) @ le_bytes 4 (d_len d) @ le_bytes 2 (d_flags d) @ le_bytes 2 (d_next d)"

lemma length_bytes_of_desc [simp]: "length (bytes_of_desc d) = 16"
  by (simp add: bytes_of_desc_def)

lemma window_of_window: "k + n \<le> p \<Longrightarrow> window (a + k) n xs = window k n (window a p xs)"
  by (simp add: window_def take_drop ac_simps min_def)

lemma table_of_bytes:
  assumes q: "queue_in l m" and i: "unat i < qn l"
    and w: "window (unat (desc_table l) + 16 * unat i) 16 (buf m) = bytes_of_desc d"
  shows "table m l i = Some d"
proof -
  note wf = queue_inD(1,2) [OF q]
  obtain a where a: "desc l i = Some a"
    using i by (auto simp: desc_def word_le_nat_alt not_le)
  have at: "unat a = unat (desc_table l) + 16 * unat i"
    using a desc_at [OF wf(1)] by simp
  have "unat a + 16 \<le> unat (avail_ring l)"
    using at i layout_wf_bounds(4) [OF wf(1)] by linarith
  then have small: "unat a + 16 < 18446744073709551616"
    using layout_wf_bounds(5,6) [OF wf(1)] by linarith
  then have u: "unat (a + 8) = unat a + 8" "unat (a + 12) = unat a + 12" "unat (a + 14) = unat a + 14"
    by (simp_all add: unat_add_small)
  have w0: "window (unat a + k) n (buf m) = window k n (bytes_of_desc d)" if "k + n \<le> 16" for k n
    using window_of_window [OF that, of "unat a" "buf m"] w at by simp
  have "window (unat a) 8 (buf m) = le_bytes 8 (d_addr d)" "window (unat a + 8) 4 (buf m) = le_bytes 4 (d_len d)"
    "window (unat a + 12) 2 (buf m) = le_bytes 2 (d_flags d)" "window (unat a + 14) 2 (buf m) = le_bytes 2 (d_next d)"
    using w0 [of 0 8] w0 [of 8 4] w0 [of 12 2] w0 [of 14 2] by (simp_all add: window_def bytes_of_desc_def)
  then show ?thesis
    using a u desc_fields(1-4) [OF q a] wf(2)
    by (simp add: table_def read_descriptor_def read_u64_eq read_u32_eq read_u16_eq)
qed

definition loop_mem :: SharedMem where
  "loop_mem = \<lparr>buf = bytes_of_desc loop_desc @ replicate 112 0\<rparr>"

lemma loop_queue_in: "queue_in small_layout loop_mem"
  using small_wf by (simp add: queue_in_def mem_wf_def loop_mem_def)

lemma loop_table: "table loop_mem small_layout 0 = Some loop_desc"
  by (rule table_of_bytes [OF loop_queue_in]) (simp_all add: loop_mem_def window_def)

definition trap_mem :: SharedMem where
  "trap_mem = \<lparr>buf = bytes_of_desc (trap_descs small_layout ! 0) @ bytes_of_desc (trap_descs small_layout ! 1) @
     [0, 0, 1, 0] @ replicate 92 0\<rparr>"

lemma trap_queue_in: "queue_in small_layout trap_mem"
  using small_wf by (simp add: queue_in_def mem_wf_def trap_mem_def)

lemma trap_table:
  "table trap_mem small_layout 0 = Some (trap_descs small_layout ! 0)"
  "table trap_mem small_layout 1 = Some (trap_descs small_layout ! 1)"
proof -
  show "table trap_mem small_layout 0 = Some (trap_descs small_layout ! 0)"
    by (rule table_of_bytes [OF trap_queue_in]) (simp_all add: trap_mem_def window_def)
  show "table trap_mem small_layout 1 = Some (trap_descs small_layout ! 1)"
    by (rule table_of_bytes [OF trap_queue_in]) (simp_all add: trap_mem_def window_def)
qed

lemma replicate_2: "replicate 2 x = [x, x]"
  by (simp add: numeral_2_eq_2)

lemma trap_fields:
  "get_u16 trap_mem (avail_idx small_layout) = 1" "get_u16 trap_mem (used_idx small_layout) = 0"
  "avail_load small_layout trap_mem i = 0"
proof -
  note mem = queue_inD(2) [OF trap_queue_in] and fields = fields_in_mem [OF trap_queue_in]
  show "get_u16 trap_mem (avail_idx small_layout) = 1" "get_u16 trap_mem (used_idx small_layout) = 0"
    using read_u16_eq [OF mem, of "avail_idx small_layout"] read_u16_eq [OF mem, of "used_idx small_layout"]
      fields(1,2) avail_idx_at [OF small_wf] used_idx_at [OF small_wf]
    by (simp_all add: get_u16_def trap_mem_def window_def of_le_bytes_def replicate_2)
  obtain a where a: "avail_slot small_layout i = Some a" "unat a = 36 + 2 * unat (i mod 2)"
    using slots_some [OF small_wf, of i] by auto
  have "unat (i mod 2) < 2" using slot_lt [OF small_wf, of i] by simp
  then have "unat a = 36 \<or> unat a = 38" using a(2) by auto
  then have "read_u16 trap_mem a = Inr 0"
    using read_u16_eq [OF mem, of a] avail_load_eq(3) [OF trap_queue_in a(1)]
    by (auto simp: trap_mem_def window_def of_le_bytes_def replicate_2)
  then show "avail_load small_layout trap_mem i = 0"
    using a(1) by (simp add: avail_load_def)
qed

lemma small_trapped: "trapped small_device trap_mem"
  using trap_queue_in trap_table trap_fields by (simp add: trapped_def)

end
