(* ===== verification/VqAttack.thy ===== *)
theory VqAttack
  imports VqHostile
begin

text \<open>
  \<^verbatim>\<open>hostile_chains\<close> of \<^verbatim>\<open>rung-02-virtio/toy-virtq-raw/src/main.rs\<close>: five guests that write descriptors and
  publish them without the driver, each on a fresh region, and the reason the device gives. A case
  keeps the memory it ends with, so that the completion can be read from it.
\<close>

unbundle bit_operations_syntax

section \<open>The attacks\<close>

definition REGION :: nat where "REGION = 64 * 1024"

definition QUEUE_SIZE :: u16 where "QUEUE_SIZE = 8"

definition write_desc :: "SharedMem \<Rightarrow> VirtqLayout \<Rightarrow> u16 \<Rightarrow> u64 \<Rightarrow> u32 \<Rightarrow> u16 \<Rightarrow> u16 \<Rightarrow> SharedMem option" where
  "write_desc m l index addr len flags nxt =
     (case desc l index of
        None \<Rightarrow> None
      | Some at \<Rightarrow>
        (case write_slice m at (le_bytes 8 addr) of Inl e \<Rightarrow> None | Inr m1 \<Rightarrow>
        (case write_u32 m1 (at + 8) len of Inl e \<Rightarrow> None | Inr m2 \<Rightarrow>
        (case write_u16 m2 (at + 12) flags of Inl e \<Rightarrow> None | Inr m3 \<Rightarrow>
        (case write_u16 m3 (at + 14) nxt of Inl e \<Rightarrow> None | Inr m4 \<Rightarrow> Some m4)))))"

fun write_descs :: "SharedMem \<Rightarrow> VirtqLayout \<Rightarrow> (u16 \<times> u64 \<times> u32 \<times> u16 \<times> u16) list \<Rightarrow> SharedMem option" where
  "write_descs m l [] = Some m"
| "write_descs m l ((index, addr, len, flags, nxt) # ds) =
     (case write_desc m l index addr len flags nxt of None \<Rightarrow> None | Some m' \<Rightarrow> write_descs m' l ds)"

definition hostile_cases :: "(string \<times> (u16 \<times> u64 \<times> u32 \<times> u16 \<times> u16) list) list" where
  "hostile_cases =
     [(''self-referential descriptor (desc[0].next = 0)'',
       [(0, 0x2000, 16, VIRTQ_DESC_F_NEXT, 0)]),
      (''two-descriptor cycle (0 -> 1 -> 0)'',
       [(0, 0x2000, 16, VIRTQ_DESC_F_NEXT, 1), (1, 0x2000, 16, VIRTQ_DESC_F_NEXT, 0)]),
      (''next points outside the table'',
       [(0, 0x2000, 16, VIRTQ_DESC_F_NEXT, 60000)]),
      (''buffer outside the shared region'',
       [(0, - 1 - 8, 4096, 0, 0)]),
      (''device-readable after device-writable'',
       [(0, 0x2000, 16, VIRTQ_DESC_F_WRITE OR VIRTQ_DESC_F_NEXT, 1), (1, 0x2000, 16, 0, 0)])]"

text \<open>One case: the reason the device gives, if any, and the memory it leaves.\<close>

definition hostile_case :: "VirtqLayout \<Rightarrow> (u16 \<times> u64 \<times> u32 \<times> u16 \<times> u16) list
    \<Rightarrow> ((unit, RejectReason option \<times> SharedMem) outcome) option" where
  "hostile_case l descs =
     (let dev = device_new l False
      in case write_descs (mem_new REGION) l descs of None \<Rightarrow> Some Panic | Some m1 \<Rightarrow>
     (case avail_slot l 0 of None \<Rightarrow> Some Panic | Some slot \<Rightarrow>
     (case write_u16 m1 slot 0 of Inl e \<Rightarrow> Some Panic | Inr m2 \<Rightarrow>
     (case store_idx_release m2 (avail_idx l) 1 of Inl e \<Rightarrow> Some Panic | Inr m3 \<Rightarrow>
     (case process echo dev m3 () stats_default of
        None \<Rightarrow> None
      | Some (Err e, dev', m', w') \<Rightarrow> Some Panic
      | Some (Panic, dev', m', w') \<Rightarrow> Some Panic
      | Some (Ok st, dev', m', w') \<Rightarrow>
          if st_chains st \<noteq> 1 then Some Panic
          else Some (Ok (case st_rejected st of [] \<Rightarrow> None | (h, r) # _ \<Rightarrow> Some r, m')))))))"

fun run_cases :: "VirtqLayout \<Rightarrow> (string \<times> (u16 \<times> u64 \<times> u32 \<times> u16 \<times> u16) list) list
    \<Rightarrow> ((unit, (string \<times> RejectReason option \<times> SharedMem) list) outcome) option" where
  "run_cases l [] = Some (Ok [])"
| "run_cases l ((name, descs) # cases) =
     (case hostile_case l descs of
        None \<Rightarrow> None
      | Some (Err e) \<Rightarrow> Some (Err e)
      | Some Panic \<Rightarrow> Some Panic
      | Some (Ok (reason, m)) \<Rightarrow>
          (case run_cases l cases of
             Some (Ok out) \<Rightarrow> Some (Ok ((name, reason, m) # out))
           | r \<Rightarrow> r))"

definition hostile_chains :: "((unit, (string \<times> RejectReason option \<times> SharedMem) list) outcome) option" where
  "hostile_chains =
     (case layout_new 0 QUEUE_SIZE of None \<Rightarrow> Some Panic | Some l \<Rightarrow> run_cases l hostile_cases)"

section \<open>What a guest builds\<close>

lemma write_desc_ok:
  assumes "queue_in l m" "unat i < qn l"
  obtains m' where "write_desc m l i a n f x = Some m'" "same_off (desc_bytes l i) m m'"
    "table m' l i = Some \<lparr>d_addr = a, d_len = n, d_flags = f, d_next = x\<rparr>"
proof -
  let ?d = "\<lparr>d_addr = a, d_len = n, d_flags = f, d_next = x\<rparr> :: Descriptor"
  obtain at where at: "desc l i = Some at"
    using assms(2) by (auto simp: desc_def word_le_nat_alt not_le)
  obtain m' where m': "store_descriptor m at ?d = (Ok (), m')" "same_off (desc_bytes l i) m m'" "table m' l i = Some ?d"
    by (rule store_descriptor_ok [OF assms(1) at])
  have "write_desc m l i a n f x = Some m'"
    using m'(1) by (auto simp: write_desc_def store_descriptor_def at split: sum.splits)
  with that m'(2,3) show ?thesis by blast
qed

text \<open>A guest that publishes head 0 of the table in \<open>m1\<close>.\<close>

definition attacked :: "VirtqLayout \<Rightarrow> SharedMem \<Rightarrow> bool" where
  "attacked l m1 \<longleftrightarrow> queue_in l m1 \<and> length (buf m1) = REGION \<and> used_count l m1 = 0 \<and> avail_count l m1 = 0"

lemma attacked_start: "layout_wf l \<Longrightarrow> unat (layout_end l) \<le> REGION \<Longrightarrow> attacked l (mem_new REGION)"
  using queue_in_new [of l REGION] by (simp add: attacked_def REGION_def get_u16_new) (simp add: mem_new_def)

lemma attacked_write:
  assumes "attacked l m" "unat i < qn l"
  obtains m' where "write_desc m l i a n f x = Some m'" "attacked l m'"
    "table m' l i = Some \<lparr>d_addr = a, d_len = n, d_flags = f, d_next = x\<rparr>"
    "\<And>j. j \<noteq> i \<Longrightarrow> table m' l j = table m l j"
proof -
  have q: "queue_in l m" using assms(1) by (simp add: attacked_def)
  obtain m' where m': "write_desc m l i a n f x = Some m'" "same_off (desc_bytes l i) m m'"
    "table m' l i = Some \<lparr>d_addr = a, d_len = n, d_flags = f, d_next = x\<rparr>"
    by (rule write_desc_ok [OF q assms(2)])
  note wf = queue_inD [OF q]
  have "bytes_at (used_idx l) 2 \<inter> desc_bytes l i = {}" "bytes_at (avail_idx l) 2 \<inter> desc_bytes l i = {}"
    using desc_bytes_in_area [OF assms(2)] slot_bytes_in_areas(3,4) [OF wf(1)] areas_disjoint(1,2) [OF wf(1)] by blast+
  then have "attacked l m'"
    using assms(1) get_u16_frame [OF wf(2) m'(2)] queue_in_same_off [OF m'(2)] same_off_length [OF m'(2)]
    by (simp add: attacked_def)
  moreover have "table m' l j = table m l j" if "j \<noteq> i" for j
    using table_frame [OF q m'(2)] descs_bytes_disjoint [of "[j]" "[i]" l] that by simp
  ultimately show ?thesis using that m'(1,3) by blast
qed

lemma published_by_guest:
  assumes "attacked l m" "avail_slot l 0 = Some a"
  shows "write_u16 m a 0 = Inr (avail_store l m 0 0)"
    "store_idx_release (avail_store l m 0 0) (avail_idx l) 1 = Inr (published l m 0 0)"
    "pending (device_new l False) (published l m 0 0) = [0]"
    "table (published l m 0 0) l j = table m l j"
proof -
  let ?m = "published l m 0 0"
  have q: "queue_in l m" and none: "avail_count l m = 0" using assms(1) by (simp_all add: attacked_def)
  have q1: "queue_in l (avail_store l m 0 0)" using q by simp
  show "write_u16 m a 0 = Inr (avail_store l m 0 0)" by (rule avail_store_eq [OF q assms(2)])
  show "store_idx_release (avail_store l m 0 0) (avail_idx l) 1 = Inr ?m"
    using write_u16_put [OF queue_inD(2) [OF q1] fields_in_mem(1) [OF q1], of 1]
    by (simp add: store_idx_release_def published_def)
  have "0 < qn l" using layout_wf_bounds(1) [OF queue_inD(1) [OF q]] by simp
  then show "pending (device_new l False) ?m = [0]"
    using published_contents [OF q, of 0 0 0] published_facts(3) [OF q, of 0 0]
    by (simp add: pending_def device_new_def avail_queue.contents_def)
  show "table ?m l j = table m l j"
  proof (cases "unat j < qn l")
    case True
    have "desc_bytes l j \<inter> (avail_slot_bytes l 0 \<union> bytes_at (avail_idx l) 2) = {}"
      using desc_bytes_in_area [OF True] slot_bytes_in_areas(1,3) [OF queue_inD(1) [OF q]]
        areas_disjoint(1) [OF queue_inD(1) [OF q]] by blast
    then show ?thesis by (rule table_frame [OF q published_facts(1) [OF q, of 0 0]])
  qed (simp add: table_def desc_def word_le_nat_alt)
qed

section \<open>What the device answers\<close>

definition refused :: "VirtqLayout \<Rightarrow> RejectReason \<Rightarrow> (RejectReason option \<times> SharedMem) \<Rightarrow> bool" where
  "refused l r out \<longleftrightarrow> fst out = Some r \<and> used_count l (snd out) = 1 \<and> used_load l (snd out) 0 = (0, 0)"

text \<open>The device's reason once it walks head 0: the walk's error, or what a bad readable buffer gives.\<close>

lemma served_refused:
  assumes "attacked l m1" "write_descs (mem_new REGION) l descs = Some m1"
    and "serve_chain echo 0 ((device_new l False)\<lparr>next_avail := 1\<rparr>) (published l m1 0 0) () stats_default =
      (Ok (), (device_new l False)\<lparr>next_avail := 1, next_used := 1, num_added := 1\<rparr>,
       completed ((device_new l False)\<lparr>next_avail := 1\<rparr>) (published l m1 0 0) 0 0, (), st)"
    and "st_chains st = 1" "st_rejected st = [(0, r)]"
  shows "\<exists>out. hostile_case l descs = Some (Ok out) \<and> refused l r out"
proof -
  let ?dev = "device_new l False" and ?m = "published l m1 0 0"
  let ?d1 = "?dev\<lparr>next_avail := 1\<rparr>" and ?d2 = "?dev\<lparr>next_avail := 1, next_used := 1, num_added := 1\<rparr>"
  let ?m2 = "completed ?d1 ?m 0 0"
  have q1: "queue_in l m1" using assms(1) by (simp add: attacked_def)
  obtain a where a: "avail_slot l 0 = Some a"
    using slots_some [OF queue_inD(1) [OF q1]] by blast
  note g = published_by_guest [OF assms(1) a]
  have lay: "dev_layout ?dev = l" "next_avail ?dev = 0" "next_used ?dev = 0" by (simp_all add: device_new_def)
  have q: "queue_in l ?m" by (rule published_facts(2) [OF q1])
  have off: "same_off (used_area l) ?m ?m2"
    using completed_in_used_area [of ?d1 ?m 0 0] q lay by simp
  have "pending ?d2 ?m2 = pending ?d1 ?m"
    using areas_disjoint(3) [OF queue_inD(1) [OF q]]
    by (intro pending_frame [of ?d1 ?m "used_area l"]) (use q off lay in simp_all)
  also have "\<dots> = []"
    using pending_pop(2) [of ?dev ?m 0 "[]"] q g(3) lay by simp
  finally have "process echo ?d2 ?m2 () st = Some (Ok st, ?d2, ?m2, ())"
    by (intro process_empty) (use q queue_in_same_off [OF off] lay in simp_all)
  then have run: "process echo ?dev ?m () stats_default = Some (Ok st, ?d2, ?m2, ())"
    using process_Cons [of ?dev ?m 0 "[]" echo "()" stats_default ?d2 ?m2 "()" st] q g(3) assms(3) lay by simp
  have c: "used_count l ?m2 = 1" "used_load l ?m2 0 = (0, 0)"
    using completed_facts(3,4) [of ?d1 ?m 0 0] used_load_store [OF q, of 0 "(0, 0)" 0] q lay by simp_all
  have "hostile_case l descs = Some (Ok (Some r, ?m2))"
    using assms(2,4,5) a g(1,2) run by (simp add: hostile_case_def)
  then show ?thesis using c by (simp add: refused_def)
qed

lemma walk_refused:
  assumes "attacked l m1" "write_descs (mem_new REGION) l descs = Some m1"
    and "chain_walk (published l m1 0 0) l 0 = Inl e"
  shows "\<exists>out. hostile_case l descs = Some (Ok out) \<and> refused l (RejectChain e) out"
proof -
  let ?d = "(device_new l False)\<lparr>next_avail := 1\<rparr>"
  have q: "queue_in (dev_layout ?d) (published l m1 0 0)"
    using assms(1) published_facts(2) by (simp add: attacked_def device_new_def)
  obtain st where "serve_chain echo 0 ?d (published l m1 0 0) () stats_default =
      (Ok (), ?d\<lparr>next_used := next_used ?d + 1, num_added := num_added ?d + 1\<rparr>,
       completed ?d (published l m1 0 0) 0 0, (), st)"
      "st_chains st = 1" "st_rejected st = [(0, RejectChain e)]"
    using serve_chain_rejects [OF q, of 0 e echo "()" stats_default] assms(3)
    by (auto simp: device_new_def stats_default_def)
  then show ?thesis
    by (intro served_refused [OF assms(1,2)]) (simp_all add: device_new_def)
qed

lemma buffer_refused:
  assumes "attacked l m1" "write_descs (mem_new REGION) l descs = Some m1"
    and "chain_walk (published l m1 0 0) l 0 = Inr [d]" "\<not> is_write_only d"
    and "read_slice (published l m1 0 0) (d_addr d) (ucast (d_len d)) = Inl e"
  shows "\<exists>out. hostile_case l descs = Some (Ok out) \<and> refused l (RejectBuffer e) out"
proof -
  let ?d = "(device_new l False)\<lparr>next_avail := 1\<rparr>" and ?m = "published l m1 0 0"
  have q: "queue_in (dev_layout ?d) ?m" and lay: "dev_layout ?d = l"
    using assms(1) published_facts(2) by (simp_all add: attacked_def device_new_def)
  have refs: "readable_refs [d] = [(d_addr d, d_len d)]" "writable_refs [d] = []"
    using assms(4) by (simp_all add: refs_def)
  have parts: "bytes_of ?m [(d_addr d, d_len d)] = []" "read_errors ?m 0 (d_addr d, d_len d) = [(0, RejectBuffer e)]"
    using assms(5) by (simp_all add: bytes_of_def read_part_def read_errors_def)
  have work: "echo () [] = ([], ())" by (simp add: echo_def)
  obtain st where "serve_chain echo 0 ?d ?m () stats_default =
      (Ok (), ?d\<lparr>next_used := next_used ?d + 1, num_added := num_added ?d + 1\<rparr>, completed ?d ?m 0 0, (), st)"
      "st_chains st = 1" "st_rejected st = [(0, RejectBuffer e)]"
    using serve_chain_accepts [where d = ?d and m = ?m and h = 0 and ds = "[d]" and work = echo and w = "()"
        and response = "[]" and w' = "()" and st = stats_default, OF q] assms(3) lay refs parts work
    by (simp add: stats_default_def)
  then show ?thesis
    by (intro served_refused [OF assms(1,2)]) (simp_all add: device_new_def)
qed

section \<open>The five cases\<close>

definition attack_layout :: "VirtqLayout \<Rightarrow> bool" where
  "attack_layout l \<longleftrightarrow> layout_wf l \<and> queue_size l = QUEUE_SIZE \<and> unat (layout_end l) \<le> REGION"

text \<open>One or two descriptors written to a fresh region, as the table shows them once published.\<close>

lemma one_descriptor:
  assumes "attack_layout l"
  obtains m where "write_descs (mem_new REGION) l [(0, a, n, f, x)] = Some m" "attacked l m"
    "table (published l m 0 0) l 0 = Some \<lparr>d_addr = a, d_len = n, d_flags = f, d_next = x\<rparr>"
proof -
  have at: "attacked l (mem_new REGION)" "unat (0 :: u16) < qn l"
    using assms attacked_start by (simp_all add: attack_layout_def QUEUE_SIZE_def)
  obtain m where m: "write_desc (mem_new REGION) l 0 a n f x = Some m" "attacked l m"
      "table m l 0 = Some \<lparr>d_addr = a, d_len = n, d_flags = f, d_next = x\<rparr>"
    by (rule attacked_write [OF at])
  obtain s where "avail_slot l 0 = Some s"
    using slots_some [of l 0] assms unfolding attack_layout_def by blast
  from published_by_guest(4) [OF m(2) this, of 0] m show ?thesis
    by (intro that [of m]) simp_all
qed

lemma two_descriptors:
  assumes "attack_layout l"
  obtains m where "write_descs (mem_new REGION) l [(0, a, n, f, x), (1, b, k, g, y)] = Some m" "attacked l m"
    "table (published l m 0 0) l 0 = Some \<lparr>d_addr = a, d_len = n, d_flags = f, d_next = x\<rparr>"
    "table (published l m 0 0) l 1 = Some \<lparr>d_addr = b, d_len = k, d_flags = g, d_next = y\<rparr>"
proof -
  have at: "attacked l (mem_new REGION)" "unat (0 :: u16) < qn l" "unat (1 :: u16) < qn l"
    using assms attacked_start by (simp_all add: attack_layout_def QUEUE_SIZE_def)
  obtain m where m: "write_desc (mem_new REGION) l 0 a n f x = Some m" "attacked l m"
      "table m l 0 = Some \<lparr>d_addr = a, d_len = n, d_flags = f, d_next = x\<rparr>"
    by (rule attacked_write [OF at(1,2)])
  obtain m' where m': "write_desc m l 1 b k g y = Some m'" "attacked l m'"
      "table m' l 1 = Some \<lparr>d_addr = b, d_len = k, d_flags = g, d_next = y\<rparr>" "table m' l 0 = table m l 0"
    using attacked_write [OF m(2) at(3)] by (metis zero_neq_one)
  obtain s where "avail_slot l 0 = Some s"
    using slots_some [of l 0] assms unfolding attack_layout_def by blast
  from published_by_guest(4) [OF m'(2) this] m m' show ?thesis
    by (intro that [of m']) simp_all
qed

lemmas desc_flags = has_next_def is_write_only_def is_indirect_def virtq_consts

lemma five_cases:
  assumes "attack_layout l"
  shows "\<exists>out. hostile_case l (snd (hostile_cases ! 0)) = Some (Ok out) \<and> refused l (RejectChain (TooLong 8)) out"
    "\<exists>out. hostile_case l (snd (hostile_cases ! 1)) = Some (Ok out) \<and> refused l (RejectChain (TooLong 8)) out"
    "\<exists>out. hostile_case l (snd (hostile_cases ! 2)) = Some (Ok out) \<and> refused l (RejectChain (IndexOutOfRange 60000 8)) out"
    "\<exists>out. hostile_case l (snd (hostile_cases ! 3)) = Some (Ok out) \<and> refused l (RejectBuffer (OutOfBounds (- 9) 4096 65536)) out"
    "\<exists>out. hostile_case l (snd (hostile_cases ! 4)) = Some (Ok out) \<and> refused l (RejectChain ReadableAfterWritable) out"
proof -
  have q: "queue_size l = 8" using assms by (simp add: attack_layout_def QUEUE_SIZE_def)
  show "\<exists>out. hostile_case l (snd (hostile_cases ! 0)) = Some (Ok out) \<and> refused l (RejectChain (TooLong 8)) out"
  proof (rule one_descriptor [OF assms, where a = "0x2000" and n = 16 and f = VIRTQ_DESC_F_NEXT and x = 0])
    fix m assume m: "write_descs (mem_new REGION) l [(0, 0x2000, 16, VIRTQ_DESC_F_NEXT, 0)] = Some m" "attacked l m"
      "table (published l m 0 0) l 0 = Some \<lparr>d_addr = 0x2000, d_len = 16, d_flags = VIRTQ_DESC_F_NEXT, d_next = 0\<rparr>"
    have "chain_walk (published l m 0 0) l 0 = Inl (TooLong 8)"
      using self_loop_rejected [OF m(3)] q by (simp add: desc_flags)
    from walk_refused [OF m(2,1) this] show ?thesis by (simp add: hostile_cases_def)
  qed
  show "\<exists>out. hostile_case l (snd (hostile_cases ! 1)) = Some (Ok out) \<and> refused l (RejectChain (TooLong 8)) out"
  proof (rule two_descriptors [OF assms, where a = "0x2000" and n = 16 and f = VIRTQ_DESC_F_NEXT and x = 1 and b = "0x2000" and k = 16 and g = VIRTQ_DESC_F_NEXT and y = 0])
    fix m assume m: "write_descs (mem_new REGION) l [(0, 0x2000, 16, VIRTQ_DESC_F_NEXT, 1), (1, 0x2000, 16, VIRTQ_DESC_F_NEXT, 0)] = Some m"
      "attacked l m"
      "table (published l m 0 0) l 0 = Some \<lparr>d_addr = 0x2000, d_len = 16, d_flags = VIRTQ_DESC_F_NEXT, d_next = 1\<rparr>"
      "table (published l m 0 0) l 1 = Some \<lparr>d_addr = 0x2000, d_len = 16, d_flags = VIRTQ_DESC_F_NEXT, d_next = 0\<rparr>"
    have "is_power_of_two (queue_size l)" using assms unfolding attack_layout_def layout_wf_def by blast
    then have "chain_walk (published l m 0 0) l 0 = Inl (TooLong 8)"
      using two_cycle_rejected [OF m(3)] m(4) q by (simp add: desc_flags)
    from walk_refused [OF m(2,1) this] show ?thesis by (simp add: hostile_cases_def)
  qed
  show "\<exists>out. hostile_case l (snd (hostile_cases ! 2)) = Some (Ok out) \<and> refused l (RejectChain (IndexOutOfRange 60000 8)) out"
  proof (rule one_descriptor [OF assms, where a = "0x2000" and n = 16 and f = VIRTQ_DESC_F_NEXT and x = 60000])
    fix m assume m: "write_descs (mem_new REGION) l [(0, 0x2000, 16, VIRTQ_DESC_F_NEXT, 60000)] = Some m" "attacked l m"
      "table (published l m 0 0) l 0 = Some \<lparr>d_addr = 0x2000, d_len = 16, d_flags = VIRTQ_DESC_F_NEXT, d_next = 60000\<rparr>"
    have "chain_walk (published l m 0 0) l 0 = Inl (IndexOutOfRange 60000 8)"
      using next_outside_rejected [OF m(3)] q by (simp add: desc_flags)
    from walk_refused [OF m(2,1) this] show ?thesis by (simp add: hostile_cases_def)
  qed
  show "\<exists>out. hostile_case l (snd (hostile_cases ! 3)) = Some (Ok out) \<and> refused l (RejectBuffer (OutOfBounds (- 9) 4096 65536)) out"
  proof (rule one_descriptor [OF assms, where a = "- 9" and n = 4096 and f = 0 and x = 0])
    let ?d = "\<lparr>d_addr = - 9, d_len = 4096, d_flags = 0, d_next = 0\<rparr> :: Descriptor"
    fix m assume m: "write_descs (mem_new REGION) l [(0, - 9, 4096, 0, 0)] = Some m" "attacked l m"
      "table (published l m 0 0) l 0 = Some ?d"
    have "valid_chain (published l m 0 0) l 0 [?d]"
      using m(3) q by (simp add: valid_chain_def acceptable_def readable_first_Cons desc_flags)
        (simp add: readable_first_def)
    then have walk: "chain_walk (published l m 0 0) l 0 = Inr [?d]" by (simp add: chain_walk_Inr_iff)
    have qm: "queue_in l m" "length (buf m) = 65536" using m(2) by (simp_all add: attacked_def REGION_def)
    have "mem_wf (published l m 0 0)" "length (buf (published l m 0 0)) = 65536"
      using queue_inD(2) [OF published_facts(2) [OF qm(1)]] same_off_length [OF published_facts(1) [OF qm(1)]] qm(2)
      by simp_all
    then have "read_slice (published l m 0 0) (d_addr ?d) (ucast (d_len ?d)) = Inl (OutOfBounds (- 9) 4096 65536)"
      by (simp add: read_slice_eq in_mem_def mem_len_def)
    from buffer_refused [OF m(2,1) walk _ this] show ?thesis by (simp add: hostile_cases_def desc_flags)
  qed
  show "\<exists>out. hostile_case l (snd (hostile_cases ! 4)) = Some (Ok out) \<and> refused l (RejectChain ReadableAfterWritable) out"
  proof (rule two_descriptors [OF assms, where a = "0x2000" and n = 16 and f = "VIRTQ_DESC_F_WRITE OR VIRTQ_DESC_F_NEXT" and x = 1 and b = "0x2000" and k = 16 and g = 0 and y = 0])
    fix m assume m: "write_descs (mem_new REGION) l [(0, 0x2000, 16, VIRTQ_DESC_F_WRITE OR VIRTQ_DESC_F_NEXT, 1), (1, 0x2000, 16, 0, 0)] = Some m"
      "attacked l m"
      "table (published l m 0 0) l 0 =
        Some \<lparr>d_addr = 0x2000, d_len = 16, d_flags = VIRTQ_DESC_F_WRITE OR VIRTQ_DESC_F_NEXT, d_next = 1\<rparr>"
      "table (published l m 0 0) l 1 = Some \<lparr>d_addr = 0x2000, d_len = 16, d_flags = 0, d_next = 0\<rparr>"
    have "chain_walk (published l m 0 0) l 0 = Inl ReadableAfterWritable"
      using readable_after_writable_rejected [OF m(3)] m(4) q by (simp add: desc_flags)
    from walk_refused [OF m(2,1) this] show ?thesis by (simp add: hostile_cases_def)
  qed
qed

lemma run_cases_ok:
  assumes "list_all2 (\<lambda>c r. \<exists>out. hostile_case l (snd c) = Some (Ok out) \<and> refused l r out) cases rs"
  shows "\<exists>outs. run_cases l cases = Some (Ok outs) \<and> map fst outs = map fst cases \<and>
    list_all2 (\<lambda>x r. refused l r (snd x)) outs rs"
  using assms
proof (induction rule: list_all2_induct)
  case (Cons c cases r rs)
  obtain name descs where c: "c = (name, descs)" by (cases c)
  obtain reason m where out: "hostile_case l descs = Some (Ok (reason, m))" "refused l r (reason, m)"
    using Cons(1) c by auto
  obtain outs where outs: "run_cases l cases = Some (Ok outs)" "map fst outs = map fst cases"
      "list_all2 (\<lambda>x r. refused l r (snd x)) outs rs"
    using Cons(3) by blast
  show ?case
    by (intro exI [of _ "(name, reason, m) # outs"]) (use c out outs in simp)
qed simp

definition expected_reasons :: "RejectReason list" where
  "expected_reasons =
     [RejectChain (TooLong 8), RejectChain (TooLong 8), RejectChain (IndexOutOfRange 60000 8),
      RejectBuffer (OutOfBounds (- 9) 4096 65536), RejectChain ReadableAfterWritable]"

lemma attack_layout_new:
  obtains l where "layout_new 0 QUEUE_SIZE = Some l" "attack_layout l" "unat (layout_end l) = 222"
proof -
  have new: "layout_new 0 QUEUE_SIZE = Some \<lparr>queue_size = 8, desc_table = 0, avail_ring = 128, used_ring = 152\<rparr>"
    (is "_ = Some ?l") unfolding QUEUE_SIZE_def by code_simp
  have wf: "layout_wf ?l"
    by (rule layout_new_wf [OF new]) (simp add: QUEUE_SIZE_def)
  have "unat (layout_end ?l) = 222"
    using total_size_at(2) [OF wf] by simp
  then show ?thesis
    using that new wf by (simp add: attack_layout_def QUEUE_SIZE_def REGION_def)
qed

lemma hostile_chains_run:
  assumes "attack_layout l"
  shows "\<exists>outs. run_cases l hostile_cases = Some (Ok outs) \<and> map fst outs = map fst hostile_cases \<and>
    list_all2 (\<lambda>x r. refused l r (snd x)) outs expected_reasons"
proof (rule run_cases_ok)
  let ?P = "\<lambda>c r. \<exists>out. hostile_case l (snd c) = Some (Ok out) \<and> refused l r out"
  have eq: "map ((!) hostile_cases) [0, 1, 2, 3, 4] = hostile_cases" by (simp add: hostile_cases_def)
  have "list_all2 (\<lambda>k r. ?P (hostile_cases ! k) r) [0, 1, 2, 3, 4] expected_reasons"
    unfolding expected_reasons_def list_all2_Cons by (intro conjI five_cases [OF assms] list.rel_intros)
  then have "list_all2 ?P (map ((!) hostile_cases) [0, 1, 2, 3, 4]) expected_reasons"
    by (simp only: list_all2_map1)
  then show "list_all2 ?P hostile_cases expected_reasons" by (simp only: eq)
qed

end
