(* ===== verification/VqDemo.thy ===== *)
theory VqDemo
  imports VqAttack
begin

text \<open>
  The demo of \<^verbatim>\<open>rung-02-virtio/toy-virtq-raw/src/main.rs\<close>, on any requests. What is printed is the
  value of a definition. An \<^verbatim>\<open>expect\<close> or an assertion that fails is \<open>Panic\<close>, a processing loop that
  does not return is \<open>None\<close>.
\<close>

section \<open>The demo\<close>

datatype DemoFailure = OutputDiffers | DescriptorsLeaked | ChainRejected

definition as_bytes :: "string \<Rightarrow> u8 list" where
  "as_bytes = map of_char"

definition to_ascii_uppercase :: "u8 list \<Rightarrow> u8 list" where
  "to_ascii_uppercase = map (\<lambda>b. if 97 \<le> b \<and> b \<le> 122 then b - 32 else b)"

definition uppercase_work :: "unit \<Rightarrow> u8 list \<Rightarrow> u8 list \<times> unit" where
  "uppercase_work w req = (to_ascii_uppercase req, w)"

definition demo_requests :: "u8 list list list" where
  "demo_requests = map (map as_bytes)
     [[''hello virtio''], [''scatter '', ''gather''], [''third'']]"

text \<open>The loop over the parts of a request: each is copied into the arena and becomes a readable buffer.\<close>

fun alloc_parts :: "Driver \<Rightarrow> SharedMem \<Rightarrow> u8 list list \<Rightarrow> Buffer list
    \<Rightarrow> (DemoFailure, Buffer list \<times> Driver \<times> SharedMem) outcome" where
  "alloc_parts d m [] buffers = Ok (buffers, d, m)"
| "alloc_parts d m (part # parts) buffers =
     (case alloc d m part of
        (None, d', m') \<Rightarrow> Panic
      | (Some addr, d', m') \<Rightarrow>
          alloc_parts d' m' parts
            (buffers @ [\<lparr>b_addr = addr, b_len = word_of_nat (length part), b_writable = False\<rparr>]))"

definition publish_request :: "Driver \<Rightarrow> SharedMem \<Rightarrow> u8 list list
    \<Rightarrow> (DemoFailure, u16 \<times> Driver \<times> SharedMem) outcome" where
  "publish_request d m parts =
     (case alloc_parts d m parts [] of
        Err e \<Rightarrow> Err e
      | Panic \<Rightarrow> Panic
      | Ok (buffers, d1, m1) \<Rightarrow>
        (case alloc_uninit d1 64 of
           (None, d2) \<Rightarrow> Panic
         | (Some reply, d2) \<Rightarrow>
           (case add_chain d2 m1 (buffers @ [\<lparr>b_addr = reply, b_len = 64, b_writable = True\<rparr>]) of
              (Ok head, d3, m2) \<Rightarrow> Ok (head, d3, m2)
            | _ \<Rightarrow> Panic)))"

fun publish_requests :: "Driver \<Rightarrow> SharedMem \<Rightarrow> u8 list list list
    \<Rightarrow> (DemoFailure, Driver \<times> SharedMem) outcome" where
  "publish_requests d m [] = Ok (d, m)"
| "publish_requests d m (parts # rest) =
     (case publish_request d m parts of
        Err e \<Rightarrow> Err e
      | Panic \<Rightarrow> Panic
      | Ok (head, d', m') \<Rightarrow> publish_requests d' m' rest)"

text \<open>The reply buffer of a completed chain: its first writable descriptor, found by walking it again.\<close>

definition reply_addr :: "Device \<Rightarrow> SharedMem \<Rightarrow> u16 \<Rightarrow> u64 option" where
  "reply_addr dev m head =
     (case List.find is_write_only (List.map_filter (\<lambda>i. case i of Inl e \<Rightarrow> None | Inr d \<Rightarrow> Some d)
         (chain_items (chain dev m head))) of
        None \<Rightarrow> None
      | Some d \<Rightarrow> Some (d_addr d))"

fun check_replies :: "Device \<Rightarrow> SharedMem \<Rightarrow> (u16 \<times> u32) list \<Rightarrow> u8 list list list \<Rightarrow> bool
    \<Rightarrow> (DemoFailure, bool) outcome" where
  "check_replies dev m [] rs ok = Ok ok"
| "check_replies dev m ((head, len) # cs) rs ok =
     (case reply_addr dev m head of
        None \<Rightarrow> Panic
      | Some a \<Rightarrow>
        (case read_slice m a (ucast len) of
           Inl e \<Rightarrow> Panic
         | Inr got \<Rightarrow>
           (case rs of
              [] \<Rightarrow> Panic
            | parts # rest \<Rightarrow>
                check_replies dev m cs rest (ok \<and> got = to_ascii_uppercase (concat parts)))))"

record DemoReport =
  rp_kick :: bool
  rp_avail_event :: u16
  rp_stats :: ProcessStats
  rp_interrupt :: bool
  rp_used_event :: u16
  rp_completions :: "(u16 \<times> u32) list"

text \<open>The demo on any requests; \<^verbatim>\<open>demo\<close> runs it on three.\<close>

definition exchange :: "VirtqLayout \<Rightarrow> u8 list list list \<Rightarrow> ((DemoFailure, DemoReport) outcome) option" where
  "exchange l reqs =
     (let drv = driver_new l (word_of_nat REGION) True;
          dev = device_new l True
      in case publish_requests drv (mem_new REGION) reqs of
        Err e \<Rightarrow> Some (Err e)
      | Panic \<Rightarrow> Some Panic
      | Ok (drv1, m1) \<Rightarrow>
     (case needs_kick drv1 m1 of
        (Inl e, drv2) \<Rightarrow> Some Panic
      | (Inr kick, drv2) \<Rightarrow>
     (case load_relaxed m1 (avail_event l) of
        Inl e \<Rightarrow> Some Panic
      | Inr avail_ev \<Rightarrow>
     (case process uppercase_work dev m1 () stats_default of
        None \<Rightarrow> None
      | Some (Err e, dev1, m2, w) \<Rightarrow> Some Panic
      | Some (Panic, dev1, m2, w) \<Rightarrow> Some Panic
      | Some (Ok st, dev1, m2, w) \<Rightarrow>
     (case needs_notification dev1 m2 of
        (Inl e, dev2) \<Rightarrow> Some Panic
      | (Inr interrupt, dev2) \<Rightarrow>
     (case load_relaxed m2 (used_event l) of
        Inl e \<Rightarrow> Some Panic
      | Inr used_ev \<Rightarrow>
     (case collect_used drv2 m2 of
        (Err e, drv3) \<Rightarrow> Some Panic
      | (Panic, drv3) \<Rightarrow> Some Panic
      | (Ok cs, drv3) \<Rightarrow>
     (case check_replies dev2 m2 cs reqs True of
        Err e \<Rightarrow> Some (Err e)
      | Panic \<Rightarrow> Some Panic
      | Ok ok \<Rightarrow>
        Some (if \<not> ok then Err OutputDiffers
          else if free_descriptors drv3 \<noteq> unat QUEUE_SIZE then Err DescriptorsLeaked
          else if stats_errors st \<noteq> 0 then Err ChainRejected
          else Ok \<lparr>rp_kick = kick, rp_avail_event = avail_ev, rp_stats = st, rp_interrupt = interrupt,
            rp_used_event = used_ev, rp_completions = cs\<rparr>)))))))))"

definition virtq_demo :: "((DemoFailure, DemoReport) outcome) option" where
  "virtq_demo =
     (case layout_new 0 QUEUE_SIZE of None \<Rightarrow> Some Panic | Some l \<Rightarrow> exchange l demo_requests)"

section \<open>The allocator at work\<close>

lemma alloc_uninit_ok:
  assumes "unat (arena d) + unat len \<le> unat (arena_end d)" "unat (arena_end d) < 2 ^ 63"
  obtains a where "alloc_uninit d len = (Some (arena d), d\<lparr>arena := a\<rparr>)"
    "unat (arena d) + unat len \<le> unat a" "unat a \<le> unat (arena d) + unat len + 8"
proof -
  let ?e = "arena d + ucast len :: u64"
  have e: "unat ?e = unat (arena d) + unat len" "checked_add (arena d) (ucast len) = Some ?e"
    using assms by (simp_all add: checked_add_def unat_add_small)
  have "0 < unat (8 :: u64)" "unat ?e + unat (8 :: u64) < 2 ^ 64" using e(1) assms by simp_all
  note n = next_multiple_of_bounds [OF this]
  have "alloc_uninit d len = (Some (arena d), d\<lparr>arena := next_multiple_of ?e 8\<rparr>)"
    using e assms(1) by (simp add: alloc_uninit_def word_less_nat_alt)
  then show ?thesis using that n e(1) by simp
qed

lemma alloc_ok:
  assumes "mem_wf m" "unat (arena_end d) \<le> length (buf m)"
    and "unat (arena d) + length data \<le> unat (arena_end d)" "length data < 2 ^ 32"
  obtains a m' where "alloc d m data = (Some (arena d), d\<lparr>arena := a\<rparr>, m')"
    "unat (arena d) + length data \<le> unat a" "unat a \<le> unat (arena d) + length data + 8"
    "same_off (bytes_at (arena d) (length data)) m m'" "window (unat (arena d)) (length data) (buf m') = data"
proof -
  have n: "unat (word_of_nat (length data) :: u32) = length data"
    using assms(4) by (simp add: unat_of_nat take_bit_nat_eq_self)
  have lim: "unat (arena_end d) < 2 ^ 63" using assms(1,2) by (simp add: mem_wf_def)
  obtain a where a: "alloc_uninit d (word_of_nat (length data)) = (Some (arena d), d\<lparr>arena := a\<rparr>)"
      "unat (arena d) + length data \<le> unat a" "unat a \<le> unat (arena d) + length data + 8"
    using alloc_uninit_ok [of d "word_of_nat (length data)"] assms(3) lim n by metis
  let ?m = "m\<lparr>buf := blit (unat (arena d)) data (buf m)\<rparr>"
  have fit: "unat (arena d) + length data \<le> length (buf m)" using assms(2,3) by simp
  have "write_slice m (arena d) data = Inr ?m"
    using assms(1,4) fit by (simp add: write_slice_eq in_mem_def)
  then have "alloc d m data = (Some (arena d), d\<lparr>arena := a\<rparr>, ?m)"
    using a(1) by (simp add: alloc_def)
  from that [OF this a(2,3) blit_same_off [OF fit]] window_blit_same [OF fit] show ?thesis by simp
qed

text \<open>What the parts of a request take: their bytes and at most 8 of padding each.\<close>

definition parts_room :: "u8 list list \<Rightarrow> nat" where
  "parts_room parts = sum_list (map (\<lambda>p. length p + 8) parts)"

lemma parts_room_simps [simp]: "parts_room [] = 0" "parts_room (p # parts) = length p + 8 + parts_room parts"
  by (simp_all add: parts_room_def)

definition holds_parts :: "SharedMem \<Rightarrow> Buffer list \<Rightarrow> u8 list list \<Rightarrow> bool" where
  "holds_parts m bs parts \<longleftrightarrow>
     list_all2 (\<lambda>b p. \<not> b_writable b \<and> unat (b_len b) = length p \<and> in_mem m (b_addr b) (length p) \<and>
       window (unat (b_addr b)) (length p) (buf m) = p) bs parts"

lemma holds_parts_frame:
  assumes "holds_parts m bs parts" "same_off S m m'" "refs_bytes (buffer_refs bs) \<inter> S = {}"
  shows "holds_parts m' bs parts"
  using assms(1,3) unfolding holds_parts_def
proof (induction rule: list_all2_induct)
  case (Cons b bs p parts)
  then have "bytes_at (b_addr b) (length p) \<inter> S = {}"
    by (simp add: buffer_refs_def ref_bytes_def Int_Un_distrib2)
  then show ?case
    using Cons same_off_window [OF assms(2)] same_off_in_mem [OF assms(2)]
    by (simp add: buffer_refs_def Int_Un_distrib2)
qed simp

lemma alloc_parts_ok:
  assumes "mem_wf m" "unat (arena_end d) \<le> length (buf m)"
    and "unat (arena d) + parts_room parts \<le> unat (arena_end d)" "\<forall>p \<in> set parts. length p < 2 ^ 32"
  shows "\<exists>bs' a m'. alloc_parts d m parts bs = Ok (bs @ bs', d\<lparr>arena := a\<rparr>, m') \<and>
    unat (arena d) \<le> unat a \<and> unat a \<le> unat (arena d) + parts_room parts \<and>
    same_off {unat (arena d) ..< unat a} m m' \<and> holds_parts m' bs' parts \<and>
    refs_bytes (buffer_refs bs') \<subseteq> {unat (arena d) ..< unat a}"
  using assms
proof (induction parts arbitrary: d m bs)
  case Nil
  then show ?case
    by (intro exI [of _ "[]"] exI [of _ "arena d"] exI [of _ m]) (simp add: holds_parts_def buffer_refs_def)
next
  case (Cons p parts)
  let ?b = "\<lparr>b_addr = arena d, b_len = word_of_nat (length p), b_writable = False\<rparr> :: Buffer"
  obtain a1 m1 where a: "alloc d m p = (Some (arena d), d\<lparr>arena := a1\<rparr>, m1)"
      "unat (arena d) + length p \<le> unat a1" "unat a1 \<le> unat (arena d) + length p + 8"
      "same_off (bytes_at (arena d) (length p)) m m1" "window (unat (arena d)) (length p) (buf m1) = p"
    by (rule alloc_ok [of m d p]) (use Cons.prems in simp_all)
  obtain bs' a' m' where ih: "alloc_parts (d\<lparr>arena := a1\<rparr>) m1 parts (bs @ [?b]) = Ok ((bs @ [?b]) @ bs', d\<lparr>arena := a'\<rparr>, m')"
      "unat a1 \<le> unat a'" "unat a' \<le> unat a1 + parts_room parts"
      "same_off {unat a1 ..< unat a'} m1 m'" "holds_parts m' bs' parts"
      "refs_bytes (buffer_refs bs') \<subseteq> {unat a1 ..< unat a'}"
    using Cons.IH [of m1 "d\<lparr>arena := a1\<rparr>" "bs @ [?b]"] Cons.prems a(3) same_off_wf [OF a(4)] same_off_length [OF a(4)]
    by auto
  have n: "unat (word_of_nat (length p) :: u32) = length p"
    using Cons.prems(4) by (simp add: unat_of_nat take_bit_nat_eq_self)
  have "in_mem m1 (arena d) (length p)"
    using Cons.prems(2,3) same_off_in_mem [OF a(4)] by (simp add: in_mem_def)
  moreover have "bytes_at (arena d) (length p) \<inter> {unat a1 ..< unat a'} = {}"
    using a(2) by (auto simp: bytes_at_def)
  ultimately have holds: "holds_parts m' (?b # bs') (p # parts)"
    using ih(5) n a(5) same_off_window [OF ih(4)] same_off_in_mem [OF ih(4)] by (simp add: holds_parts_def)
  have off: "same_off {unat (arena d) ..< unat a'} m m'"
    by (rule same_off_mono [OF same_off_trans [OF a(4) ih(4)]]) (use a(2) ih(2) in \<open>auto simp: bytes_at_def\<close>)
  have area: "refs_bytes (buffer_refs (?b # bs')) \<subseteq> {unat (arena d) ..< unat a'}"
    using ih(2,6) a(2) n by (auto simp: buffer_refs_def ref_bytes_def bytes_at_def)
  show ?case
    by (intro exI [of _ "?b # bs'"] exI [of _ a'] exI [of _ m'])
      (use a(1,2,3) ih(1,2,3) off holds area in simp)
qed

section \<open>Publishing requests\<close>

lemma holds_parts_facts:
  assumes "holds_parts m bs parts"
  shows "length bs = length parts" "filter (\<lambda>b. \<not> b_writable b) bs = bs" "filter b_writable bs = []"
    "readable_precede (bs @ [b'])" "sum_list (map (unat \<circ> b_len) bs) = length (concat parts)"
  using assms unfolding holds_parts_def
proof (induction rule: list_all2_induct)
  case Nil
  { case 1 show ?case by simp next case 2 show ?case by simp next case 3 show ?case by simp
  next case 4 show ?case by simp next case 5 show ?case by simp }
next
  case (Cons b bs p parts)
  { case 1 show ?case using Cons by simp next case 2 show ?case using Cons by simp
  next case 3 show ?case using Cons by simp next case 4 show ?case using Cons by (cases bs) simp_all
  next case 5 show ?case using Cons by simp }
qed

lemma holds_parts_bytes:
  assumes "mem_wf m" "holds_parts m bs parts"
  shows "bytes_of m (buffer_refs bs) = concat parts"
  using assms(2) unfolding holds_parts_def
  by (induction rule: list_all2_induct)
    (use read_part_in [OF assms(1)] in \<open>simp_all add: bytes_of_def buffer_refs_def\<close>)

lemma holds_parts_in: "holds_parts m bs parts \<Longrightarrow> refs_in m (buffer_refs bs)"
  unfolding holds_parts_def
  by (induction rule: list_all2_induct) (simp_all add: refs_in_def buffer_refs_def)

text \<open>The arena begins after the queue, and everything in flight lies below its current end.\<close>

definition arena_ok :: "Driver \<Rightarrow> SharedMem \<Rightarrow> flight list \<Rightarrow> bool" where
  "arena_ok drv m fs \<longleftrightarrow> unat (layout_end (drv_layout drv)) \<le> unat (arena drv) \<and>
     unat (arena_end drv) \<le> length (buf m) \<and>
     (\<forall>f \<in> set fs. refs_bytes (request_refs (snd f)) \<union> refs_bytes (reply_refs (snd f)) \<subseteq> {..< unat (arena drv)})"

lemma above_queue:
  assumes "layout_wf l" "unat (layout_end l) \<le> n" "A \<subseteq> {n ..< k}"
  shows "A \<inter> queue_area l = {}"
  using assms(2,3) total_size_at(2) [OF assms(1)] by (auto simp: queue_area_def)

text \<open>What one published request changes of the driver and guarantees of the queue.\<close>

definition published_request ::
  "Driver \<Rightarrow> SharedMem \<Rightarrow> Device \<Rightarrow> flight list \<Rightarrow> u8 list list \<Rightarrow> flight \<Rightarrow> Driver \<Rightarrow> SharedMem \<Rightarrow> bool" where
  "published_request drv m dev fs parts f drv' m' \<longleftrightarrow>
     in_flight drv' dev m' (fs @ [f]) \<and> arena_ok drv' m' (fs @ [f]) \<and>
     flight_request m' f = concat parts \<and> (\<exists>r. reply_refs (snd f) = [(r, 64)]) \<and>
     refs_in m' (request_refs (snd f)) \<and>
     (\<forall>g \<in> set fs. flight_request m' g = flight_request m g) \<and>
     free_descs drv = free_descs drv' @ rev (fst f) \<and> length (fst f) = Suc (length parts) \<and>
     length (snd f) = Suc (length parts) \<and>
     unat (arena drv') \<le> unat (arena drv) + parts_room parts + 72 \<and>
     drv_layout drv' = drv_layout drv \<and> last_kick drv' = last_kick drv \<and> last_used drv' = last_used drv \<and>
     arena_end drv' = arena_end drv \<and> drv_event_idx drv' = drv_event_idx drv \<and>
     drv_avail_idx drv' = drv_avail_idx drv + 1 \<and>
     same_off (live_area (drv_layout drv) \<union> (- queue_area (drv_layout drv))) m m'"

lemma publish_request_ok:
  assumes fl: "in_flight drv dev m fs" and ar: "arena_ok drv m fs"
    and room: "unat (arena drv) + parts_room parts + 72 \<le> unat (arena_end drv)"
      "length (concat parts) + 64 < 2 ^ 32" "length parts < length (free_descs drv)"
  shows "\<exists>f drv' m'. publish_request drv m parts = Ok (flight_head f, drv', m') \<and>
    published_request drv m dev fs parts f drv' m'"
proof -
  let ?l = "drv_layout drv"
  note wf = queue_inD [OF queue_invD(2) [OF in_flightD(1) [OF fl]]]
  have le: "unat (layout_end ?l) \<le> unat (arena drv)" "unat (arena_end drv) \<le> length (buf m)"
    using ar by (simp_all add: arena_ok_def)
  have small: "\<forall>p \<in> set parts. length p < 2 ^ 32"
    using room(2) member_le_sum_list [of _ "map length parts"] by (fastforce simp: length_concat)
  obtain bs a1 m1 where al: "alloc_parts drv m parts [] = Ok (bs, drv\<lparr>arena := a1\<rparr>, m1)"
      "unat (arena drv) \<le> unat a1" "unat a1 \<le> unat (arena drv) + parts_room parts"
      "same_off {unat (arena drv) ..< unat a1} m m1" "holds_parts m1 bs parts"
      "refs_bytes (buffer_refs bs) \<subseteq> {unat (arena drv) ..< unat a1}"
    using alloc_parts_ok [OF wf(2) le(2), of parts "[]"] room(1) small by auto
  obtain a2 where a2: "alloc_uninit (drv\<lparr>arena := a1\<rparr>) 64 = (Some a1, drv\<lparr>arena := a2\<rparr>)"
      "unat a1 + 64 \<le> unat a2" "unat a2 \<le> unat a1 + 72"
    by (rule alloc_uninit_ok [of "drv\<lparr>arena := a1\<rparr>" 64]) (use al(3) room(1) le(2) wf(2) in \<open>simp_all add: mem_wf_def\<close>)
  let ?R = "\<lparr>b_addr = a1, b_len = 64, b_writable = True\<rparr> :: Buffer" and ?drv = "drv\<lparr>arena := a2\<rparr>"
  let ?bs = "bs @ [?R]"
  note h = holds_parts_facts [OF al(5)]
  have refs: "request_refs ?bs = buffer_refs bs" "reply_refs ?bs = [(a1, 64)]"
    using h(2,3) by (simp_all add: buffer_refs_def)
  have reply: "refs_bytes (reply_refs ?bs) \<subseteq> {unat (arena drv) ..< unat a2}"
    using al(2) a2(2) refs(2) by (auto simp: ref_bytes_def bytes_at_def)
  have request: "refs_bytes (request_refs ?bs) \<subseteq> {unat (arena drv) ..< unat a2}"
    using al(6) a2(2) unfolding refs(1) by auto
  note outside = above_queue [OF wf(1) le(1)]
  have fl1: "in_flight ?drv dev m1 fs"
    by (rule in_flight_frame [OF fl al(4) outside [OF subset_refl]])
  have "in_mem m1 a1 64"
    using a2(2,3) al(3) room(1) le(2) same_off_length [OF al(4)] by (simp add: in_mem_def)
  then have us: "usable (drv_layout ?drv) m1 ?bs"
    using outside [OF reply] outside [OF request] h(1,4,5) room(2) refs(2)
    by (simp add: usable_def good_buffers_def refs_in_def del: filter_append)
  have clear: "\<forall>f \<in> set fs. clear_of (snd f) ?bs"
  proof
    fix f assume "f \<in> set fs"
    then have "refs_bytes (reply_refs (snd f)) \<subseteq> {..< unat (arena drv)}"
      using ar by (auto simp: arena_ok_def)
    then show "clear_of (snd f) ?bs"
      unfolding clear_of_def using reply request by fastforce
  qed
  have "length ?bs \<le> length (free_descs ?drv)" using h(1) room(3) by simp
  then obtain "is" drv' m' where add: "add_chain ?drv m1 ?bs = (Ok (hd is), drv', m')"
      "in_flight drv' dev m' (fs @ [(is, ?bs)])" "free_descs ?drv = free_descs drv' @ rev is" "length is = length ?bs"
      "drv' = ?drv\<lparr>free_descs := free_descs drv', outstanding := outstanding drv',
         drv_avail_idx := drv_avail_idx ?drv + 1\<rparr>"
      "same_off (live_area (drv_layout ?drv)) m1 m'"
    by (rule in_flight_add [OF fl1 us _ clear])
  have keep: "drv_layout drv' = ?l" "last_kick drv' = last_kick drv" "last_used drv' = last_used drv"
      "arena_end drv' = arena_end drv" "drv_event_idx drv' = drv_event_idx drv" "arena drv' = a2"
      "drv_avail_idx drv' = drv_avail_idx drv + 1"
    by (subst add(5), simp)+
  have off: "same_off (live_area ?l) m1 m'" using add(6) by simp
  have live: "refs_bytes rs \<inter> live_area ?l = {}" if "refs_bytes rs \<inter> queue_area ?l = {}" for rs
    using that live_in_queue_area [OF wf(1)] by blast
  have wf1: "mem_wf m1" using wf(2) same_off_wf [OF al(4)] by simp
  have mine: "flight_request m' (is, ?bs) = concat parts"
    using bytes_of_frame [OF wf1 off live] outside [OF request] holds_parts_bytes [OF wf1 al(5)] refs(1) by simp
  have others: "flight_request m' g = flight_request m g" if "g \<in> set fs" for g
  proof -
    have "refs_bytes (request_refs (snd g)) \<inter> queue_area ?l = {}"
      using in_flightD(5) [OF fl that] by (simp add: ready_def usable_def)
    moreover have "refs_bytes (request_refs (snd g)) \<inter> {unat (arena drv) ..< unat a1} = {}"
      using ar that by (fastforce simp: arena_ok_def)
    ultimately show ?thesis
      using bytes_of_frame [OF wf1 off live] bytes_of_frame [OF wf(2) al(4)] by simp
  qed
  have inside: "refs_in m' (request_refs ?bs)"
    using holds_parts_in [OF al(5)] refs_in_same_off [OF off] refs(1) by simp
  have "{unat (arena drv) ..< unat a1} \<subseteq> - queue_area ?l"
    using outside [OF subset_refl] by blast
  then have frame: "same_off (live_area ?l \<union> (- queue_area ?l)) m m'"
    by (intro same_off_mono [OF same_off_trans [OF al(4) off]]) blast
  have "unat (arena drv) \<le> unat a2" using al(2) a2(2) by simp
  then have "arena_ok drv' m' (fs @ [(is, ?bs)])"
    using ar reply request same_off_length [OF frame] by (fastforce simp: arena_ok_def keep)
  then have "published_request drv m dev fs parts (is, ?bs) drv' m'"
    using add(2,3,4) mine inside others refs(2) h(1) keep frame al(3) a2(3) by (simp add: published_request_def)
  moreover have "publish_request drv m parts = Ok (hd is, drv', m')"
    using al(1) a2(1) add(1) by (simp add: publish_request_def)
  ultimately show ?thesis by (intro exI [of _ "(is, ?bs)"] exI [of _ drv'] exI [of _ m']) simp
qed

definition requests_room :: "u8 list list list \<Rightarrow> nat" where
  "requests_room reqs = sum_list (map (\<lambda>parts. parts_room parts + 72) reqs)"

definition chain_lengths :: "u8 list list list \<Rightarrow> nat list" where
  "chain_lengths reqs = map (\<lambda>parts. Suc (length parts)) reqs"

lemma request_measures [simp]:
  "requests_room [] = 0" "requests_room (parts # reqs) = parts_room parts + 72 + requests_room reqs"
  "chain_lengths [] = []" "chain_lengths (parts # reqs) = Suc (length parts) # chain_lengths reqs"
  by (simp_all add: requests_room_def chain_lengths_def)

lemma length_le_chain_lengths: "length reqs \<le> sum_list (chain_lengths reqs)"
  by (induction reqs) simp_all

definition published_requests ::
  "Driver \<Rightarrow> SharedMem \<Rightarrow> Device \<Rightarrow> flight list \<Rightarrow> u8 list list list \<Rightarrow> flight list \<Rightarrow> Driver \<Rightarrow> SharedMem \<Rightarrow> bool" where
  "published_requests drv m dev fs reqs gs drv' m' \<longleftrightarrow>
     in_flight drv' dev m' (fs @ gs) \<and> map (flight_request m') gs = map concat reqs \<and>
     (\<forall>f \<in> set gs. (\<exists>r. reply_refs (snd f) = [(r, 64)]) \<and> refs_in m' (request_refs (snd f))) \<and>
     (\<forall>g \<in> set fs. flight_request m' g = flight_request m g) \<and>
     free_descs drv = free_descs drv' @ rev (concat (map fst gs)) \<and>
     map (length \<circ> fst) gs = chain_lengths reqs \<and> map (length \<circ> snd) gs = chain_lengths reqs \<and>
     drv_layout drv' = drv_layout drv \<and> last_kick drv' = last_kick drv \<and> last_used drv' = last_used drv \<and>
     drv_event_idx drv' = drv_event_idx drv \<and> drv_avail_idx drv' = drv_avail_idx drv + of_nat (length reqs) \<and>
     same_off (live_area (drv_layout drv) \<union> (- queue_area (drv_layout drv))) m m'"

lemma publish_requests_ok:
  assumes "in_flight drv dev m fs" "arena_ok drv m fs"
    and "unat (arena drv) + requests_room reqs \<le> unat (arena_end drv)"
    and "\<forall>parts \<in> set reqs. length (concat parts) + 64 < 2 ^ 32"
    and "sum_list (chain_lengths reqs) \<le> length (free_descs drv)"
  shows "\<exists>gs drv' m'. publish_requests drv m reqs = Ok (drv', m') \<and>
    published_requests drv m dev fs reqs gs drv' m'"
  using assms
proof (induction reqs arbitrary: drv m fs)
  case Nil
  then show ?case
    by (intro exI [of _ "[]"] exI [of _ drv] exI [of _ m]) (simp add: published_requests_def)
next
  case (Cons parts reqs)
  obtain f drv1 m1 where 1: "publish_request drv m parts = Ok (flight_head f, drv1, m1)"
      "published_request drv m dev fs parts f drv1 m1"
    using publish_request_ok [OF Cons.prems(1,2), of parts] Cons.prems(3-5) by auto
  note one = 1(2) [unfolded published_request_def]
  have len: "length (free_descs drv) = length (free_descs drv1) + Suc (length parts)"
    using one by (metis length_append length_rev)
  obtain gs drv' m' where 2: "publish_requests drv1 m1 reqs = Ok (drv', m')"
      "published_requests drv1 m1 dev (fs @ [f]) reqs gs drv' m'"
    using Cons.IH [of drv1 m1 "fs @ [f]"] one len Cons.prems(3-5) by auto
  note rest = 2(2) [unfolded published_requests_def]
  have lay: "drv_layout drv1 = drv_layout drv" using one by blast
  have off: "same_off (live_area (drv_layout drv) \<union> (- queue_area (drv_layout drv))) m1 m'"
    using rest unfolding lay by blast
  have "same_off (live_area (drv_layout drv) \<union> (- queue_area (drv_layout drv))) m m'"
    by (rule same_off_mono [OF same_off_trans [OF _ off]]) (use one in blast)+
  moreover have "refs_in m' (request_refs (snd f))"
    using one refs_in_same_off [OF off] by blast
  ultimately have "published_requests drv m dev fs (parts # reqs) (f # gs) drv' m'"
    using one rest by (simp add: published_requests_def)
  moreover have "publish_requests drv m (parts # reqs) = Ok (drv', m')"
    using 1(1) 2(1) by simp
  ultimately show ?case by blast
qed

section \<open>Checking the replies\<close>

lemma find_filter: "List.find P xs = (case filter P xs of [] \<Rightarrow> None | x # _ \<Rightarrow> Some x)"
  by (induction xs) simp_all

lemma chain_items_ready:
  assumes "ready (dev_layout dev) m f"
  shows "chain_items (chain dev m (flight_head f)) = map Inr (chain_descs (zip (fst f) (snd f)))"
proof -
  have "chain_walk m (dev_layout dev) (flight_head f) = Inr (chain_descs (zip (fst f) (snd f)))"
    using assms stored_walk(1) [of m "dev_layout dev" "fst f" "snd f"] by (simp add: ready_def usable_def)
  then show ?thesis by (simp add: chain_def chain_walk_def walk_result_Inr)
qed

lemma map_filter_Inr: "List.map_filter (case_sum (\<lambda>e. None) Some) (map Inr ds) = ds"
  by (induction ds) (simp_all add: List.map_filter_simps)

lemma reply_addr_found:
  assumes "ready (dev_layout dev) m f" "reply_refs (snd f) = [(r, 64)]"
  shows "reply_addr dev m (flight_head f) = Some r"
proof -
  let ?ds = "chain_descs (zip (fst f) (snd f))"
  have "chain_items (chain dev m (flight_head f)) = map Inr ?ds" by (rule chain_items_ready [OF assms(1)])
  moreover have "writable_refs ?ds = [(r, 64)]"
    using assms refs_chain_descs(2) [of "zip (fst f) (snd f)"] by (simp add: ready_def)
  then obtain d where "filter is_write_only ?ds = [d]" "d_addr d = r"
    by (auto simp: refs_def)
  ultimately show ?thesis
    by (simp add: reply_addr_def find_filter map_filter_Inr)
qed

lemma reply_read:
  assumes "mem_wf m" "in_mem m r 64" "bytes_of m [(r, 64)] = a @ rest"
  shows "read_slice m r (word_of_nat (length a)) = Inr a"
proof -
  have w: "window (unat r) 64 (buf m) = a @ rest"
    using assms read_part_in [OF assms(1), of "(r, 64)"] by (simp add: bytes_of_def)
  have "length (window (unat r) 64 (buf m)) = 64"
    using assms(2) by (simp add: length_window in_mem_def)
  then have a: "length a \<le> 64" using w by simp
  then have n: "unat (word_of_nat (length a) :: u64) = length a"
    by (simp add: unat_of_nat take_bit_nat_eq_self)
  have "window (unat r) (length a) (buf m) = take (length a) (window (unat r) 64 (buf m))"
    using a by (simp add: window_def min_def)
  then show ?thesis
    using assms(1,2) a w n by (simp add: read_slice_eq in_mem_def)
qed

lemma reply_matches:
  assumes "queue_in (dev_layout dev) m" "ready (dev_layout dev) m f" "reply_refs (snd f) = [(r, 64)]"
    and "bytes_of m (reply_refs (snd f)) = a @ rest" "length a \<le> 64"
  shows "check_replies dev m ((flight_head f, word_of_nat (length a)) # cs) (parts # reqs) ok =
    check_replies dev m cs reqs (ok \<and> a = to_ascii_uppercase (concat parts))"
proof -
  have "in_mem m r 64"
    using assms(2,3) by (simp add: ready_def usable_def refs_in_def)
  then have "read_slice m r (word_of_nat (length a)) = Inr a"
    using reply_read [OF queue_inD(2) [OF assms(1)]] assms(3,4) by simp
  moreover have "(ucast (word_of_nat (length a) :: u32) :: u64) = word_of_nat (length a)"
    using assms(5) by (simp add: word_unat_eq_iff unsigned_ucast_eq unat_of_nat take_bit_nat_eq_self)
  ultimately show ?thesis
    using reply_addr_found [OF assms(2,3)] by simp
qed

lemma check_replies_ok:
  assumes "queue_in (dev_layout dev) m" "length fs = length reqs"
    and "\<forall>f \<in> set fs. ready (dev_layout dev) m f \<and> (\<exists>r. reply_refs (snd f) = [(r, 64)])"
    and "list_all2 (\<lambda>f parts. \<exists>rest. bytes_of m (reply_refs (snd f)) = to_ascii_uppercase (concat parts) @ rest) fs reqs"
    and "\<forall>parts \<in> set reqs. length (concat parts) \<le> 64"
  shows "check_replies dev m
    (zip (map flight_head fs) (map (\<lambda>parts. word_of_nat (length (concat parts))) reqs)) reqs True = Ok True"
  using assms(2-5)
proof (induction fs reqs rule: list_induct2)
  case (Cons f fs parts reqs)
  have len: "length (to_ascii_uppercase (concat parts)) = length (concat parts)"
    by (simp add: to_ascii_uppercase_def)
  show ?case
    using Cons reply_matches [OF assms(1), of f, where a = "to_ascii_uppercase (concat parts)", unfolded len]
    by fastforce
qed simp

section \<open>The statistics\<close>

lemma read_errors_in:
  "mem_wf m \<Longrightarrow> refs_in m rs \<Longrightarrow> concat (map (read_errors m h) rs) = []"
  by (induction rs) (auto simp: refs_in_def read_errors_def read_slice_eq)

definition request_bytes :: "u8 list list list \<Rightarrow> nat" where
  "request_bytes reqs = sum_list (map (length \<circ> concat) reqs)"

lemma count_all_eq:
  fixes st :: ProcessStats
  assumes "mem_wf m" "length fs = length reqs"
    and "\<forall>f \<in> set fs. refs_in m (request_refs (snd f)) \<and> (\<exists>r. reply_refs (snd f) = [(r, 64)])"
    and "map (flight_request m) fs = map concat reqs" "map (length \<circ> snd) fs = chain_lengths reqs"
    and "\<forall>parts \<in> set reqs. length (concat parts) \<le> 64"
  shows "count_all m fs (map (to_ascii_uppercase \<circ> concat) reqs) st =
    st\<lparr>st_chains := st_chains st + of_nat (length reqs),
      st_descriptors := st_descriptors st + of_nat (sum_list (chain_lengths reqs)),
      st_bytes_read := st_bytes_read st + of_nat (request_bytes reqs),
      st_bytes_written := st_bytes_written st + of_nat (request_bytes reqs)\<rparr>"
  using assms(2-6)
proof (induction fs reqs arbitrary: st rule: list_induct2)
  case (Cons f fs parts reqs)
  have n: "length (to_ascii_uppercase (concat parts)) = length (concat parts)" "length (concat parts) \<le> 64"
    using Cons.prems(4) by (simp_all add: to_ascii_uppercase_def)
  have "ucast (reply_len (snd f) (to_ascii_uppercase (concat parts))) = (word_of_nat (length (concat parts)) :: u64)"
    using n Cons.prems(1)
    by (auto simp: word_unat_eq_iff unsigned_ucast_eq unat_of_nat take_bit_nat_eq_self min_def)
  moreover have "st_rejected st @ concat (map (read_errors m (flight_head f)) (request_refs (snd f))) = st_rejected st"
    using read_errors_in [OF assms(1), of "request_refs (snd f)" "flight_head f"] Cons.prems(1) by simp
  ultimately have "count_served m (flight_head f) (snd f) (to_ascii_uppercase (concat parts)) st =
      st\<lparr>st_chains := st_chains st + 1, st_descriptors := st_descriptors st + of_nat (Suc (length parts)),
        st_bytes_read := st_bytes_read st + of_nat (length (concat parts)),
        st_bytes_written := st_bytes_written st + of_nat (length (concat parts))\<rparr>"
    using Cons.prems(2,3) unfolding count_served_def by simp
  then show ?case
    using Cons.IH Cons.prems by (simp add: request_bytes_def)
qed (simp add: request_bytes_def)

section \<open>The exchange\<close>

text \<open>The first descriptor of each chain when the descriptors are handed out in order.\<close>

fun chain_starts :: "nat \<Rightarrow> nat list \<Rightarrow> nat list" where
  "chain_starts n [] = []"
| "chain_starts n (k # ks) = n # chain_starts (n + k) ks"

lemma heads_in_order:
  assumes "map g [n..<N] = concat iss @ r" "list_all (\<lambda>is. is \<noteq> []) iss"
  shows "map hd iss = map g (chain_starts n (map length iss))"
  using assms
proof (induction iss arbitrary: n)
  case (Cons "is" iss)
  then have ne: "is \<noteq> []" by simp
  have eq: "map g [n..<N] = is @ (concat iss @ r)" using Cons.prems(1) by simp
  have le: "n + length is \<le> N"
    using arg_cong [OF eq, of length] ne by (cases "n \<le> N") auto
  then have "[n..<N] = [n..<n + length is] @ [n + length is..<N]"
    by (metis le_add1 upt_add_eq_append le_add_diff_inverse)
  then have split: "map g [n..<n + length is] = is" "map g [n + length is..<N] = concat iss @ r"
    using eq by (simp_all add: append_eq_append_conv)
  have "n < n + length is" using ne by simp
  then have "hd is = g n"
    using arg_cong [OF split(1), of hd] by (simp add: hd_map hd_upt)
  then show ?case
    using Cons.IH [OF split(2)] Cons.prems(2) by simp
qed simp

lemma answers_uppercase:
  "answers uppercase_work () rs = (map to_ascii_uppercase rs, ())"
  by (induction rs) (simp_all add: uppercase_work_def)

lemma in_flight_last_kick: "in_flight drv dev m fs \<Longrightarrow> in_flight (drv\<lparr>last_kick := k\<rparr>) dev m fs"
  using queue_inv_cong [of drv dev m "drv\<lparr>last_kick := k\<rparr>" dev] by (simp add: in_flight_def in_used_def)

lemma threshold_bytes:
  assumes "layout_wf l"
  shows "bytes_at (avail_event l) 2 \<inter> (live_area l \<union> (- queue_area l)) = {}"
    "bytes_at (used_event l) 2 \<inter> (live_area l \<union> (- queue_area l)) = {}"
  using thresholds_not_live(1,2) [OF assms] slot_bytes_in_areas(5,6) [OF assms] areas_disjoint(4) [OF assms]
  by blast+

lemma small_word_nonzero: "0 < n \<Longrightarrow> n < 65536 \<Longrightarrow> (word_of_nat n :: u16) \<noteq> 0"
  using unat_of_nat_u16 [of n] by auto

definition fits :: "VirtqLayout \<Rightarrow> u8 list list list \<Rightarrow> bool" where
  "fits l reqs \<longleftrightarrow> layout_wf l \<and> queue_size l = QUEUE_SIZE \<and> reqs \<noteq> [] \<and>
     unat (layout_end l) + 16 + requests_room reqs \<le> REGION \<and> sum_list (chain_lengths reqs) \<le> 8 \<and>
     (\<forall>parts \<in> set reqs. length (concat parts) \<le> 64)"

definition fresh_driver :: "VirtqLayout \<Rightarrow> Driver" where
  "fresh_driver l = driver_new l (word_of_nat REGION) True"

lemma fresh_start:
  fixes ev :: bool
  assumes "layout_wf l" "unat (layout_end l) + 16 \<le> REGION"
  defines "drv \<equiv> driver_new l (word_of_nat REGION) ev"
  shows "in_flight drv (device_new l ev) (mem_new REGION) []" "arena_ok drv (mem_new REGION) []"
    "unat (arena_end drv) = REGION" "unat (arena drv) < unat (layout_end l) + 16"
proof -
  have big: "REGION < 2 ^ 63" by (simp add: REGION_def)
  have inv: "queue_inv drv (device_new l ev) (mem_new REGION)"
    unfolding drv_def by (rule queue_inv_init [OF assms(1) big]) (use assms(2) in simp)
  have fields: "outstanding drv = Map.empty" "drv_layout drv = l" "arena drv = next_multiple_of (layout_end l) 16"
    by (simp_all add: drv_def driver_new_def)
  show lim: "unat (arena_end drv) = REGION"
    by (simp add: drv_def driver_new_def REGION_def)
  show "in_flight drv (device_new l ev) (mem_new REGION) []"
    by (rule in_flight_start [OF inv fields(1)])
  have "0 < unat (16 :: u64)" "unat (layout_end l) + unat (16 :: u64) < 2 ^ 64"
    using assms(2) by (simp_all add: REGION_def)
  note n = next_multiple_of_bounds [OF this]
  show "arena_ok drv (mem_new REGION) []"
    using n(1) fields lim by (simp add: arena_ok_def mem_new_def)
  show "unat (arena drv) < unat (layout_end l) + 16" using n(2) fields(3) by simp
qed

lemma region_wf: "mem_wf (mem_new REGION)"
  by (simp add: mem_wf_def mem_new_def REGION_def)

lemma exchange_published:
  assumes "fits l reqs"
  obtains gs drv m where "publish_requests (fresh_driver l) (mem_new REGION) reqs = Ok (drv, m)"
    "published_requests (fresh_driver l) (mem_new REGION) (device_new l True) [] reqs gs drv m"
    "map flight_head gs = map word_of_nat (chain_starts 0 (chain_lengths reqs))"
    "get_u16 m (avail_event l) = 0" "get_u16 m (used_event l) = 0"
proof -
  let ?d = "fresh_driver l" and ?m = "mem_new REGION" and ?dev = "device_new l True"
  note f = assms [unfolded fits_def]
  have wf: "layout_wf l" and le: "unat (layout_end l) + 16 \<le> REGION" and big: "REGION < 2 ^ 63"
    using f by (simp_all add: REGION_def)
  note start = fresh_start [OF wf le, of True, folded fresh_driver_def]
  have fields: "drv_layout ?d = l" by (simp add: fresh_driver_def driver_new_def)
  have q: "qn l = 8" using f by (simp add: QUEUE_SIZE_def)
  have free: "free_descs ?d = rev (map word_of_nat [0..<8])"
    using q by (simp add: fresh_driver_def driver_new_def)
  obtain gs drv m where p: "publish_requests ?d ?m reqs = Ok (drv, m)" "published_requests ?d ?m ?dev [] reqs gs drv m"
    using publish_requests_ok [OF start(1,2), of reqs] f start(3,4) free by fastforce
  note pub = p(2) [unfolded published_requests_def fields]
  have len: "map length (map fst gs) = chain_lengths reqs" using pub by simp
  have "rev (map word_of_nat [0..<8]) = free_descs drv @ rev (concat (map fst gs))"
    using pub free by simp
  then have "map word_of_nat [0..<8] = concat (map fst gs) @ rev (free_descs drv)"
    by (metis rev_append rev_rev_ident)
  moreover have "list_all (\<lambda>is. is \<noteq> []) (map fst gs)"
  proof -
    have "0 \<notin> set (map length (map fst gs))" unfolding len by (auto simp: chain_lengths_def)
    then show ?thesis by (auto simp: list_all_iff image_iff)
  qed
  ultimately have heads: "map flight_head gs = map word_of_nat (chain_starts 0 (chain_lengths reqs))"
    using heads_in_order [of word_of_nat 0 8 "map fst gs" "rev (free_descs drv)"] len by (simp add: comp_def)
  have off: "same_off (live_area l \<union> (- queue_area l)) ?m m" using pub by blast
  note ev = get_u16_frame [OF region_wf off threshold_bytes(1) [OF wf]]
    get_u16_frame [OF region_wf off threshold_bytes(2) [OF wf]]
  show ?thesis
    by (rule that [OF p heads]) (simp_all add: ev get_u16_new [OF big])
qed

definition expected_report :: "u8 list list list \<Rightarrow> DemoReport" where
  "expected_report reqs =
     \<lparr>rp_kick = True, rp_avail_event = 0,
      rp_stats = \<lparr>st_chains = of_nat (length reqs), st_descriptors = of_nat (sum_list (chain_lengths reqs)),
        st_bytes_read = of_nat (request_bytes reqs), st_bytes_written = of_nat (request_bytes reqs),
        st_rejected = []\<rparr>,
      rp_interrupt = True, rp_used_event = 0,
      rp_completions = zip (map word_of_nat (chain_starts 0 (chain_lengths reqs)))
        (map (\<lambda>parts. word_of_nat (length (concat parts))) reqs)\<rparr>"

lemma fresh_kick:
  assumes "queue_in l m" "drv_layout drv = l" "drv_event_idx drv" "last_kick drv = 0"
    and "get_u16 m (avail_event l) = 0" "drv_avail_idx drv \<noteq> 0"
  shows "needs_kick drv m = (Inr True, drv\<lparr>last_kick := drv_avail_idx drv\<rparr>)"
  using assms needs_kick_eq [of drv m] need_event_fires [of "drv_avail_idx drv" 0 0] by simp

lemma reply_lens_short:
  assumes "list_all2 (\<lambda>f parts. (\<exists>r. reply_refs (snd f) = [(r, 64)]) \<and> length (concat parts) \<le> 64) gs reqs"
  shows "reply_lens gs (map (to_ascii_uppercase \<circ> concat) reqs) =
    map (\<lambda>parts. word_of_nat (length (concat parts))) reqs"
  using assms by (induction rule: list_all2_induct) (auto simp: to_ascii_uppercase_def min_def)

lemma exchange_answered:
  assumes "fits l reqs" and pub: "published_requests (fresh_driver l) (mem_new REGION) (device_new l True) [] reqs gs drv1 m1"
    and ev: "get_u16 m1 (used_event l) = 0"
  defines "drv \<equiv> drv1\<lparr>last_kick := drv_avail_idx drv1\<rparr>" and "dev \<equiv> drained (device_new l True) m1"
    and "cs \<equiv> zip (map flight_head gs) (map (\<lambda>parts. word_of_nat (length (concat parts))) reqs)"
  obtains m2 drv2 where
    "process uppercase_work (device_new l True) m1 () stats_default =
      Some (Ok (rp_stats (expected_report reqs)), dev, m2, ())"
    "needs_notification dev m2 = (Inr True, dev\<lparr>num_added := 0\<rparr>)" "load_relaxed m2 (used_event l) = Inr 0"
    "collect_used drv m2 = (Ok cs, drv2)" "check_replies (dev\<lparr>num_added := 0\<rparr>) m2 cs reqs True = Ok True"
    "length (free_descs drv2) = 8"
proof -
  let ?dev = "device_new l True" and ?as = "map (to_ascii_uppercase \<circ> concat) reqs"
  note f = assms(1) [unfolded fits_def] and p = pub [unfolded published_requests_def, simplified]
  have lay: "drv_layout drv1 = l" "drv_layout drv = l" "last_used drv1 = 0" "dev_layout dev = l"
    using p by (simp_all add: drv_def dev_def fresh_driver_def driver_new_def drained_def device_new_def Let_def)
  have fl: "in_flight drv ?dev m1 gs"
    unfolding drv_def by (rule in_flight_last_kick) (use p in simp)
  note i = queue_invD [OF in_flightD(1) [OF fl], unfolded lay(2)] and wf = queue_inD [OF queue_invD(2) [OF in_flightD(1) [OF fl], unfolded lay(2)]]
  have len: "length gs = length reqs" using p by (metis length_map)
  have ans: "answers uppercase_work () (map (flight_request m1) gs) = (?as, ())"
    using p by (simp add: answers_uppercase comp_def)
  obtain m2 drv2 where d: "process uppercase_work ?dev m1 () stats_default =
        Some (Ok (count_all m1 gs ?as stats_default), dev, m2, ())"
      "same_off (flight_writes gs \<union> used_area l) m1 m2"
      "map (\<lambda>f. bytes_of m2 (reply_refs (snd f))) gs = map2 (\<lambda>f a. filled m1 (snd f) a) gs ?as"
      "collect_used drv m2 = (Ok (zip (map flight_head gs) (reply_lens gs ?as)), drv2)"
      "in_flight drv2 dev m2 []" "outstanding drv2 = Map.empty"
      "drv2 = drv\<lparr>free_descs := free_descs drv2, outstanding := Map.empty, last_used := last_used drv2\<rparr>"
    by (rule in_flight_done [OF fl ans, of stats_default, unfolded lay(2), folded dev_def])
  have short: "list_all2 (\<lambda>f parts. (\<exists>r. reply_refs (snd f) = [(r, 64)]) \<and> length (concat parts) \<le> 64) gs reqs"
    using p f len by (auto simp: list_all2_conv_all_nth)
  have stats: "count_all m1 gs ?as stats_default = rp_stats (expected_report reqs)"
    using count_all_eq [OF wf(2) len, of stats_default] p f by (simp add: expected_report_def stats_default_def comp_def)
  have lens: "zip (map flight_head gs) (reply_lens gs ?as) = cs"
    by (simp add: cs_def reply_lens_short [OF short])
  have us: "usable l m1 (snd g)" if "g \<in> set gs" for g
    using in_flightD(5) [OF fl that] lay(2) by (simp add: ready_def)
  have dis: "queue_area l \<inter> flight_writes gs = {}"
    using usable_outside(3) [OF wf(1) us] by (auto simp: flight_writes_def)
  have "bytes_at (used_event l) 2 \<inter> (flight_writes gs \<union> used_area l) = {}"
    using dis slot_bytes_in_areas(5) [OF wf(1)] areas_disjoint(3,4) [OF wf(1)] by blast
  then have ev2: "get_u16 m2 (used_event l) = 0"
    using get_u16_frame [OF wf(2) d(2)] ev by simp
  have q2: "queue_in l m2" using i(2) queue_in_same_off [OF d(2)] by simp
  have "pending ?dev m1 \<noteq> []" "unat (num_added ?dev) + length (pending ?dev m1) < 65536"
    using in_flightD(3) [OF fl] len f length_le_chain_lengths [of reqs] by (auto simp: device_new_def)
  then have irq: "needs_notification dev m2 = (Inr True, dev\<lparr>num_added := 0\<rparr>)"
    using process_interrupts [OF in_flightD(1) [OF fl] _ in_flightD(2) [OF fl] _ _ _ d(1)] ev lay by (simp add: drv_def device_new_def)
  have load: "load_relaxed m2 (used_event l) = Inr 0"
    using read_u16_get [OF queue_inD(2) [OF q2] fields_in_mem(3) [OF q2]] ev2 by (simp add: load_relaxed_def)
  have "desc_area l \<inter> (flight_writes gs \<union> used_area l) = {}"
    using dis areas_disjoint(2,4) [OF wf(1)] by blast
  then have ready: "\<forall>g \<in> set gs. ready l m2 g \<and> (\<exists>r. reply_refs (snd g) = [(r, 64)])"
    using ready_frame [OF _ i(2) d(2)] in_flightD(5) [OF fl] lay(2) p by auto
  have "list_all2 (\<lambda>g parts. \<exists>rest. bytes_of m2 (reply_refs (snd g)) = to_ascii_uppercase (concat parts) @ rest) gs reqs"
    unfolding list_all2_conv_all_nth
  proof (intro conjI allI impI)
    fix k assume k: "k < length gs"
    have "bytes_of m2 (reply_refs (snd (gs ! k))) = filled m1 (snd (gs ! k)) (?as ! k)"
      using arg_cong [OF d(3), of "\<lambda>xs. xs ! k"] k len by simp
    moreover have "ref_total (reply_refs (snd (gs ! k))) = 64" "length (?as ! k) \<le> 64"
      using short k len by (auto simp: list_all2_conv_all_nth to_ascii_uppercase_def)
    ultimately show "\<exists>rest. bytes_of m2 (reply_refs (snd (gs ! k))) = to_ascii_uppercase (concat (reqs ! k)) @ rest"
      using k len by (simp add: filled_def)
  qed (rule len)
  then have check: "check_replies (dev\<lparr>num_added := 0\<rparr>) m2 cs reqs True = Ok True"
    unfolding cs_def by (intro check_replies_ok) (use q2 lay(4) len ready f in simp_all)
  have "drv_layout drv2 = l"
    using queue_invD(1) [OF in_flightD(1) [OF d(5)]] lay(4) by simp
  then have "length (free_descs drv2) = 8"
    using in_flightD(7) [OF d(5)] f by (simp add: QUEUE_SIZE_def)
  with that d(1,4) irq load check show ?thesis unfolding stats lens by blast
qed

theorem exchange_ok:
  assumes "fits l reqs"
  shows "exchange l reqs = Some (Ok (expected_report reqs))"
proof -
  obtain gs drv1 m1 where p: "publish_requests (fresh_driver l) (mem_new REGION) reqs = Ok (drv1, m1)"
      "published_requests (fresh_driver l) (mem_new REGION) (device_new l True) [] reqs gs drv1 m1"
      "map flight_head gs = map word_of_nat (chain_starts 0 (chain_lengths reqs))"
      "get_u16 m1 (avail_event l) = 0" "get_u16 m1 (used_event l) = 0"
    by (rule exchange_published [OF assms])
  note pub = p(2) [unfolded published_requests_def, simplified] and f = assms [unfolded fits_def]
  have q: "queue_in l m1" and lay: "drv_layout drv1 = l" "drv_event_idx drv1" "last_kick drv1 = 0"
    using pub queue_invD(2) [OF in_flightD(1)] by (auto simp: fresh_driver_def driver_new_def)
  have "drv_avail_idx drv1 \<noteq> 0"
    using pub f small_word_nonzero [of "length reqs"] length_le_chain_lengths [of reqs] by (simp add: fresh_driver_def driver_new_def)
  note kick = fresh_kick [OF q lay p(4) this]
  have load: "load_relaxed m1 (avail_event l) = Inr 0"
    using read_u16_get [OF queue_inD(2) [OF q] fields_in_mem(4) [OF q]] p(4) by (simp add: load_relaxed_def)
  obtain m2 drv2 where a: "process uppercase_work (device_new l True) m1 () stats_default =
        Some (Ok (rp_stats (expected_report reqs)), drained (device_new l True) m1, m2, ())"
      "needs_notification (drained (device_new l True) m1) m2 = (Inr True, (drained (device_new l True) m1)\<lparr>num_added := 0\<rparr>)"
      "load_relaxed m2 (used_event l) = Inr 0"
      "collect_used (drv1\<lparr>last_kick := drv_avail_idx drv1\<rparr>) m2 = (Ok (rp_completions (expected_report reqs)), drv2)"
      "check_replies ((drained (device_new l True) m1)\<lparr>num_added := 0\<rparr>) m2 (rp_completions (expected_report reqs)) reqs True = Ok True"
      "length (free_descs drv2) = 8"
    using exchange_answered [OF assms p(2,5)] unfolding p(3) by (simp add: expected_report_def) metis
  have "stats_errors (rp_stats (expected_report reqs)) = 0"
    by (simp add: expected_report_def stats_errors_def)
  then show ?thesis
    using p(1) kick load a unfolding exchange_def Let_def fresh_driver_def [symmetric]
    by (simp add: free_descriptors_def QUEUE_SIZE_def) (simp add: expected_report_def)
qed

end
