(* ===== verification/VqBench.thy ===== *)
theory VqBench
  imports VqDemo
begin

text \<open>
  The two benchmarks of \<^verbatim>\<open>rung-02-virtio/toy-virtq-raw/src/main.rs\<close>. Of \<^verbatim>\<open>bench_walk\<close> the walks are modelled,
  without the times; \<^verbatim>\<open>bench_notification\<close> measures no time, and its table of kicks and interrupts is
  the value of the model.
\<close>

section \<open>Descriptor walks\<close>

text \<open>\<^verbatim>\<open>u16::next_power_of_two\<close> of the standard library, which wraps to 0 above 32768.\<close>

definition next_power_of_two :: "u16 \<Rightarrow> u16" where
  "next_power_of_two n =
     (case List.find (\<lambda>p. unat n \<le> p) (map (\<lambda>k. 2 ^ k) [0..<17]) of
        None \<Rightarrow> 0
      | Some p \<Rightarrow> word_of_nat p)"

fun walk_sum :: "(ChainError + Descriptor) list \<Rightarrow> u64 \<Rightarrow> u64 option" where
  "walk_sum [] acc = Some acc"
| "walk_sum (Inl e # items) acc = None"
| "walk_sum (Inr d # items) acc = walk_sum items (acc + ucast (d_len d))"

text \<open>A chain of \<open>len\<close> buffers of 64 bytes, the last of them writable, and what one walk of it sums up.\<close>

definition walk_case :: "nat \<Rightarrow> (DemoFailure, u64) outcome" where
  "walk_case len =
     (let qs = max (next_power_of_two (word_of_nat len)) 2
      in case layout_new 0 qs of None \<Rightarrow> Panic | Some l \<Rightarrow>
     (let drv = driver_new l (word_of_nat REGION) True;
          dev = device_new l True
      in case publish_request drv (mem_new REGION) (replicate (len - 1) (replicate 64 120)) of
        Err e \<Rightarrow> Err e
      | Panic \<Rightarrow> Panic
      | Ok (head, drv', m) \<Rightarrow>
          (case walk_sum (chain_items (chain dev m head)) 0 of
             None \<Rightarrow> Panic
           | Some acc \<Rightarrow> Ok acc)))"

fun walk_cases :: "nat list \<Rightarrow> (DemoFailure, (nat \<times> u64) list) outcome" where
  "walk_cases [] = Ok []"
| "walk_cases (len # lens) =
     (case walk_case len of
        Err e \<Rightarrow> Err e
      | Panic \<Rightarrow> Panic
      | Ok acc \<Rightarrow>
          (case walk_cases lens of Ok rows \<Rightarrow> Ok ((len, acc) # rows) | r \<Rightarrow> r))"

definition bench_walk :: "(DemoFailure, (nat \<times> u64) list) outcome" where
  "bench_walk = walk_cases [1, 2, 4, 8, 16]"

section \<open>Notification suppression\<close>

definition TOTAL :: u32 where "TOTAL = 4096"

definition MAX_BATCH :: u32 where "MAX_BATCH = 64"

definition NOTIFY_QUEUE_SIZE :: u16 where "NOTIFY_QUEUE_SIZE = ucast (2 * MAX_BATCH)"

text \<open>The burst of \<open>n\<close> submissions, with a kick decision after each.\<close>

fun submit_burst :: "Buffer list \<Rightarrow> nat \<Rightarrow> Driver \<Rightarrow> SharedMem \<Rightarrow> u64 \<Rightarrow> u32
    \<Rightarrow> (Driver \<times> SharedMem \<times> u64 \<times> u32) option" where
  "submit_burst bs 0 d m kc submitted = Some (d, m, kc, submitted)"
| "submit_burst bs (Suc n) d m kc submitted =
     (case add_chain d m bs of
        (Ok head, d1, m1) \<Rightarrow>
          (case needs_kick d1 m1 of
             (Inl e, d2) \<Rightarrow> None
           | (Inr b, d2) \<Rightarrow> submit_burst bs n d2 m1 (if b then kc + 1 else kc) (submitted + 1))
      | _ \<Rightarrow> None)"

definition answer_y :: "unit \<Rightarrow> u8 list \<Rightarrow> u8 list \<times> unit" where
  "answer_y w req = ([121], w)"

partial_function (option) notify_loop ::
  "u32 \<Rightarrow> Buffer list \<Rightarrow> Driver \<Rightarrow> Device \<Rightarrow> SharedMem \<Rightarrow> u64 \<Rightarrow> u64 \<Rightarrow> u32
    \<Rightarrow> ((unit, u64 \<times> u64) outcome) option" where
  "notify_loop batch bs d dev m kc ic submitted =
     (if submitted < TOTAL then
        (case arm_used_event d m of Inl e \<Rightarrow> Some Panic | Inr m1 \<Rightarrow>
        (case submit_burst bs (unat (min batch (TOTAL - submitted))) d m1 kc submitted of
           None \<Rightarrow> Some Panic
         | Some (d1, m2, kc1, submitted1) \<Rightarrow>
        (case process answer_y dev m2 () stats_default of
           None \<Rightarrow> None
         | Some (Err e, dev1, m3, w) \<Rightarrow> Some Panic
         | Some (Panic, dev1, m3, w) \<Rightarrow> Some Panic
         | Some (Ok st, dev1, m3, w) \<Rightarrow>
        (case needs_notification dev1 m3 of
           (Inl e, dev2) \<Rightarrow> Some Panic
         | (Inr b, dev2) \<Rightarrow>
        (case enable_notification dev2 m3 of
           (Inl e, m4) \<Rightarrow> Some Panic
         | (Inr again, m4) \<Rightarrow>
        (case collect_used d1 m4 of
           (Err e, d2) \<Rightarrow> Some Panic
         | (Panic, d2) \<Rightarrow> Some Panic
         | (Ok cs, d2) \<Rightarrow>
             notify_loop batch bs d2 dev2 m4 kc1 (if b then ic + 1 else ic) submitted1))))))
      else Some (Ok (kc, ic)))"

definition notify_run :: "u32 \<Rightarrow> bool \<Rightarrow> ((unit, u64 \<times> u64) outcome) option" where
  "notify_run batch ev =
     (case layout_new 0 NOTIFY_QUEUE_SIZE of None \<Rightarrow> Some Panic | Some l \<Rightarrow>
     (case alloc (driver_new l (word_of_nat REGION) ev) (mem_new REGION) [120] of
        (None, d1, m) \<Rightarrow> Some Panic
      | (Some payload, d1, m) \<Rightarrow>
     (case alloc_uninit d1 8 of
        (None, d2) \<Rightarrow> Some Panic
      | (Some reply, d2) \<Rightarrow>
          notify_loop batch
            [\<lparr>b_addr = payload, b_len = 1, b_writable = False\<rparr>, \<lparr>b_addr = reply, b_len = 8, b_writable = True\<rparr>]
            d2 (device_new l ev) m 0 0 0)))"

text \<open>The table: for each batch size, kicks and interrupts without and with \<^verbatim>\<open>EVENT_IDX\<close>.\<close>

fun notify_rows :: "u32 list \<Rightarrow> ((unit, (u32 \<times> (u64 \<times> u64) \<times> (u64 \<times> u64)) list) outcome) option" where
  "notify_rows [] = Some (Ok [])"
| "notify_rows (batch # batches) =
     (case (notify_run batch False, notify_run batch True) of
        (Some (Ok off), Some (Ok on)) \<Rightarrow>
          (case notify_rows batches of
             Some (Ok rows) \<Rightarrow> Some (Ok ((batch, off, on) # rows))
           | r \<Rightarrow> r)
      | (None, _) \<Rightarrow> None
      | (Some (Ok off), None) \<Rightarrow> None
      | _ \<Rightarrow> Some Panic)"

definition bench_notification :: "((unit, (u32 \<times> (u64 \<times> u64) \<times> (u64 \<times> u64)) list) outcome) option" where
  "bench_notification = notify_rows [1, 2, 4, 8, 16, 32, MAX_BATCH]"

section \<open>One round of notifications\<close>

text \<open>
  \<open>idle\<close> is the queue between two rounds: nothing in flight, both sides have decided about
  everything so far. \<open>burst\<close> is the queue after \<open>k\<close> submissions of the armed driver.
\<close>

definition idle :: "VirtqLayout \<Rightarrow> bool \<Rightarrow> Driver \<Rightarrow> Device \<Rightarrow> SharedMem \<Rightarrow> bool" where
  "idle l ev drv dev m \<longleftrightarrow> queue_inv drv dev m \<and> drv_layout drv = l \<and> outstanding drv = Map.empty \<and>
     last_kick drv = drv_avail_idx drv \<and> drv_event_idx drv = ev \<and> dev_event_idx dev = ev \<and> num_added dev = 0 \<and>
     (ev \<longrightarrow> get_u16 m (avail_event l) = next_avail dev)"

definition burst :: "VirtqLayout \<Rightarrow> bool \<Rightarrow> Driver \<Rightarrow> Device \<Rightarrow> SharedMem \<Rightarrow> nat \<Rightarrow> bool" where
  "burst l ev drv dev m k \<longleftrightarrow> queue_inv drv dev m \<and> drv_layout drv = l \<and> in_used drv dev m = [] \<and>
     length (pending dev m) = k \<and> length (free_descs drv) + 2 * k = qn l \<and>
     last_kick drv = drv_avail_idx drv \<and> drv_event_idx drv = ev \<and> dev_event_idx dev = ev \<and> num_added dev = 0 \<and>
     (ev \<longrightarrow> get_u16 m (avail_event l) = next_avail dev) \<and> get_u16 m (used_event l) = last_used drv"

lemma burstD:
  assumes "burst l ev drv dev m k"
  shows "queue_inv drv dev m" "drv_layout drv = l" "in_used drv dev m = []" "length (pending dev m) = k"
    "length (free_descs drv) + 2 * k = qn l" "last_kick drv = drv_avail_idx drv" "drv_event_idx drv = ev"
    "dev_event_idx dev = ev" "num_added dev = 0" "ev \<Longrightarrow> get_u16 m (avail_event l) = next_avail dev"
    "get_u16 m (used_event l) = last_used drv"
  using assms by (simp_all add: burst_def)

lemma thresholds_apart:
  assumes "layout_wf l"
  shows "bytes_at (avail_event l) 2 \<inter> bytes_at (used_event l) 2 = {}"
  using slot_bytes_in_areas(5,6) [OF assms] areas_disjoint(3) [OF assms] by blast

lemma arm_burst:
  assumes "idle l ev drv dev m"
  obtains m1 where "arm_used_event drv m = Inr m1" "burst l ev drv dev m1 0" "length (buf m1) = length (buf m)"
proof -
  note i = assms [unfolded idle_def]
  obtain m1 where m1: "arm_used_event drv m = Inr m1" "queue_inv drv dev m1"
      "get_u16 m1 (used_event (drv_layout drv)) = last_used drv"
      "same_off (bytes_at (used_event (drv_layout drv)) 2) m m1"
    using arm_used_event_sets [of drv dev m] i by blast
  have lay: "drv_layout drv = l" using i by blast
  have inv: "queue_inv drv dev m" using i by blast
  note wf = queue_inD [OF queue_invD(2) [OF inv], unfolded lay]
  have "in_used drv dev m1 @ pending dev m1 = []"
    using queue_invD(7) [OF m1(2)] i by simp
  moreover have "length (free_descs drv) = qn l"
    using free_all [OF queue_invD(3) [OF inv]] i by simp
  moreover have "get_u16 m1 (avail_event l) = get_u16 m (avail_event l)"
    using get_u16_frame [OF wf(2) m1(4) [unfolded lay] thresholds_apart [OF wf(1)]] .
  ultimately have "burst l ev drv dev m1 0"
    using i m1(2,3) by (simp add: burst_def)
  with that m1(1) same_off_length [OF m1(4)] show ?thesis by blast
qed

lemma kick_in_burst:
  fixes e :: u16
  assumes "k < 32768"
  shows "need_event e (e + of_nat k + 1) (e + of_nat k) \<longleftrightarrow> k = 0"
proof (cases "k = 0")
  case True
  then show ?thesis using need_event_fires [of "e + 1" e e] by simp
next
  case False
  have k: "unat (word_of_nat k :: u16) = k" using assms by (simp add: unat_of_nat_u16)
  have "e + of_nat k \<noteq> e" using False k by auto
  then show ?thesis
    using need_event_silent [of "e + of_nat k" e "e + of_nat k + 1"] False k assms by simp
qed

lemma submit_one:
  assumes "burst l ev drv dev m k" "usable l m bs" "length bs = 2" "2 * Suc k \<le> qn l"
  obtains h drv1 drv2 m1 where "add_chain drv m bs = (Ok h, drv1, m1)"
    "needs_kick drv1 m1 = (Inr (ev \<longrightarrow> k = 0), drv2)" "burst l ev drv2 dev m1 (Suc k)"
    "length (buf m1) = length (buf m)"
proof -
  note b = burstD [OF assms(1)] and i = queue_invD [OF burstD(1) [OF assms(1)]]
  note wf = queue_inD [OF i(2)]
  have good: "good_buffers (drv_layout drv) bs" and room: "length bs \<le> length (free_descs drv)"
    using assms b by (simp_all add: usable_def)
  obtain "is" drv1 m1 where add: "add_chain drv m bs = (Ok (hd is), drv1, m1)" "queue_inv drv1 dev m1"
      "pending dev m1 = pending dev m @ [hd is]" "in_used drv1 dev m1 = in_used drv dev m"
      "length is = length bs" "free_descs drv = free_descs drv1 @ rev is"
      "drv1 = drv\<lparr>free_descs := free_descs drv1, outstanding := outstanding drv1,
        drv_avail_idx := drv_avail_idx drv + 1\<rparr>"
      and off: "same_off (desc_area (drv_layout drv) \<union> avail_slot_bytes (drv_layout drv) (drv_avail_idx drv) \<union>
        bytes_at (avail_idx (drv_layout drv)) 2) m m1"
    by (rule queue_inv_add_chain [OF b(1) good room])
  have f: "drv_layout drv1 = l" "drv_event_idx drv1 = ev" "last_kick drv1 = drv_avail_idx drv"
      "drv_avail_idx drv1 = drv_avail_idx drv + 1" "last_used drv1 = last_used drv"
    by (subst add(7), use b in simp)+
  have live: "same_off (live_area l) m m1"
    by (rule same_off_mono [OF off]) (auto simp: live_area_def b(2))
  have ev: "get_u16 m1 (avail_event l) = get_u16 m (avail_event l)" "get_u16 m1 (used_event l) = get_u16 m (used_event l)"
    using get_u16_frame [OF wf(2) live] thresholds_not_live(1,2) [OF wf(1)] b(2) by (simp_all add: Int_commute)
  have "qn l \<le> 32768" using layout_wf_bounds [OF wf(1)] b(2) by simp
  then have k: "k < 32768" using assms(4) by simp
  have "unat (drv_avail_idx drv - next_avail dev) = k"
    using b(4) pending_length [of dev m] i(1,4) by simp
  from arg_cong [OF this, of "word_of_nat :: nat \<Rightarrow> u16"]
  have "drv_avail_idx drv - next_avail dev = of_nat k" by simp
  then have avail: "drv_avail_idx drv = next_avail dev + of_nat k" by (simp add: algebra_simps)
  let ?drv2 = "drv1\<lparr>last_kick := drv_avail_idx drv1\<rparr>"
  have kick: "needs_kick drv1 m1 = (Inr (ev \<longrightarrow> k = 0), ?drv2)"
    using needs_kick_eq [OF queue_invD(2) [OF add(2)]] f ev(1) b(10) kick_in_burst [OF k] avail by auto
  have "queue_inv ?drv2 dev m1" "in_used ?drv2 dev m1 = in_used drv1 dev m1"
    using queue_inv_cong [OF add(2), of ?drv2 dev] by (simp_all add: in_used_def)
  then have "burst l ev ?drv2 dev m1 (Suc k)"
    using b f ev add(3,4,5,6) assms(3) by (simp add: burst_def)
  with that add(1) kick same_off_length [OF off] show ?thesis by blast
qed

lemma usable_length: "length (buf m') = length (buf m) \<Longrightarrow> usable l m' bs = usable l m bs"
  by (simp add: usable_def refs_in_def in_mem_def)

lemma submit_burst_counts:
  assumes "burst l ev drv dev m k" "usable l m bs" "length bs = 2" "2 * (k + n) \<le> qn l"
  shows "\<exists>drv' m'. submit_burst bs n drv m kc sub =
      Some (drv', m', kc + (if ev then (if k = 0 \<and> 0 < n then 1 else 0) else of_nat n), sub + of_nat n) \<and>
    burst l ev drv' dev m' (k + n) \<and> length (buf m') = length (buf m)"
  using assms
proof (induction n arbitrary: drv m k kc sub)
  case 0
  then show ?case by simp
next
  case (Suc n)
  obtain h drv1 drv2 m1 where s: "add_chain drv m bs = (Ok h, drv1, m1)"
      "needs_kick drv1 m1 = (Inr (ev \<longrightarrow> k = 0), drv2)" "burst l ev drv2 dev m1 (Suc k)"
      "length (buf m1) = length (buf m)"
    by (rule submit_one [OF Suc.prems(1-3)]) (use Suc.prems(4) in simp)
  show ?case
    using Suc.IH [OF s(3), of "if ev \<longrightarrow> k = 0 then kc + 1 else kc" "sub + 1"] Suc.prems(2-4) usable_length [OF s(4)] s
    by (auto simp: algebra_simps)
qed

lemma drain_burst:
  assumes "burst l ev drv dev m k" "0 < k"
  obtains st m' dev' w' where "process work dev m w0 st0 = Some (Ok st, drained dev m, m', w')"
    "needs_notification (drained dev m) m' = (Inr True, dev')" "queue_inv drv dev' m'" "pending dev' m' = []"
    "dev_event_idx dev' = ev" "num_added dev' = 0" "length (buf m') = length (buf m)"
proof -
  note b = burstD [OF assms(1)] and i = queue_invD [OF burstD(1) [OF assms(1)]]
  let ?dev = "drained dev m"
  obtain st m' w' where p: "process work dev m w0 st0 = Some (Ok st, ?dev, m', w')"
      "queue_inv drv ?dev m'" "pending ?dev m' = []"
      and off: "same_off (all_writes m (drv_layout drv) (pending dev m) \<union> used_area (drv_layout drv)) m m'"
    by (rule queue_inv_process [OF b(1), of work w0 st0])
  have q: "queue_in (dev_layout ?dev) m'" and ev: "dev_event_idx ?dev = ev"
    using queue_invD(1,2) [OF p(2)] b(8) by (simp_all add: drained_def Let_def)
  have "k \<le> 32768"
    using b(5) layout_wf_bounds [OF queue_inD(1) [OF i(2)]] b(2) by simp
  then have n: "pending dev m \<noteq> []" "unat (num_added dev) + length (pending dev m) < 65536"
    using assms(2) b(4,9) by auto
  have "needs_notification ?dev m' = (Inr True, ?dev\<lparr>num_added := 0\<rparr>)"
  proof (cases ev)
    case True
    then show ?thesis
      using process_interrupts [OF b(1) _ b(3) _ n p(1)] b(2,8,11) by simp
  next
    case False
    then show ?thesis using needs_notification_eq [OF q] ev by simp
  qed
  moreover have "queue_inv drv (?dev\<lparr>num_added := 0\<rparr>) m'"
    by (rule queue_inv_cong [OF p(2)]) simp_all
  moreover have "pending (?dev\<lparr>num_added := 0\<rparr>) m' = []"
    using p(3) by (simp add: pending_def)
  ultimately show ?thesis
    using that [OF p(1)] ev same_off_length [OF off] by simp
qed

text \<open>Re-enabling kicks publishes the device's position, or clears its flag; the queue stays as it is.\<close>

lemma enable_idle:
  assumes "queue_inv drv dev m" "pending dev m = []"
  obtains b m' where "enable_notification dev m = (Inr b, m')" "queue_inv drv dev m'" "pending dev m' = []"
    "dev_event_idx dev \<longrightarrow> get_u16 m' (avail_event (drv_layout drv)) = next_avail dev"
    "length (buf m') = length (buf m)"
proof (cases "dev_event_idx dev")
  case True
  obtain m' where m': "enable_notification dev m = (Inr (pending dev m \<noteq> []), m')" "queue_inv drv dev m'"
      "get_u16 m' (avail_event (drv_layout drv)) = next_avail dev" "pending dev m' = pending dev m"
    by (rule enable_notification_pending [OF assms(1) True])
  have "length (buf m') = length (buf m)"
    using enable_notification_off [OF queue_inD(2) [OF queue_invD(2) [OF assms(1)]] m'(1)] same_off_length by blast
  with that [OF m'(1,2)] m'(3,4) assms(2) show ?thesis by simp
next
  case False
  note i = queue_invD [OF assms(1)] and wf = queue_inD [OF queue_invD(2) [OF assms(1)]]
  let ?a = "used_flags (drv_layout drv)" and ?v = "get_u16 m (used_flags (drv_layout drv)) AND NOT VIRTQ_USED_F_NO_NOTIFY"
  let ?m = "put_u16 m ?a ?v"
  have off: "same_off (bytes_at ?a 2) m ?m" by (rule put_u16_off [OF wf(2)])
  have inv: "queue_inv drv dev ?m"
    by (rule queue_inv_frame_live [OF assms(1) off thresholds_not_live(3) [OF wf(1)]])
  have "pending dev ?m = []"
    using assms(2) i(1,4) queue_invD(4) [OF inv] by (simp add: pending_Nil_iff)
  moreover have "available dev ?m = Inr (avail_count (dev_layout dev) ?m - next_avail dev)"
    using available_eq [of dev ?m] queue_invD(1,2) [OF inv] by simp
  then have "\<exists>b. enable_notification dev m = (Inr b, ?m)"
    using False i(1) read_u16_get [OF wf(2) fields_in_mem(6) [OF i(2)]] write_u16_put [OF wf(2) fields_in_mem(6) [OF i(2)]]
    by (simp add: enable_notification_def)
  ultimately show ?thesis using that inv False same_off_length [OF off] by blast
qed

lemma collect_idle:
  assumes "queue_inv drv dev m" "pending dev m = []" "drv_layout drv = l" "last_kick drv = drv_avail_idx drv"
    and "drv_event_idx drv = ev" "dev_event_idx dev = ev" "num_added dev = 0"
    and "ev \<Longrightarrow> get_u16 m (avail_event l) = next_avail dev"
  obtains cs drv' where "collect_used drv m = (Ok cs, drv')" "idle l ev drv' dev m"
    "drv_avail_idx drv' = drv_avail_idx drv"
proof -
  let ?drv = "(foldl release drv (in_used drv dev m))\<lparr>last_used := next_used dev\<rparr>"
  have "idle l ev ?drv dev m"
    using queue_inv_collect(2) [OF assms(1)] collect_all_outstanding [OF assms(1,2)] assms(3-)
    by (simp add: idle_def)
  with that queue_inv_collect(1) [OF assms(1)] show ?thesis by simp
qed

section \<open>All rounds\<close>

definition rounds :: "nat \<Rightarrow> nat \<Rightarrow> nat" where
  "rounds requests batch = (requests + batch - 1) div batch"

lemma rounds_step:
  assumes "0 < r" "0 < b"
  shows "rounds r b = Suc (rounds (r - min b r) b)"
proof -
  have eq: "r + b - 1 = (r - 1) + b" using assms by simp
  have "b \<noteq> 0" using assms(2) by simp
  then have "(r - 1 + b) div b = (r - 1) div b + 1" by (rule div_add_self2)
  then have "rounds r b = Suc ((r - 1) div b)" unfolding rounds_def eq by simp
  moreover have "rounds (r - min b r) b = (r - 1) div b"
  proof (cases "b \<le> r")
    case True
    then have "r - min b r + b - 1 = r - 1" by simp
    then show ?thesis by (simp only: rounds_def)
  next
    case False
    then have "r - min b r + b - 1 = b - 1" "(b - 1) div b = 0" "(r - 1) div b = 0" using assms by simp_all
    then show ?thesis by (simp only: rounds_def)
  qed
  ultimately show ?thesis by simp
qed

lemma rounds_0 [simp]: "0 < b \<Longrightarrow> rounds 0 b = 0"
  by (simp add: rounds_def)

lemma notify_loop_counts:
  assumes "idle l ev drv dev m" "usable l m bs" "length bs = 2" "0 < unat batch" "2 * unat batch \<le> qn l"
    and "unat submitted + r = 4096"
  shows "notify_loop batch bs drv dev m kc ic submitted =
    Some (Ok (kc + (if ev then of_nat (rounds r (unat batch)) else of_nat r), ic + of_nat (rounds r (unat batch))))"
  using assms(1,2,6)
proof (induction r arbitrary: drv dev m kc ic submitted rule: less_induct)
  case (less r)
  show ?case
  proof (cases "r = 0")
    case True
    then have "\<not> submitted < TOTAL" using less.prems(3) by (simp add: TOTAL_def word_less_nat_alt)
    then show ?thesis using True assms(4) by (subst notify_loop.simps) simp
  next
    case False
    let ?n = "min (unat batch) r"
    have sub: "submitted < TOTAL" using False less.prems(3) by (simp add: TOTAL_def word_less_nat_alt)
    have rest: "unat (TOTAL - submitted) = r"
      using sub less.prems(3) by (simp add: unat_sub word_less_nat_alt word_le_nat_alt) (simp add: TOTAL_def)
    have n: "unat (min batch (TOTAL - submitted)) = ?n"
      by (simp add: min_def word_le_nat_alt rest)
    obtain m1 where arm: "arm_used_event drv m = Inr m1" "burst l ev drv dev m1 0" "length (buf m1) = length (buf m)"
      by (rule arm_burst [OF less.prems(1)])
    have fit: "2 * (0 + ?n) \<le> qn l" using assms(5) by simp
    obtain drv1 m2 where s: "submit_burst bs ?n drv m1 kc submitted =
          Some (drv1, m2, kc + (if ev then 1 else of_nat ?n), submitted + of_nat ?n)"
        "burst l ev drv1 dev m2 ?n" "length (buf m2) = length (buf m1)"
      using submit_burst_counts [OF arm(2) _ assms(3) fit, of kc submitted] usable_length [OF arm(3)] less.prems(2)
        assms(4) False by auto
    obtain st m3 dev2 where d: "process answer_y dev m2 () stats_default = Some (Ok st, drained dev m2, m3, ())"
        "needs_notification (drained dev m2) m3 = (Inr True, dev2)" "queue_inv drv1 dev2 m3" "pending dev2 m3 = []"
        "dev_event_idx dev2 = ev" "num_added dev2 = 0" "length (buf m3) = length (buf m2)"
      using drain_burst [OF s(2), of answer_y "()" stats_default] False assms(4) by auto
    obtain b m4 where e: "enable_notification dev2 m3 = (Inr b, m4)" "queue_inv drv1 dev2 m4" "pending dev2 m4 = []"
        "dev_event_idx dev2 \<longrightarrow> get_u16 m4 (avail_event (drv_layout drv1)) = next_avail dev2"
        "length (buf m4) = length (buf m3)"
      by (rule enable_idle [OF d(3,4)])
    note b1 = burstD [OF s(2)]
    obtain cs drv2 where c: "collect_used drv1 m4 = (Ok cs, drv2)" "idle l ev drv2 dev2 m4"
      using collect_idle [OF e(2,3) b1(2,6,7) d(5,6)] e(4) d(5) b1(2) by blast
    have us: "usable l m4 bs"
      using less.prems(2) usable_length [of m4 m] e(5) d(7) s(3) arm(3) by simp
    have "unat (word_of_nat ?n :: u32) = ?n"
      using less.prems(3) by (simp add: unat_of_nat take_bit_nat_eq_self)
    then have "unat (submitted + of_nat ?n) = unat submitted + ?n"
      using less.prems(3) by (simp add: unat_add_small)
    then have left: "unat (submitted + of_nat ?n) + (r - ?n) = 4096" using less.prems(3) by simp
    have smaller: "r - ?n < r" using False assms(4) by simp
    have "notify_loop batch bs drv dev m kc ic submitted =
        notify_loop batch bs drv2 dev2 m4 (kc + (if ev then 1 else of_nat ?n)) (ic + 1) (submitted + of_nat ?n)"
      using sub arm(1) s(1) d(1,2) e(1) c(1) n by (subst notify_loop.simps) simp
    also have "\<dots> = Some (Ok (kc + (if ev then 1 else of_nat ?n) +
          (if ev then of_nat (rounds (r - ?n) (unat batch)) else of_nat (r - ?n)), ic + 1 + of_nat (rounds (r - ?n) (unat batch))))"
      by (rule less.IH [OF smaller c(2) us left])
    also have "\<dots> = Some (Ok (kc + (if ev then of_nat (rounds r (unat batch)) else of_nat r), ic + of_nat (rounds r (unat batch))))"
    proof -
      have "(of_nat ?n :: u64) + of_nat (r - ?n) = of_nat r" by (simp flip: of_nat_add)
      then show ?thesis
        using rounds_step [of r "unat batch"] False assms(4) by (simp add: add.assoc)
    qed
    finally show ?thesis .
  qed
qed

lemma notify_start:
  assumes "layout_wf l" "unat (layout_end l) + 64 \<le> REGION"
  obtains payload reply d1 d2 m where
    "alloc (driver_new l (word_of_nat REGION) ev) (mem_new REGION) [120] = (Some payload, d1, m)"
    "alloc_uninit d1 8 = (Some reply, d2)" "idle l ev d2 (device_new l ev) m"
    "usable l m [\<lparr>b_addr = payload, b_len = 1, b_writable = False\<rparr>, \<lparr>b_addr = reply, b_len = 8, b_writable = True\<rparr>]"
proof -
  let ?d = "driver_new l (word_of_nat REGION) ev" and ?m = "mem_new REGION" and ?dev = "device_new l ev"
  have le: "unat (layout_end l) + 16 \<le> REGION" using assms(2) by simp
  note start = fresh_start [OF assms(1) le, of ev]
  have lay: "drv_layout ?d = l" by (simp add: driver_new_def)
  have ar: "unat (layout_end l) \<le> unat (arena ?d)" "unat (arena_end ?d) \<le> length (buf ?m)"
    using start(2) lay by (simp_all add: arena_ok_def)
  obtain a1 m where a1: "alloc ?d ?m [120] = (Some (arena ?d), ?d\<lparr>arena := a1\<rparr>, m)"
      "unat (arena ?d) + 1 \<le> unat a1" "unat a1 \<le> unat (arena ?d) + 9"
      "same_off (bytes_at (arena ?d) 1) ?m m"
    by (rule alloc_ok [OF region_wf ar(2), of "[120]"]) (use start(3,4) assms(2) in simp_all)
  obtain a2 where a2: "alloc_uninit (?d\<lparr>arena := a1\<rparr>) 8 = (Some a1, ?d\<lparr>arena := a2\<rparr>)"
    by (rule alloc_uninit_ok [of "?d\<lparr>arena := a1\<rparr>" 8])
      (use a1(3) start(3,4) assms(2) in \<open>simp_all add: REGION_def\<close>)
  have outside: "bytes_at (arena ?d) 1 \<inter> queue_area (drv_layout ?d) = {}" "bytes_at a1 8 \<inter> queue_area l = {}"
    using above_queue [OF assms(1) ar(1), of _ "unat a1 + 8"] a1(2) lay by (auto simp: bytes_at_def)
  have fl: "in_flight (?d\<lparr>arena := a2\<rparr>) ?dev m []"
    by (rule in_flight_frame [OF start(1) a1(4) outside(1)])
  have "get_u16 m (avail_event l) = get_u16 ?m (avail_event l)"
    using outside(1) slot_bytes_in_areas(6) [OF assms(1)] areas_disjoint(4) [OF assms(1)] lay
    by (intro get_u16_frame [OF region_wf a1(4)]) auto
  then have "idle l ev (?d\<lparr>arena := a2\<rparr>) ?dev m"
    using in_flightD(1) [OF fl] get_u16_new [of REGION] by (simp add: idle_def driver_new_def device_new_def REGION_def)
  moreover have "in_mem m a1 8"
    using a1(3) start(3,4) assms(2) same_off_length [OF a1(4)] by (simp add: in_mem_def mem_new_def)
  then have "usable l m [\<lparr>b_addr = arena ?d, b_len = 1, b_writable = False\<rparr>, \<lparr>b_addr = a1, b_len = 8, b_writable = True\<rparr>]"
    using outside lay by (simp add: usable_def good_buffers_def buffer_refs_def refs_in_def ref_bytes_def)
  ultimately show ?thesis using that a1(1) a2 by blast
qed

lemma notify_layout:
  obtains l where "layout_new 0 NOTIFY_QUEUE_SIZE = Some l" "layout_wf l" "unat (layout_end l) + 64 \<le> REGION" "qn l = 128"
proof -
  have new: "layout_new 0 NOTIFY_QUEUE_SIZE = Some \<lparr>queue_size = 128, desc_table = 0, avail_ring = 2048, used_ring = 2312\<rparr>"
    (is "_ = Some ?l") unfolding NOTIFY_QUEUE_SIZE_def MAX_BATCH_def by code_simp
  have wf: "layout_wf ?l"
    by (rule layout_new_wf [OF new]) (simp add: NOTIFY_QUEUE_SIZE_def MAX_BATCH_def)
  have "unat (layout_end ?l) = 3342"
    using total_size_at(2) [OF wf] by simp
  then show ?thesis using that [OF new wf] by (simp add: REGION_def)
qed

lemma notify_run_counts:
  assumes "1 \<le> batch" "batch \<le> MAX_BATCH"
  shows "notify_run batch ev =
    Some (Ok (if ev then of_nat (rounds 4096 (unat batch)) else 4096, of_nat (rounds 4096 (unat batch))))"
proof -
  obtain l where l: "layout_new 0 NOTIFY_QUEUE_SIZE = Some l" "layout_wf l" "unat (layout_end l) + 64 \<le> REGION" "qn l = 128"
    by (rule notify_layout)
  obtain payload reply d1 d2 m where s:
      "alloc (driver_new l (word_of_nat REGION) ev) (mem_new REGION) [120] = (Some payload, d1, m)"
      "alloc_uninit d1 8 = (Some reply, d2)" "idle l ev d2 (device_new l ev) m"
      "usable l m [\<lparr>b_addr = payload, b_len = 1, b_writable = False\<rparr>, \<lparr>b_addr = reply, b_len = 8, b_writable = True\<rparr>]"
    by (rule notify_start [OF l(2,3)])
  have b: "0 < unat batch" "2 * unat batch \<le> qn l"
    using assms l(4) by (simp_all add: MAX_BATCH_def word_le_nat_alt)
  show ?thesis
    using notify_loop_counts [OF s(3,4) _ b, of 0 4096 0 0] l(1) s(1,2) by (simp add: notify_run_def)
qed

section \<open>Walks\<close>

lemma walk_sum_descs:
  "length is = length bs \<Longrightarrow>
    walk_sum (map Inr (chain_descs (zip is bs))) acc = Some (acc + (\<Sum>b \<leftarrow> bs. ucast (b_len b)))"
  by (induction "is" bs arbitrary: acc rule: list_induct2) (simp_all add: buffer_descriptor_def add.assoc)

lemma sum_of_lengths:
  "(\<Sum>b \<leftarrow> bs. ucast (b_len b)) = (of_nat (ref_total (request_refs bs) + ref_total (reply_refs bs)) :: u64)"
  by (induction bs) (simp_all add: buffer_refs_def)

lemma walk_case_ok:
  assumes "0 < len" "layout_new 0 (max (next_power_of_two (word_of_nat len)) 2) = Some l" "layout_wf l" "len \<le> qn l"
    and "unat (layout_end l) + 16 + 72 * len \<le> REGION"
  shows "walk_case len = Ok (of_nat (64 * len))"
proof -
  let ?d = "driver_new l (word_of_nat REGION) True" and ?m = "mem_new REGION" and ?dev = "device_new l True"
  let ?parts = "replicate (len - 1) (replicate 64 (120 :: u8))"
  have le: "unat (layout_end l) + 16 \<le> REGION" using assms(5) by simp
  note start = fresh_start [OF assms(3) le, of True]
  have room: "parts_room ?parts = 72 * (len - 1)" "length (concat ?parts) = 64 * (len - 1)"
    by (simp_all add: parts_room_def sum_list_replicate length_concat)
  have len: "len < 65536" using assms(4) by (rule le_less_trans) (rule unat_u16_lt)
  have free: "length (free_descs ?d) = qn l" by (simp add: driver_new_def)
  obtain f drv m where p: "publish_request ?d ?m ?parts = Ok (flight_head f, drv, m)"
      "published_request ?d ?m ?dev [] ?parts f drv m"
    using publish_request_ok [OF start(1,2), of ?parts] room start(3,4) assms(1,4,5) len free by fastforce
  note pub = p(2) [unfolded published_request_def]
  have lay: "drv_layout drv = l" using pub by (simp add: driver_new_def)
  have fl: "in_flight drv ?dev m [f]" using pub by simp
  have ready: "ready (dev_layout ?dev) m f"
    using in_flightD(5) [OF fl] lay by (simp add: device_new_def)
  note wf = queue_inD [OF queue_invD(2) [OF in_flightD(1) [OF fl]]]
  have "ref_total (request_refs (snd f)) = length (concat ?parts)" "ref_total (reply_refs (snd f)) = 64"
    using length_bytes_of [OF wf(2), of "request_refs (snd f)"] pub by auto
  then have "(\<Sum>b \<leftarrow> snd f. ucast (b_len b)) = (of_nat (64 * len) :: u64)"
    unfolding sum_of_lengths room(2) using assms(1) by (simp flip: of_nat_add add: algebra_simps)
  moreover have "length (fst f) = length (snd f)" using pub by simp
  ultimately have "walk_sum (chain_items (chain ?dev m (flight_head f))) 0 = Some (of_nat (64 * len))"
    unfolding chain_items_ready [OF ready] by (simp add: walk_sum_descs)
  then show ?thesis
    using p(1) assms(2) by (simp add: walk_case_def Let_def)
qed

lemma walk_queue_sizes:
  "max (next_power_of_two (word_of_nat 1)) 2 = 2" "max (next_power_of_two (word_of_nat 2)) 2 = 2"
  "max (next_power_of_two (word_of_nat 4)) 2 = 4" "max (next_power_of_two (word_of_nat 8)) 2 = 8"
  "max (next_power_of_two (word_of_nat 16)) 2 = 16"
  by (simp_all add: next_power_of_two_def upt_rec max_def)

lemma walk_layouts:
  "layout_new 0 2 = Some \<lparr>queue_size = 2, desc_table = 0, avail_ring = 32, used_ring = 44\<rparr>"
  "layout_new 0 4 = Some \<lparr>queue_size = 4, desc_table = 0, avail_ring = 64, used_ring = 80\<rparr>"
  "layout_new 0 8 = Some \<lparr>queue_size = 8, desc_table = 0, avail_ring = 128, used_ring = 152\<rparr>"
  "layout_new 0 16 = Some \<lparr>queue_size = 16, desc_table = 0, avail_ring = 256, used_ring = 296\<rparr>"
  by code_simp+

lemma walk_case_small:
  assumes "max (next_power_of_two (word_of_nat len)) 2 = q" "layout_new 0 q = Some l" "0 < len" "len \<le> unat q" "q \<le> 16"
    and "unat (used_ring l) \<le> 1024" "queue_size l = q"
  shows "walk_case len = Ok (of_nat (64 * len))"
proof -
  have q: "unat q \<le> 16" using assms(5) by (simp add: word_le_nat_alt)
  have wf: "layout_wf l"
    by (rule layout_new_wf [OF assms(2)]) (use q in simp)
  have "unat (layout_end l) \<le> 1024 + 6 + 8 * 16"
    using total_size_at(2) [OF wf] assms(6,7) q by simp
  then show ?thesis
    using assms(3,4,7) q by (intro walk_case_ok [of len l]) (simp_all add: assms(1,2) wf REGION_def)
qed

lemma bench_walk_totals: "bench_walk = Ok [(1, 64), (2, 128), (4, 256), (8, 512), (16, 1024)]"
proof -
  have "walk_case 1 = Ok 64" "walk_case 2 = Ok 128" "walk_case 4 = Ok 256" "walk_case 8 = Ok 512" "walk_case 16 = Ok 1024"
    using walk_case_small [OF walk_queue_sizes(1) walk_layouts(1)] walk_case_small [OF walk_queue_sizes(2) walk_layouts(1)]
      walk_case_small [OF walk_queue_sizes(3) walk_layouts(2)] walk_case_small [OF walk_queue_sizes(4) walk_layouts(3)]
      walk_case_small [OF walk_queue_sizes(5) walk_layouts(4)] by simp_all
  then show ?thesis by (simp add: bench_walk_def)
qed

lemma bench_notification_counts:
  "bench_notification = Some (Ok
    (map (\<lambda>b. (b, (4096, of_nat (rounds 4096 (unat b))), (of_nat (rounds 4096 (unat b)), of_nat (rounds 4096 (unat b)))))
      [1, 2, 4, 8, 16, 32, 64]))"
  by (simp add: bench_notification_def notify_run_counts MAX_BATCH_def)

end
