(* ===== verification/Samples.thy ===== *)
theory Samples
  imports Strings
begin

text \<open>
  Sample sets and their percentiles, as the benchmarks of the three \<^verbatim>\<open>main.rs\<close> files compute them: the
  samples are sorted and the element at \<^verbatim>\<open>((len - 1) as f64 * p).round()\<close> is taken. The product is the
  double-precision one: \<open>p\<close> is a fraction of 2^53, and an integer keeps 53 significant bits, rounded
  half to even; \<^verbatim>\<open>round\<close> is half away from zero. Vectors have fewer than 2^53 elements.
\<close>

section \<open>Double-precision products\<close>

fun bit_width :: "nat \<Rightarrow> nat" where
  "bit_width n = (if n = 0 then 0 else Suc (bit_width (n div 2)))"

declare bit_width.simps [simp del]

definition half_even :: "nat \<Rightarrow> nat \<Rightarrow> nat" where
  "half_even x s =
     (let q = x div 2 ^ s; r = x mod 2 ^ s
      in if 2 ^ s < 2 * r \<or> (2 ^ s = 2 * r \<and> odd q) then q + 1 else q)"

text \<open>A natural number as an \<^verbatim>\<open>f64\<close>.\<close>

definition to_f64 :: "nat \<Rightarrow> nat" where
  "to_f64 x = (let s = bit_width x - 53 in half_even x s * 2 ^ s)"

text \<open>The fractions 0.50, 0.90, 0.99 and 0.999 as doubles, in units of 2^-53.\<close>

definition P50 :: nat where "P50 = 4503599627370496"
definition P90 :: nat where "P90 = 8106479329266893"
definition P99 :: nat where "P99 = 8917127262193582"
definition P999 :: nat where "P999 = 8998192055486251"

lemmas quantile_consts = P50_def P90_def P99_def P999_def

text \<open>\<^verbatim>\<open>(n as f64 * p).round() as usize\<close>\<close>

definition f64_index :: "nat \<Rightarrow> nat \<Rightarrow> nat" where
  "f64_index n p = (2 * to_f64 (to_f64 n * p) + 2 ^ 53) div 2 ^ 54"

section \<open>Percentiles\<close>

definition quantile :: "nat \<Rightarrow> u64 list \<Rightarrow> u64" where
  "quantile p xs = xs ! f64_index (length xs - 1) p"

section \<open>Command lines\<close>

text \<open>What a command line asks for: the usage text, an exit with status 2, or a run.\<close>

datatype 'a command_line = Usage | UnknownArgument string | Run 'a

section \<open>Rounding is monotone\<close>

lemma bit_width_bounds: "x < 2 ^ bit_width x" "0 < x \<Longrightarrow> 2 ^ (bit_width x - 1) \<le> x"
proof -
  show "x < 2 ^ bit_width x"
  proof (induction x rule: bit_width.induct)
    case (1 n)
    then show ?case by (subst bit_width.simps) auto
  qed
  show "0 < x \<Longrightarrow> 2 ^ (bit_width x - 1) \<le> x"
  proof (induction x rule: bit_width.induct)
    case (1 n)
    show ?case
    proof (cases "n div 2 = 0")
      case True
      then have "bit_width n = 1" using 1(2) by (simp add: bit_width.simps [of n] bit_width.simps [of 0])
      then show ?thesis using 1(2) by simp
    next
      case False
      then have w: "0 < bit_width (n div 2)" by (simp add: bit_width.simps [of "n div 2"])
      have "2 ^ (bit_width (n div 2) - 1) \<le> n div 2" using 1 False by simp
      then have "2 * 2 ^ (bit_width (n div 2) - 1) \<le> n" by simp
      then have "2 ^ bit_width (n div 2) \<le> n" using w by (cases "bit_width (n div 2)") simp_all
      then show ?thesis using 1(2) by (simp add: bit_width.simps [of n])
    qed
  qed
qed

lemma bit_width_mono: "x \<le> y \<Longrightarrow> bit_width x \<le> bit_width y"
proof (rule ccontr)
  assume le: "x \<le> y" and "\<not> bit_width x \<le> bit_width y"
  then have w: "bit_width y \<le> bit_width x - 1" "0 < bit_width x" by simp_all
  then have "0 < x" by (cases "x = 0") (simp_all add: bit_width.simps [of 0])
  then have "(2::nat) ^ bit_width y \<le> x"
    using bit_width_bounds(2) [of x] w(1) by (meson le_trans one_le_numeral power_increasing)
  then show False using bit_width_bounds(1) [of y] le by simp
qed

lemma half_even_le: "x \<le> k * 2 ^ s \<Longrightarrow> half_even x s \<le> k"
proof -
  assume le: "x \<le> k * 2 ^ s"
  show ?thesis
  proof (cases "x mod 2 ^ s = 0")
    case True
    then have "half_even x s = x div 2 ^ s" by (simp add: half_even_def)
    then show ?thesis using div_le_mono [OF le, of "2 ^ s"] by simp
  next
    case False
    have "x div 2 ^ s * 2 ^ s < x"
      using False div_mult_mod_eq [of x "2 ^ s"] by linarith
    then have "x div 2 ^ s * 2 ^ s < k * 2 ^ s" using le by linarith
    then have "x div 2 ^ s < k" by simp
    then show ?thesis by (simp add: half_even_def Let_def)
  qed
qed

lemma half_even_ge: "k * 2 ^ s \<le> x \<Longrightarrow> k \<le> half_even x s"
proof -
  assume "k * 2 ^ s \<le> x"
  then have "k \<le> x div 2 ^ s" using div_le_mono [of "k * 2 ^ s" x "2 ^ s"] by simp
  also have "\<dots> \<le> half_even x s" by (simp add: half_even_def Let_def)
  finally show ?thesis .
qed

lemma half_even_mono: "x \<le> y \<Longrightarrow> half_even x s \<le> half_even y s"
proof -
  assume le: "x \<le> y"
  let ?q = "x div 2 ^ s" and ?p = "y div 2 ^ s"
  have qp: "?q \<le> ?p" using le by (rule div_le_mono)
  show ?thesis
  proof (cases "?q = ?p")
    case True
    then have "x mod 2 ^ s \<le> y mod 2 ^ s"
      using le div_mult_mod_eq [of x "2 ^ s"] div_mult_mod_eq [of y "2 ^ s"] by (metis nat_add_left_cancel_le)
    then show ?thesis unfolding half_even_def Let_def True by auto
  next
    case False
    then have "?q + 1 \<le> ?p" using qp by simp
    then show ?thesis by (auto simp: half_even_def Let_def)
  qed
qed

lemma to_f64_mono: "x \<le> y \<Longrightarrow> to_f64 x \<le> to_f64 y"
proof -
  assume le: "x \<le> y"
  let ?s = "bit_width x - 53" and ?t = "bit_width y - 53"
  have st: "?s \<le> ?t" using bit_width_mono [OF le] by simp
  show ?thesis
  proof (cases "?s = ?t")
    case True
    then show ?thesis using half_even_mono [OF le, of ?s] by (simp add: to_f64_def Let_def)
  next
    case False
    then have wy: "53 < bit_width y" "bit_width x < bit_width y" using st by simp_all
    then have pos: "0 < y" by (cases "y = 0") (simp_all add: bit_width.simps [of 0])
    have split: "(2::nat) ^ (bit_width y - 1) = 2 ^ 52 * 2 ^ ?t"
      using wy(1) by (simp only: power_add [symmetric]) (rule arg_cong [of _ _ "(^) 2"], simp)
    have low: "2 ^ (bit_width y - 1) \<le> to_f64 y"
      using half_even_ge [of "2 ^ 52" ?t y] bit_width_bounds(2) [OF pos]
      unfolding split by (simp add: to_f64_def Let_def)
    have "x \<le> 2 ^ (bit_width y - 1 - ?s) * 2 ^ ?s"
    proof -
      have "x < 2 ^ bit_width x" by (rule bit_width_bounds)
      also have "\<dots> \<le> 2 ^ (bit_width y - 1)" using wy(2) by (intro power_increasing) simp_all
      also have "\<dots> = 2 ^ (bit_width y - 1 - ?s) * 2 ^ ?s"
        using wy by (simp only: power_add [symmetric]) (rule arg_cong [of _ _ "(^) 2"], simp)
      finally show ?thesis by simp
    qed
    then have "half_even x ?s \<le> 2 ^ (bit_width y - 1 - ?s)" by (rule half_even_le)
    then have "to_f64 x \<le> 2 ^ (bit_width y - 1 - ?s) * 2 ^ ?s" by (simp add: to_f64_def Let_def)
    also have "\<dots> = 2 ^ (bit_width y - 1)"
      using wy by (simp only: power_add [symmetric]) (rule arg_cong [of _ _ "(^) 2"], simp)
    finally show ?thesis using low by simp
  qed
qed

lemma to_f64_small: "x < 2 ^ 53 \<Longrightarrow> to_f64 x = x"
proof -
  assume x: "x < 2 ^ 53"
  have "bit_width x \<le> 53"
  proof (cases "x = 0")
    case False
    then have "2 ^ (bit_width x - 1) < (2 :: nat) ^ 53" using bit_width_bounds(2) [of x] x by linarith
    then have "bit_width x - 1 < 53" by (rule power_less_imp_less_exp [rotated]) simp
    then show ?thesis by simp
  qed (simp add: bit_width.simps [of 0])
  then show ?thesis by (simp add: to_f64_def half_even_def)
qed

text \<open>A number that is a short one times a power of two is a double.\<close>

lemma to_f64_scaled: "x < 2 ^ 53 \<Longrightarrow> to_f64 (x * 2 ^ e) = x * 2 ^ e"
proof (cases "x = 0")
  case False
  assume x: "x < 2 ^ 53"
  let ?y = "x * 2 ^ e"
  have "?y < 2 ^ (53 + e)" using x by (simp add: power_add)
  moreover have "2 ^ (bit_width ?y - 1) \<le> ?y" using False by (intro bit_width_bounds) simp
  ultimately have "(2::nat) ^ (bit_width ?y - 1) < 2 ^ (53 + e)" by linarith
  then have "bit_width ?y - 1 < 53 + e" by (rule power_less_imp_less_exp [rotated]) simp
  then have s: "bit_width ?y - 53 \<le> e" by simp
  then have "2 ^ (bit_width ?y - 53) dvd ?y" by (meson dvd_mult dvd_refl le_imp_power_dvd)
  then show ?thesis by (simp add: to_f64_def half_even_def Let_def dvd_div_mult_self)
qed (simp add: to_f64_small)

section \<open>Where percentiles lie\<close>

lemma f64_index_mono: "p \<le> q \<Longrightarrow> f64_index n p \<le> f64_index n q"
  unfolding f64_index_def by (intro div_le_mono add_right_mono mult_le_mono2 to_f64_mono) simp

lemma f64_index_one: "n < 2 ^ 53 \<Longrightarrow> f64_index n (2 ^ 53) = n"
  using to_f64_scaled [of n 53] by (simp add: f64_index_def to_f64_small)

lemma f64_index_le: "n < 2 ^ 53 \<Longrightarrow> p \<le> 2 ^ 53 \<Longrightarrow> f64_index n p \<le> n"
  by (rule order_trans [OF f64_index_mono]) (assumption, simp only: f64_index_one)

text \<open>Half of \<open>n\<close> is exact, and rounds up.\<close>

lemma f64_index_half: "n < 2 ^ 53 \<Longrightarrow> f64_index n P50 = (n + 1) div 2"
proof -
  assume n: "n < 2 ^ 53"
  have "to_f64 (n * P50) = n * 2 ^ 52" using to_f64_scaled [OF n, of 52] by (simp add: P50_def)
  then have "f64_index n P50 = (2 ^ 53 * (n + 1)) div (2 ^ 53 * 2)"
    using n by (simp add: f64_index_def to_f64_small)
  then show ?thesis by (simp only: div_mult_mult1) simp
qed

lemma quantile_index:
  assumes "xs \<noteq> []" "length xs \<le> 2 ^ 53" "p \<le> 2 ^ 53"
  shows "f64_index (length xs - 1) p < length xs"
proof -
  have "0 < length xs" using assms(1) by simp
  then have n: "length xs - 1 < 2 ^ 53" "length xs - 1 < length xs" using assms(2) by linarith+
  show ?thesis using f64_index_le [OF n(1) assms(3)] n(2) by (rule le_less_trans)
qed

lemma quantile_in: "xs \<noteq> [] \<Longrightarrow> length xs \<le> 2 ^ 53 \<Longrightarrow> p \<le> 2 ^ 53 \<Longrightarrow> quantile p xs \<in> set xs"
  unfolding quantile_def by (rule nth_mem) (rule quantile_index)

lemma quantile_mono:
  assumes "xs \<noteq> []" "length xs \<le> 2 ^ 53" "p \<le> q" "q \<le> 2 ^ 53" "sorted xs"
  shows "quantile p xs \<le> quantile q xs"
  unfolding quantile_def
  by (rule sorted_nth_mono [OF assms(5) f64_index_mono [OF assms(3)] quantile_index [OF assms(1,2,4)]])

lemma quantile_half: "xs \<noteq> [] \<Longrightarrow> length xs \<le> 2 ^ 53 \<Longrightarrow> quantile P50 xs = xs ! (length xs div 2)"
  using f64_index_half [of "length xs - 1"] by (cases xs) (auto simp: quantile_def)

lemma sorted_ends:
  assumes "sorted xs" "x \<in> set xs"
  shows "xs ! 0 \<le> x" "x \<le> xs ! (length xs - 1)"
proof -
  obtain i where i: "i < length xs" "xs ! i = x" using assms(2) by (auto simp: in_set_conv_nth)
  show "xs ! 0 \<le> x" using sorted_nth_mono [OF assms(1), of 0 i] i by simp
  show "x \<le> xs ! (length xs - 1)" using sorted_nth_mono [OF assms(1), of i "length xs - 1"] i by simp
qed

text \<open>The percentiles of a sample set, whatever the order of the samples.\<close>

lemma percentiles_ordered:
  assumes "xs \<noteq> []" "length xs \<le> 2 ^ 53"
  shows "sort xs ! 0 \<le> quantile P50 (sort xs)" "quantile P50 (sort xs) \<le> quantile P90 (sort xs)"
    "quantile P90 (sort xs) \<le> quantile P99 (sort xs)" "quantile P99 (sort xs) \<le> quantile P999 (sort xs)"
    "quantile P999 (sort xs) \<le> sort xs ! (length xs - 1)"
    "{sort xs ! 0, quantile P50 (sort xs), quantile P90 (sort xs), quantile P99 (sort xs), quantile P999 (sort xs),
      sort xs ! (length xs - 1)} \<subseteq> set xs"
    "\<forall>x \<in> set xs. sort xs ! 0 \<le> x \<and> x \<le> sort xs ! (length xs - 1)"
    "quantile P50 (sort xs) = sort xs ! (length xs div 2)"
proof -
  let ?v = "sort xs"
  have "length ?v \<noteq> 0" using assms(1) by simp
  then have v: "?v \<noteq> []" unfolding length_0_conv .
  have v: "?v \<noteq> []" "length ?v \<le> 2 ^ 53" "sorted ?v" by (rule v) (use assms(2) in simp_all)
  have ps: "P50 \<le> 2 ^ 53" "P90 \<le> 2 ^ 53" "P99 \<le> 2 ^ 53" "P999 \<le> 2 ^ 53" "P50 \<le> P90" "P90 \<le> P99" "P99 \<le> P999"
    by (simp_all add: quantile_consts)
  show "quantile P50 ?v \<le> quantile P90 ?v" "quantile P90 ?v \<le> quantile P99 ?v" "quantile P99 ?v \<le> quantile P999 ?v"
    by (rule quantile_mono [OF v(1,2) _ _ v(3)]; rule ps)+
  have elem: "quantile P50 ?v \<in> set ?v" "quantile P90 ?v \<in> set ?v" "quantile P99 ?v \<in> set ?v" "quantile P999 ?v \<in> set ?v"
    by (rule quantile_in [OF v(1,2)]; rule ps)+
  have "?v ! 0 \<in> set ?v" "?v ! (length ?v - 1) \<in> set ?v" using v(1) by (simp_all add: nth_mem del: length_sort set_sort)
  then show "{?v ! 0, quantile P50 ?v, quantile P90 ?v, quantile P99 ?v, quantile P999 ?v, ?v ! (length xs - 1)} \<subseteq> set xs"
    using elem by simp
  show "?v ! 0 \<le> quantile P50 ?v" "quantile P999 ?v \<le> ?v ! (length xs - 1)"
      "\<forall>x \<in> set xs. ?v ! 0 \<le> x \<and> x \<le> ?v ! (length xs - 1)"
    using sorted_ends [OF v(3)] elem by simp_all
  show "quantile P50 ?v = ?v ! (length xs div 2)" using quantile_half [OF v(1,2)] by simp
qed

section \<open>Sample files\<close>

text \<open>A row of a sample file: what was measured, a running index, the sample.\<close>

definition csv_row :: "string \<Rightarrow> nat \<Rightarrow> u64 \<Rightarrow> string" where
  "csv_row kind i ns = kind @ '','' @ decimal i @ '','' @ decimal (unat ns)"

definition csv_rows :: "string \<Rightarrow> u64 list \<Rightarrow> string list" where
  "csv_rows kind samples = map (\<lambda>(i, ns). csv_row kind i ns) (enumerate 0 samples)"

text \<open>What a reader of the file makes of a row, and of the whole file without its header.\<close>

definition read_row :: "string \<Rightarrow> (string \<times> nat \<times> nat) option" where
  "read_row line =
     (case split_char CHR '','' line of
        [kind, i, ns] \<Rightarrow>
          (case (parse_usize i, parse_usize ns) of
             (Some i', Some ns') \<Rightarrow> Some (kind, i', ns')
           | _ \<Rightarrow> None)
      | _ \<Rightarrow> None)"

definition read_samples :: "string \<Rightarrow> (string \<times> nat \<times> nat) option list" where
  "read_samples text = map read_row (butlast (tl (split_char newline text)))"

definition plain_key :: "string \<Rightarrow> bool" where
  "plain_key kind \<longleftrightarrow> CHR '','' \<notin> set kind \<and> newline \<notin> set kind"

lemma decimal_plain: "plain_key (decimal n)"
  using decimal_digits(1) [of n] digit_facts newline_facts unfolding plain_key_def list_all_iff by blast

lemma read_csv_row:
  assumes "plain_key kind" "i < 2 ^ 64"
  shows "read_row (csv_row kind i ns) = Some (kind, i, unat ns)"
proof -
  have "split_char CHR '','' (csv_row kind i ns) = [kind, decimal i, decimal (unat ns)]"
    using assms(1) decimal_plain unfolding plain_key_def csv_row_def
    by (simp add: split_char_first split_char_absent)
  then show ?thesis
    using assms(2) unat_less_exp [of ns] by (simp add: read_row_def parse_decimal)
qed

lemma csv_row_one_line: "plain_key kind \<Longrightarrow> newline \<notin> set (csv_row kind i ns)"
  using decimal_plain newline_facts(2) by (auto simp: csv_row_def plain_key_def)

lemma csv_rows_one_line: "plain_key kind \<Longrightarrow> list_all (\<lambda>l. newline \<notin> set l) (csv_rows kind samples)"
  by (auto simp: csv_rows_def list_all_iff csv_row_one_line)

lemma read_csv_rows:
  assumes "plain_key kind" "length samples < 2 ^ 64"
  shows "map read_row (csv_rows kind samples) = map (\<lambda>(i, ns). Some (kind, i, unat ns)) (enumerate 0 samples)"
proof -
  have "read_row (csv_row kind i ns) = Some (kind, i, unat ns)" if "(i, ns) \<in> set (enumerate 0 samples)" for i ns
    using that assms by (intro read_csv_row) (auto simp: in_set_enumerate_eq)
  then show ?thesis by (auto simp: csv_rows_def)
qed

text \<open>A file of a header and rows reads back as its rows.\<close>

lemma read_samples_unlines:
  assumes "newline \<notin> set header" "list_all (\<lambda>l. newline \<notin> set l) ls"
  shows "read_samples (unlines (header # ls)) = map read_row ls"
  using split_unlines [of "header # ls"] assms by (simp add: read_samples_def)

end
