(* ===== verification/VqReport.thy ===== *)
theory VqReport
  imports VqBench Samples
begin

text \<open>
  What \<^verbatim>\<open>rung-02-virtio/toy-virtq-raw/src/main.rs\<close> makes of its two benchmarks, and its \<^verbatim>\<open>main\<close>: the
  summaries and the files, and the command line. The clock is a parameter: \<open>clock len i\<close> is the time
  of the \<open>i\<close>-th walk of a chain of \<open>len\<close> descriptors. A file is its name and its text.
\<close>

section \<open>The walks\<close>

definition ITERS :: nat where "ITERS = 200000"

definition RUNG1_EXIT_NS :: u64 where "RUNG1_EXIT_NS = 1610"

record Summary =
  su_p50 :: u64
  su_p99 :: u64

text \<open>\<^verbatim>\<open>summarise\<close> sorts the samples in place, and they are written sorted.\<close>

definition summarise :: "u64 list \<Rightarrow> (Summary \<times> u64 list) option" where
  "summarise samples =
     (if samples = [] then None
      else let v = sort samples in Some (\<lparr>su_p50 = quantile P50 v, su_p99 = quantile P99 v\<rparr>, v))"

fun summarise_rows :: "(nat \<times> u64 list) list \<Rightarrow> (nat \<times> Summary \<times> u64 list) list option" where
  "summarise_rows [] = Some []"
| "summarise_rows ((len, samples) # rows) =
     (case summarise samples of
        None \<Rightarrow> None
      | Some (s, v) \<Rightarrow>
          (case summarise_rows rows of None \<Rightarrow> None | Some out \<Rightarrow> Some ((len, s, v) # out)))"

definition walk_csv :: "(nat \<times> u64 list) list \<Rightarrow> string" where
  "walk_csv rows =
     unlines (''kind,index,ns'' #
       concat (map (\<lambda>(len, samples). csv_rows (''walk_'' @ decimal len @ ''_desc'') samples) rows))"

type_synonym out_file = "string \<times> string"

definition walk_report :: "(nat \<Rightarrow> nat \<Rightarrow> u64) \<Rightarrow> string option
    \<Rightarrow> (DemoFailure, (nat \<times> Summary) list \<times> out_file option) outcome" where
  "walk_report clock out_path =
     (case bench_walk of
        Err e \<Rightarrow> Err e
      | Panic \<Rightarrow> Panic
      | Ok totals \<Rightarrow>
          (case summarise_rows (map (\<lambda>(len, acc). (len, map (clock len) [0 ..< ITERS])) totals) of
             None \<Rightarrow> Panic
           | Some rows \<Rightarrow>
               Ok (map (\<lambda>(len, s, v). (len, s)) rows,
                 (case out_path of
                    None \<Rightarrow> None
                  | Some path \<Rightarrow> Some (path @ ''-walk.csv'', walk_csv (map (\<lambda>(len, s, v). (len, v)) rows))))))"

section \<open>The notifications\<close>

type_synonym notify_row = "u32 \<times> (u64 \<times> u64) \<times> (u64 \<times> u64)"

text \<open>The modelled saving of a row, in nanoseconds; the subtraction is unchecked.\<close>

definition saved_ns :: "notify_row \<Rightarrow> u64" where
  "saved_ns row = (case row of (batch, (off_k, off_i), (on_k, on_i)) \<Rightarrow> (off_k - on_k) * RUNG1_EXIT_NS)"

definition notify_lines :: "notify_row \<Rightarrow> string list" where
  "notify_lines row =
     (case row of (batch, (off_k, off_i), (on_k, on_i)) \<Rightarrow>
        [decimal (unat batch) @ '',off,'' @ decimal (unat off_k) @ '','' @ decimal (unat off_i) @ '','' @ decimal (unat TOTAL),
         decimal (unat batch) @ '',on,'' @ decimal (unat on_k) @ '','' @ decimal (unat on_i) @ '','' @ decimal (unat TOTAL)])"

definition notify_csv :: "notify_row list \<Rightarrow> string" where
  "notify_csv rows = unlines (''batch,event_idx,kicks,interrupts,requests'' # concat (map notify_lines rows))"

section \<open>The program\<close>

record VirtqArgs =
  va_bench :: bool
  va_hostile :: bool
  va_out_path :: "string option"

definition virtq_args_default :: VirtqArgs where
  "virtq_args_default = \<lparr>va_bench = False, va_hostile = False, va_out_path = None\<rparr>"

function (sequential) virtq_args :: "VirtqArgs \<Rightarrow> string list \<Rightarrow> VirtqArgs command_line" where
  "virtq_args a [] = Run a"
| "virtq_args a (arg # rest) =
     (if arg = ''--bench'' then virtq_args (a\<lparr>va_bench := True\<rparr>) rest
      else if arg = ''--hostile'' then virtq_args (a\<lparr>va_hostile := True\<rparr>) rest
      else if arg = ''--out'' then
        virtq_args (a\<lparr>va_out_path := (case rest of [] \<Rightarrow> None | s # _ \<Rightarrow> Some s)\<rparr>) (tl rest)
      else if arg = ''-h'' \<or> arg = ''--help'' then Usage
      else UnknownArgument arg)"
  by pat_completeness auto

termination virtq_args
  by (relation "measure (length \<circ> snd)") auto

record VirtqBench =
  vb_walks :: "(nat \<times> Summary) list"
  vb_walk_file :: "out_file option"
  vb_notify :: "notify_row list"
  vb_notify_file :: "out_file option"

definition virtq_bench :: "(nat \<Rightarrow> nat \<Rightarrow> u64) \<Rightarrow> string option \<Rightarrow> ((DemoFailure, VirtqBench) outcome) option" where
  "virtq_bench clock out_path =
     (case walk_report clock out_path of
        Err e \<Rightarrow> Some (Err e)
      | Panic \<Rightarrow> Some Panic
      | Ok (walks, walk_file) \<Rightarrow>
          (case bench_notification of
             None \<Rightarrow> None
           | Some (Ok rows) \<Rightarrow>
               Some (Ok \<lparr>vb_walks = walks, vb_walk_file = walk_file, vb_notify = rows,
                 vb_notify_file = map_option (\<lambda>path. (path @ ''-notify.csv'', notify_csv rows)) out_path\<rparr>)
           | Some _ \<Rightarrow> Some Panic))"

type_synonym hostile_outcomes = "(string \<times> RejectReason option \<times> SharedMem) list"

text \<open>The demo always; then the hostile chains and the benchmarks when asked for.\<close>

definition virtq_main :: "(nat \<Rightarrow> nat \<Rightarrow> u64) \<Rightarrow> string list
    \<Rightarrow> ((DemoFailure, DemoReport \<times> hostile_outcomes option \<times> VirtqBench option) outcome command_line) option" where
  "virtq_main clock argv =
     (case virtq_args virtq_args_default argv of
        Usage \<Rightarrow> Some Usage
      | UnknownArgument arg \<Rightarrow> Some (UnknownArgument arg)
      | Run a \<Rightarrow>
     (case virtq_demo of
        None \<Rightarrow> None
      | Some (Err e) \<Rightarrow> Some (Run (Err e))
      | Some Panic \<Rightarrow> Some (Run Panic)
      | Some (Ok report) \<Rightarrow>
     (case (if va_hostile a then hostile_chains else Some (Ok [])) of
        None \<Rightarrow> None
      | Some (Ok outs) \<Rightarrow>
          let hostile = (if va_hostile a then Some outs else None) in
          if \<not> va_bench a then Some (Run (Ok (report, hostile, None)))
          else (case virtq_bench clock (va_out_path a) of
             None \<Rightarrow> None
           | Some (Err e) \<Rightarrow> Some (Run (Err e))
           | Some Panic \<Rightarrow> Some (Run Panic)
           | Some (Ok b) \<Rightarrow> Some (Run (Ok (report, hostile, Some b))))
      | Some _ \<Rightarrow> Some (Run Panic))))"

section \<open>What the benchmarks write\<close>

lemma summarise_ok:
  assumes "samples \<noteq> []" "length samples \<le> 2 ^ 53"
  shows "\<exists>s. summarise samples = Some (s, sort samples) \<and> su_p50 s = sort samples ! (length samples div 2) \<and>
    su_p50 s \<le> su_p99 s \<and> su_p99 s \<in> set samples"
proof -
  let ?v = "sort samples"
  have "length ?v \<noteq> 0" using assms(1) by simp
  then have v: "?v \<noteq> []" unfolding length_0_conv .
  have len: "length ?v \<le> 2 ^ 53" "sorted ?v" using assms(2) by simp_all
  have p: "P50 \<le> P99" "P99 \<le> 2 ^ 53" by (simp_all add: quantile_consts)
  show ?thesis
    using quantile_half [OF v len(1)] quantile_mono [OF v len(1) p len(2)] quantile_in [OF v len(1) p(2)] assms(1)
    by (simp add: summarise_def Let_def)
qed

lemma walk_samples: "(map (clock len) [0 ..< ITERS] :: u64 list) \<noteq> []" "length (map (clock len) [0 ..< ITERS]) \<le> 2 ^ 53"
  by (simp_all add: ITERS_def)

lemma summarise_rows_ok:
  "\<exists>out. summarise_rows (map (\<lambda>(len, acc). (len, map (clock len) [0 ..< ITERS])) totals) = Some out \<and>
    map (\<lambda>(len, s, v). (len, v)) out = map (\<lambda>(len, acc). (len, sort (map (clock len) [0 ..< ITERS]))) totals"
proof (induction totals)
  case (Cons row totals)
  obtain len acc where row: "row = (len, acc)" by (cases row)
  obtain s where "summarise (map (clock len) [0 ..< ITERS]) = Some (s, sort (map (clock len) [0 ..< ITERS]))"
    using summarise_ok [OF walk_samples(1) [of clock len] walk_samples(2) [of clock len]] by blast
  then show ?case using Cons.IH row by auto
qed simp

lemma walk_report_ok:
  "\<exists>rows. walk_report clock out_path = Ok (rows,
     map_option (\<lambda>path. (path @ ''-walk.csv'',
       walk_csv (map (\<lambda>len. (len, sort (map (clock len) [0 ..< ITERS]))) [1, 2, 4, 8, 16]))) out_path)"
proof -
  obtain out where out: "summarise_rows (map (\<lambda>(len, acc). (len, map (clock len) [0 ..< ITERS]))
        [(1, 64), (2, 128), (4, 256), (8, 512), (16, 1024 :: u64)]) = Some out"
      "map (\<lambda>(len, s, v). (len, v)) out = map (\<lambda>(len, acc). (len, sort (map (clock len) [0 ..< ITERS])))
        [(1, 64), (2, 128), (4, 256), (8, 512), (16, 1024 :: u64)]"
    using summarise_rows_ok by blast
  have lens: "map (\<lambda>(len, acc). (len, sort (map (clock len) [0 ..< ITERS])))
        [(1, 64), (2, 128), (4, 256), (8, 512), (16, 1024 :: u64)] =
      map (\<lambda>len. (len, sort (map (clock len) [0 ..< ITERS]))) [1, 2, 4, 8, 16]"
    by (simp only: list.map prod.case)
  show ?thesis
    unfolding walk_report_def bench_walk_totals outcome.case out(1) option.case out(2) lens
    by (intro exI) (cases out_path; simp only: option.case option.map)
qed

lemma batch_rounds: "0 < b \<Longrightarrow> b \<le> 64 \<Longrightarrow> rounds 4096 b = (4095 + b) div b"
  by (simp add: rounds_def)

text \<open>The table of the notification benchmark.\<close>

definition notify_table :: "notify_row list" where
  "notify_table =
     [(1, (4096, 4096), (4096, 4096)), (2, (4096, 2048), (2048, 2048)), (4, (4096, 1024), (1024, 1024)),
      (8, (4096, 512), (512, 512)), (16, (4096, 256), (256, 256)), (32, (4096, 128), (128, 128)),
      (64, (4096, 64), (64, 64))]"

lemma bench_notification_table: "bench_notification = Some (Ok notify_table)"
  by (simp add: bench_notification_counts notify_table_def rounds_def)

lemma virtq_bench_ok:
  "\<exists>walks. virtq_bench clock out_path = Some (Ok
     \<lparr>vb_walks = walks,
      vb_walk_file = map_option (\<lambda>path. (path @ ''-walk.csv'',
        walk_csv (map (\<lambda>len. (len, sort (map (clock len) [0 ..< ITERS]))) [1, 2, 4, 8, 16]))) out_path,
      vb_notify = notify_table,
      vb_notify_file = map_option (\<lambda>path. (path @ ''-notify.csv'', notify_csv notify_table)) out_path\<rparr>)"
  using walk_report_ok [of clock out_path] by (auto simp: virtq_bench_def bench_notification_table)

text \<open>The modelled savings of the table: nothing for single requests, and the subtraction never wraps.\<close>

lemma savings_ok:
  "map saved_ns notify_table =
     map (\<lambda>kicks. kicks * RUNG1_EXIT_NS) [0, 2048, 3072, 3584, 3840, 3968, 4032]"
  by (simp add: saved_ns_def notify_table_def)

lemma virtq_args_full:
  "virtq_args virtq_args_default [''--hostile'', ''--bench'', ''--out'', path] =
    Run \<lparr>va_bench = True, va_hostile = True, va_out_path = Some path\<rparr>"
  by (simp add: virtq_args_default_def)

lemma decimal_table:
  "decimal (Suc 0) = ''1''" "decimal 2 = ''2''" "decimal 4 = ''4''" "decimal 8 = ''8''" "decimal 16 = ''16''"
  "decimal 32 = ''32''" "decimal 64 = ''64''" "decimal 128 = ''128''" "decimal 256 = ''256''"
  "decimal 512 = ''512''" "decimal 1024 = ''1024''" "decimal 2048 = ''2048''" "decimal 4096 = ''4096''"
  by (simp_all add: decimal.simps char_of_def bit_0)

text \<open>The lines of the file, which are those of the files under \<^verbatim>\<open>rung-02-virtio/results\<close>.\<close>

definition notify_results :: "string list" where
  "notify_results =
     [''batch,event_idx,kicks,interrupts,requests'',
      ''1,off,4096,4096,4096'', ''1,on,4096,4096,4096'', ''2,off,4096,2048,4096'', ''2,on,2048,2048,4096'',
      ''4,off,4096,1024,4096'', ''4,on,1024,1024,4096'', ''8,off,4096,512,4096'', ''8,on,512,512,4096'',
      ''16,off,4096,256,4096'', ''16,on,256,256,4096'', ''32,off,4096,128,4096'', ''32,on,128,128,4096'',
      ''64,off,4096,64,4096'', ''64,on,64,64,4096'']"

lemma notify_csv_results: "notify_csv notify_table = unlines notify_results"
  by (simp add: notify_csv_def notify_lines_def notify_table_def notify_results_def TOTAL_def decimal_table)

section \<open>A run of the program\<close>

definition demo_report :: DemoReport where
  "demo_report =
     \<lparr>rp_kick = True, rp_avail_event = 0,
      rp_stats = \<lparr>st_chains = 3, st_descriptors = 7, st_bytes_read = 31, st_bytes_written = 31, st_rejected = []\<rparr>,
      rp_interrupt = True, rp_used_event = 0, rp_completions = [(0, 12), (2, 14), (5, 5)]\<rparr>"

lemma virtq_demo_report: "virtq_demo = Some (Ok demo_report)"
proof -
  obtain l where l: "layout_new 0 QUEUE_SIZE = Some l" "attack_layout l" "unat (layout_end l) = 222"
    by (rule attack_layout_new)
  have wf: "layout_wf l" "queue_size l = QUEUE_SIZE" using l(2) by (simp_all add: attack_layout_def)
  have "exchange l demo_requests = Some (Ok demo_report)"
    using exchange_ok [of l demo_requests] wf l(3)
    by (simp add: fits_def expected_report_def demo_report_def demo_requests_def as_bytes_def requests_room_def
        parts_room_def chain_lengths_def request_bytes_def REGION_def)
  then show ?thesis using l(1) by (simp add: virtq_demo_def)
qed

lemma hostile_chains_returns: "\<exists>outs. hostile_chains = Some (Ok outs) \<and> map (\<lambda>(name, reason, m). reason) outs = map Some expected_reasons"
proof -
  obtain l where l: "layout_new 0 QUEUE_SIZE = Some l" "attack_layout l"
    using attack_layout_new by blast
  obtain outs where outs: "run_cases l hostile_cases = Some (Ok outs)"
      "list_all2 (\<lambda>x r. refused l r (snd x)) outs expected_reasons"
    using hostile_chains_run [OF l(2)] by blast
  have "map (\<lambda>(name, reason, m). reason) outs = map Some expected_reasons"
    using outs(2) by (induction rule: list_all2_induct) (auto simp: refused_def)
  then show ?thesis using l(1) outs(1) by (simp add: hostile_chains_def)
qed

lemma virtq_main_full:
  "\<exists>outs bench. virtq_main clock [''--hostile'', ''--bench'', ''--out'', path] =
      Some (Run (Ok (demo_report, Some outs, Some bench))) \<and>
    map (\<lambda>(name, reason, m). reason) outs = map Some expected_reasons \<and>
    vb_notify bench = notify_table \<and>
    vb_notify_file bench = Some (path @ ''-notify.csv'', unlines notify_results) \<and>
    vb_walk_file bench = Some (path @ ''-walk.csv'',
      walk_csv (map (\<lambda>len. (len, sort (map (clock len) [0 ..< ITERS]))) [1, 2, 4, 8, 16]))"
proof -
  obtain outs where outs: "hostile_chains = Some (Ok outs)" "map (\<lambda>(name, reason, m). reason) outs = map Some expected_reasons"
    using hostile_chains_returns by blast
  obtain walks where b: "virtq_bench clock (Some path) = Some (Ok
     \<lparr>vb_walks = walks,
      vb_walk_file = Some (path @ ''-walk.csv'',
        walk_csv (map (\<lambda>len. (len, sort (map (clock len) [0 ..< ITERS]))) [1, 2, 4, 8, 16])),
      vb_notify = notify_table,
      vb_notify_file = Some (path @ ''-notify.csv'', notify_csv notify_table)\<rparr>)"
    using virtq_bench_ok [of clock "Some path"] unfolding option.map by blast
  have "virtq_main clock [''--hostile'', ''--bench'', ''--out'', path] = Some (Run (Ok (demo_report, Some outs, Some
     \<lparr>vb_walks = walks,
      vb_walk_file = Some (path @ ''-walk.csv'',
        walk_csv (map (\<lambda>len. (len, sort (map (clock len) [0 ..< ITERS]))) [1, 2, 4, 8, 16])),
      vb_notify = notify_table,
      vb_notify_file = Some (path @ ''-notify.csv'', notify_csv notify_table)\<rparr>)))"
    by (simp only: virtq_main_def virtq_args_full command_line.case virtq_demo_report option.case outcome.case
        VirtqArgs.select_convs if_True outs(1) Let_def not_True_eq_False if_False b)
  then show ?thesis using outs(2) notify_csv_results by (intro exI conjI) (assumption | simp)+
qed

end
