(* ===== verification/VqCrates.thy ===== *)
theory VqCrates
  imports VqDemo
begin

text \<open>
  The device of \<^verbatim>\<open>rung-02-virtio/toy-virtq-crates/src/main.rs\<close>, which serves the demo's requests over
  \<^verbatim>\<open>virtio-queue\<close> and \<^verbatim>\<open>vm-memory\<close>. The crates are a parameter, one function per call the program
  makes, on a state that holds the region, the mock driver's queue and the device's. A chain is the
  list of its descriptors, of which \<^verbatim>\<open>readable()\<close> and \<^verbatim>\<open>writable()\<close> select by the write flag.
  \<open>queue_crate_documented\<close> states what the program uses of the documentation; the answer of
  \<^verbatim>\<open>needs_notification\<close>, which the source calls untrustworthy, is left open.
\<close>

section \<open>The crates\<close>

record 'm VqCrate =
  vc_from_ranges :: "(u64 \<times> nat) list \<Rightarrow> int + 'm"
  vc_read_slice :: "u64 \<Rightarrow> nat \<Rightarrow> 'm \<Rightarrow> int + u8 list"
  vc_write_slice :: "u8 list \<Rightarrow> u64 \<Rightarrow> 'm \<Rightarrow> int + 'm"
  vc_mock_new :: "u16 \<Rightarrow> 'm \<Rightarrow> 'm"
  vc_add_desc_chains :: "Descriptor list \<Rightarrow> u16 \<Rightarrow> 'm \<Rightarrow> int + 'm"
  vc_create_queue :: "'m \<Rightarrow> int + 'm"
  vc_set_event_idx :: "bool \<Rightarrow> 'm \<Rightarrow> 'm"
  vc_iter :: "'m \<Rightarrow> int + (u16 \<times> Descriptor list) list \<times> 'm"
  vc_add_used :: "u16 \<Rightarrow> u32 \<Rightarrow> 'm \<Rightarrow> int + 'm"
  vc_needs_notification :: "'m \<Rightarrow> int + bool \<times> 'm"

datatype VqPortError = VqCrateError int | VqPortOutputDiffers

definition PORT_REGION :: nat where "PORT_REGION = 0x200000"
definition PORT_QUEUE_SIZE :: u16 where "PORT_QUEUE_SIZE = 8"
definition ARENA :: u64 where "ARENA = 0x100000"

section \<open>The driver's part\<close>

fun build_parts :: "'m VqCrate \<Rightarrow> u8 list list \<Rightarrow> u64 \<Rightarrow> Descriptor list \<Rightarrow> 'm
    \<Rightarrow> int + u64 \<times> Descriptor list \<times> 'm" where
  "build_parts cr [] at descs m = Inr (at, descs, m)"
| "build_parts cr (part # parts) at descs m =
     (case vc_write_slice cr part at m of
        Inl e \<Rightarrow> Inl e
      | Inr m1 \<Rightarrow>
          let idx = word_of_nat (length descs) :: u16 in
          build_parts cr parts (next_multiple_of (at + word_of_nat (length part)) 8)
            (descs @ [\<lparr>d_addr = at, d_len = word_of_nat (length part), d_flags = VIRTQ_DESC_F_NEXT, d_next = idx + 1\<rparr>]) m1)"

fun build_requests :: "'m VqCrate \<Rightarrow> u8 list list list \<Rightarrow> u64 \<Rightarrow> Descriptor list \<Rightarrow> u64 list \<Rightarrow> 'm
    \<Rightarrow> int + Descriptor list \<times> u64 list \<times> 'm" where
  "build_requests cr [] at descs replies m = Inr (descs, replies, m)"
| "build_requests cr (parts # reqs) at descs replies m =
     (case build_parts cr parts at descs m of
        Inl e \<Rightarrow> Inl e
      | Inr (at1, descs1, m1) \<Rightarrow>
          build_requests cr reqs (at1 + 64)
            (descs1 @ [\<lparr>d_addr = at1, d_len = 64, d_flags = VIRTQ_DESC_F_WRITE, d_next = 0\<rparr>])
            (replies @ [at1]) m1)"

section \<open>The device\<close>

fun port_gather :: "'m VqCrate \<Rightarrow> 'm \<Rightarrow> Descriptor list \<Rightarrow> u8 list \<Rightarrow> u64 \<Rightarrow> int + u8 list \<times> u64" where
  "port_gather cr m [] request descs = Inr (request, descs)"
| "port_gather cr m (d # ds) request descs =
     (case vc_read_slice cr (d_addr d) (unat (d_len d)) m of
        Inl e \<Rightarrow> Inl e
      | Inr b \<Rightarrow> port_gather cr m ds (request @ b) (descs + 1))"

fun port_scatter :: "'m VqCrate \<Rightarrow> 'm \<Rightarrow> Descriptor list \<Rightarrow> u8 list \<Rightarrow> nat \<Rightarrow> u32 \<Rightarrow> u64 \<Rightarrow> int + u32 \<times> u64 \<times> 'm" where
  "port_scatter cr m [] response cursor written descs = Inr (written, descs, m)"
| "port_scatter cr m (d # ds) response cursor written descs =
     (if length response \<le> cursor then Inr (written, descs + 1, m)
      else let n = min (unat (d_len d)) (length response - cursor) in
        case vc_write_slice cr (window cursor n response) (d_addr d) m of
          Inl e \<Rightarrow> Inl e
        | Inr m1 \<Rightarrow> port_scatter cr m1 ds response (cursor + n) (written + word_of_nat n) (descs + 1))"

fun port_chains :: "'m VqCrate \<Rightarrow> 'm \<Rightarrow> (u16 \<times> Descriptor list) list \<Rightarrow> (u16 \<times> u32) list \<Rightarrow> u64
    \<Rightarrow> int + (u16 \<times> u32) list \<times> u64 \<times> 'm" where
  "port_chains cr m [] completions descs = Inr (completions, descs, m)"
| "port_chains cr m ((head, ds) # rest) completions descs =
     (case port_gather cr m (filter (\<lambda>d. \<not> is_write_only d) ds) [] descs of
        Inl e \<Rightarrow> Inl e
      | Inr (request, descs1) \<Rightarrow>
     (case port_scatter cr m (filter is_write_only ds) (to_ascii_uppercase request) 0 0 descs1 of
        Inl e \<Rightarrow> Inl e
      | Inr (written, descs2, m1) \<Rightarrow>
     (case vc_add_used cr head written m1 of
        Inl e \<Rightarrow> Inl e
      | Inr m2 \<Rightarrow> port_chains cr m2 rest (completions @ [(head, written)]) descs2)))"

section \<open>The program\<close>

fun port_replies :: "'m VqCrate \<Rightarrow> 'm \<Rightarrow> (u16 \<times> u32) list \<Rightarrow> u64 list \<Rightarrow> u8 list list list \<Rightarrow> bool
    \<Rightarrow> (VqPortError, bool) outcome" where
  "port_replies cr m [] replies reqs ok = Ok ok"
| "port_replies cr m ((head, len) # cs) (a # replies) (parts # reqs) ok =
     (case vc_read_slice cr a (unat len) m of
        Inl e \<Rightarrow> Err (VqCrateError e)
      | Inr b \<Rightarrow> port_replies cr m cs replies reqs (ok \<and> b = to_ascii_uppercase (concat parts)))"
| "port_replies cr m (c # cs) replies reqs ok = Panic"

definition port_exchange :: "'m VqCrate \<Rightarrow> u8 list list list
    \<Rightarrow> (VqPortError, (u16 \<times> u32) list \<times> u64 \<times> bool) outcome" where
  "port_exchange cr reqs =
     (case vc_from_ranges cr [(0, PORT_REGION)] of Inl e \<Rightarrow> Err (VqCrateError e) | Inr m0 \<Rightarrow>
     (case build_requests cr reqs ARENA [] [] (vc_mock_new cr PORT_QUEUE_SIZE m0) of
        Inl e \<Rightarrow> Err (VqCrateError e) | Inr (descs, replies, m1) \<Rightarrow>
     (case vc_add_desc_chains cr descs 0 m1 of Inl e \<Rightarrow> Err (VqCrateError e) | Inr m2 \<Rightarrow>
     (case vc_create_queue cr m2 of Inl e \<Rightarrow> Err (VqCrateError e) | Inr m3 \<Rightarrow>
     (case vc_iter cr (vc_set_event_idx cr True m3) of Inl e \<Rightarrow> Err (VqCrateError e) | Inr (cs, m4) \<Rightarrow>
     (case port_chains cr m4 cs [] 0 of Inl e \<Rightarrow> Err (VqCrateError e) | Inr (completions, total_descs, m5) \<Rightarrow>
     (case vc_needs_notification cr m5 of Inl e \<Rightarrow> Err (VqCrateError e) | Inr (notify, m6) \<Rightarrow>
     (case port_replies cr m6 completions replies reqs True of
        Ok ok \<Rightarrow> if ok then Ok (completions, total_descs, notify) else Err VqPortOutputDiffers
      | Err e \<Rightarrow> Err e
      | Panic \<Rightarrow> Panic))))))))"

definition virtq_port :: "'m VqCrate \<Rightarrow> (VqPortError, (u16 \<times> u32) list \<times> u64 \<times> bool) outcome" where
  "virtq_port cr = port_exchange cr demo_requests"

section \<open>What the crates document\<close>

text \<open>A chain of descriptors that starts at index \<open>i\<close> of the table and is linked in order.\<close>

fun in_order :: "nat \<Rightarrow> Descriptor list \<Rightarrow> bool" where
  "in_order i [] = False"
| "in_order i [d] = (\<not> has_next d)"
| "in_order i (d # d' # ds) = (has_next d \<and> d_next d = word_of_nat (Suc i) \<and> in_order (Suc i) (d' # ds))"

fun linked_chains :: "nat \<Rightarrow> Descriptor list list \<Rightarrow> bool" where
  "linked_chains i [] = True"
| "linked_chains i (c # cs) = (in_order i c \<and> linked_chains (i + length c) cs)"

text \<open>The heads of consecutive chains are \<open>chain_starts\<close>. Byte lists that agree, and states that agree on the arena:\<close>

definition same_where :: "(nat \<Rightarrow> bool) \<Rightarrow> u8 list \<Rightarrow> u8 list \<Rightarrow> bool" where
  "same_where P B B' \<longleftrightarrow> length B' = length B \<and> (\<forall>i < length B. P i \<longrightarrow> B' ! i = B ! i)"

definition same_arena :: "('m \<Rightarrow> u8 list) \<Rightarrow> 'm \<Rightarrow> 'm \<Rightarrow> bool" where
  "same_arena bytes m m' \<longleftrightarrow> same_where (\<lambda>i. unat ARENA \<le> i) (bytes m) (bytes m')"

definition region_documented :: "'m VqCrate \<Rightarrow> ('m \<Rightarrow> u8 list) \<Rightarrow> bool" where
  "region_documented cr bytes \<longleftrightarrow>
     (\<forall>n. \<exists>m. vc_from_ranges cr [(0, n)] = Inr m \<and> length (bytes m) = n) \<and>
     (\<forall>b a m. unat a + length b \<le> length (bytes m) \<longrightarrow>
        (\<exists>m'. vc_write_slice cr b a m = Inr m' \<and> bytes m' = blit (unat a) b (bytes m))) \<and>
     (\<forall>a n m. unat a + n \<le> length (bytes m) \<longrightarrow> vc_read_slice cr a n m = Inr (window (unat a) n (bytes m)))"

text \<open>The mock driver keeps its rings below the arena; the device touches the rings only.\<close>

definition rings_documented :: "'m VqCrate \<Rightarrow> ('m \<Rightarrow> u8 list) \<Rightarrow> ('m \<Rightarrow> (u16 \<times> Descriptor list) list) \<Rightarrow> bool" where
  "rings_documented cr bytes offered \<longleftrightarrow>
     (\<forall>q m. same_arena bytes m (vc_mock_new cr q m)) \<and>
     (\<forall>cs m. length (concat cs) \<le> unat PORT_QUEUE_SIZE \<longrightarrow> linked_chains 0 cs \<longrightarrow>
        (\<exists>m'. vc_add_desc_chains cr (concat cs) 0 m = Inr m' \<and> same_arena bytes m m' \<and>
           offered m' = zip (map word_of_nat (chain_starts 0 (map length cs))) cs)) \<and>
     (\<forall>m. \<exists>m'. vc_create_queue cr m = Inr m' \<and> same_arena bytes m m' \<and> offered m' = offered m) \<and>
     (\<forall>b m. same_arena bytes m (vc_set_event_idx cr b m) \<and> offered (vc_set_event_idx cr b m) = offered m) \<and>
     (\<forall>m. \<exists>m'. vc_iter cr m = Inr (offered m, m') \<and> same_arena bytes m m') \<and>
     (\<forall>h n m. \<exists>m'. vc_add_used cr h n m = Inr m' \<and> same_arena bytes m m') \<and>
     (\<forall>m. \<exists>b m'. vc_needs_notification cr m = Inr (b, m') \<and> same_arena bytes m m')"

definition queue_crate_documented :: "'m VqCrate \<Rightarrow> ('m \<Rightarrow> u8 list) \<Rightarrow> ('m \<Rightarrow> (u16 \<times> Descriptor list) list) \<Rightarrow> bool" where
  "queue_crate_documented cr bytes offered \<longleftrightarrow> region_documented cr bytes \<and> rings_documented cr bytes offered"

section \<open>Buffers in the arena\<close>

lemma same_where_refl: "same_where P B B"
  by (simp add: same_where_def)

lemma same_where_trans: "same_where P B B1 \<Longrightarrow> same_where P B1 B2 \<Longrightarrow> same_where P B B2"
  by (simp add: same_where_def)

lemma same_where_mono: "same_where P B B' \<Longrightarrow> (\<And>i. Q i \<Longrightarrow> P i) \<Longrightarrow> same_where Q B B'"
  by (simp add: same_where_def)

lemma same_where_length: "same_where P B B' \<Longrightarrow> length B' = length B"
  by (simp add: same_where_def)

lemma same_where_window:
  "same_where P B B' \<Longrightarrow> (\<And>i. a \<le> i \<Longrightarrow> i < a + n \<Longrightarrow> P i) \<Longrightarrow> a + n \<le> length B \<Longrightarrow> window a n B' = window a n B"
  by (rule window_cong) (auto simp: same_where_def)

lemma same_where_blit:
  "a + length b \<le> length B \<Longrightarrow> (\<And>i. P i \<Longrightarrow> i < a \<or> a + length b \<le> i) \<Longrightarrow> same_where P B (blit a b B)"
  by (force simp: same_where_def length_blit nth_blit)

text \<open>A readable descriptor whose buffer lies in \<open>[lo, hi)\<close> and holds \<open>p\<close>.\<close>

definition part_at :: "u8 list \<Rightarrow> nat \<Rightarrow> nat \<Rightarrow> Descriptor \<Rightarrow> u8 list \<Rightarrow> bool" where
  "part_at B lo hi d p \<longleftrightarrow> \<not> is_write_only d \<and> lo \<le> unat (d_addr d) \<and> unat (d_addr d) + length p \<le> hi \<and>
     unat (d_len d) = length p \<and> window (unat (d_addr d)) (length p) B = p"

lemma part_at_same:
  "part_at B lo hi d p \<Longrightarrow> same_where P B B' \<Longrightarrow> (\<And>i. lo \<le> i \<Longrightarrow> i < hi \<Longrightarrow> P i) \<Longrightarrow> hi \<le> length B \<Longrightarrow> part_at B' lo hi d p"
  using same_where_window [of P B B' "unat (d_addr d)" "length p"] by (auto simp: part_at_def)

lemma part_at_mono: "part_at B lo hi d p \<Longrightarrow> lo' \<le> lo \<Longrightarrow> hi \<le> hi' \<Longrightarrow> part_at B lo' hi' d p"
  by (auto simp: part_at_def)

lemma parts_at_same:
  "list_all2 (part_at B lo hi) ds ps \<Longrightarrow> same_where P B B' \<Longrightarrow> (\<And>i. lo \<le> i \<Longrightarrow> i < hi \<Longrightarrow> P i) \<Longrightarrow> hi \<le> length B \<Longrightarrow>
    list_all2 (part_at B' lo hi) ds ps"
  by (erule list_all2_mono) (rule part_at_same)

text \<open>A chain of readable parts and one writable buffer of 64 bytes at \<open>r\<close>, and a sequence of them.\<close>

definition chain_at :: "u8 list \<Rightarrow> nat \<Rightarrow> nat \<Rightarrow> Descriptor list \<Rightarrow> u8 list list \<Rightarrow> u64 \<Rightarrow> bool" where
  "chain_at B lo hi ds ps r \<longleftrightarrow>
     (\<exists>rd w. ds = rd @ [w] \<and> is_write_only w \<and> d_addr w = r \<and> d_len w = 64 \<and>
        list_all2 (part_at B lo (unat r)) rd ps \<and> lo \<le> unat r \<and> unat r + 64 \<le> hi)"

fun placed :: "u8 list \<Rightarrow> nat \<Rightarrow> Descriptor list list \<Rightarrow> u8 list list list \<Rightarrow> u64 list \<Rightarrow> bool" where
  "placed B lo [] [] [] = (lo \<le> length B)"
| "placed B lo (c # cs) (ps # reqs) (r # rs) = (\<exists>hi. chain_at B lo hi c ps r \<and> placed B hi cs reqs rs)"
| "placed B lo cs reqs rs = False"

lemma chain_at_le: "chain_at B lo hi ds ps r \<Longrightarrow> lo \<le> unat r \<and> unat r + 64 \<le> hi"
  by (auto simp: chain_at_def)

lemma placed_le: "placed B lo cs reqs rs \<Longrightarrow> lo \<le> length B"
proof (induction B lo cs reqs rs rule: placed.induct)
  case (2 B lo c cs ps reqs r rs)
  obtain hi where "chain_at B lo hi c ps r" "placed B hi cs reqs rs" using 2(2) by auto
  with 2(1) show ?case using chain_at_le by fastforce
qed auto

lemma chain_at_same:
  assumes "chain_at B lo hi ds ps r" "same_where P B B'" "\<And>i. lo \<le> i \<Longrightarrow> i < hi \<Longrightarrow> P i" "hi \<le> length B"
  shows "chain_at B' lo hi ds ps r"
proof -
  obtain rd w where c: "ds = rd @ [w]" "is_write_only w" "d_addr w = r" "d_len w = 64"
      "list_all2 (part_at B lo (unat r)) rd ps" "lo \<le> unat r" "unat r + 64 \<le> hi"
    using assms(1) by (auto simp: chain_at_def)
  have "list_all2 (part_at B' lo (unat r)) rd ps"
    by (rule parts_at_same [OF c(5) assms(2)]) (use assms(3,4) c(7) in auto)
  then show ?thesis using c by (auto simp: chain_at_def)
qed

lemma placed_same: "placed B lo cs reqs rs \<Longrightarrow> same_where (\<lambda>i. lo \<le> i) B B' \<Longrightarrow> placed B' lo cs reqs rs"
proof (induction B lo cs reqs rs rule: placed.induct)
  case (2 B lo c cs ps reqs r rs)
  obtain hi where hi: "chain_at B lo hi c ps r" "placed B hi cs reqs rs" using 2(2) by auto
  have le: "lo \<le> hi" "hi \<le> length B" using hi placed_le by (auto simp: chain_at_def)
  have "same_where (\<lambda>i. hi \<le> i) B B'" using 2(3) by (rule same_where_mono) (use le in simp)
  then show ?case
    using 2(1) [OF hi(2)] chain_at_same [OF hi(1) 2(3)] le by auto
qed (auto simp: same_where_def)

section \<open>What the driver's part builds\<close>

lemma unat_next_multiple_of:
  assumes "unat a + 8 < 2 ^ 64"
  shows "unat a \<le> unat (next_multiple_of a 8)" "unat (next_multiple_of a 8) \<le> unat a + 7"
proof -
  have "0 < unat (8 :: u64)" "unat a + unat (8 :: u64) < 2 ^ 64" using assms by simp_all
  from next_multiple_of_bounds(1,2) [OF this] show "unat a \<le> unat (next_multiple_of a 8)" "unat (next_multiple_of a 8) \<le> unat a + 7"
    by simp_all
qed

lemma in_order_Cons: "ds \<noteq> [] \<Longrightarrow> in_order i (d # ds) \<longleftrightarrow> has_next d \<and> d_next d = word_of_nat (Suc i) \<and> in_order (Suc i) ds"
  by (cases ds) simp_all

lemma build_parts_ok:
  assumes "region_documented cr bytes"
  shows "unat at + parts_room parts \<le> length (bytes m) \<Longrightarrow> length (bytes m) < 2 ^ 32 \<Longrightarrow>
    \<exists>at' new m'. build_parts cr parts at descs m = Inr (at', descs @ new, m') \<and> length new = length parts \<and>
      unat at \<le> unat at' \<and> unat at' \<le> unat at + parts_room parts \<and>
      list_all2 (part_at (bytes m') (unat at) (unat at')) new parts \<and>
      same_where (\<lambda>i. i < unat at \<or> unat at' \<le> i) (bytes m) (bytes m') \<and>
      (\<forall>w. \<not> has_next w \<longrightarrow> in_order (length descs) (new @ [w]))"
proof (induction parts arbitrary: at descs m)
  case Nil
  then show ?case by (simp add: same_where_refl)
next
  case (Cons p parts)
  let ?d = "\<lparr>d_addr = at, d_len = word_of_nat (length p), d_flags = VIRTQ_DESC_F_NEXT,
    d_next = word_of_nat (length descs) + 1\<rparr> :: Descriptor"
  let ?at1 = "next_multiple_of (at + word_of_nat (length p)) 8"
  have room: "unat at + (length p + 8) + parts_room parts \<le> length (bytes m)"
    using Cons.prems(1) by (simp add: parts_room_def)
  obtain m1 where w: "vc_write_slice cr p at m = Inr m1" "bytes m1 = blit (unat at) p (bytes m)"
    using assms room unfolding region_documented_def by (meson add_leD1 le_trans nat_add_left_cancel_le le_add1)
  have len1: "length (bytes m1) = length (bytes m)" using w(2) room by (simp add: length_blit)
  have small: "length p < 2 ^ 32" "unat at < 2 ^ 32" using room Cons.prems(2) by linarith+
  have sum: "unat (at + word_of_nat (length p)) = unat at + length p"
    using small by (subst unat_add_small) (simp_all add: unat_of_nat_u64)
  then have "unat (at + word_of_nat (length p)) + 8 < 2 ^ 64" using small by simp
  from unat_next_multiple_of [OF this]
  have at1: "unat at + length p \<le> unat ?at1" "unat ?at1 \<le> unat at + length p + 7" unfolding sum by simp_all
  have "unat ?at1 + parts_room parts \<le> length (bytes m1)" "length (bytes m1) < 2 ^ 32"
    using at1(2) room len1 Cons.prems(2) by simp_all
  from Cons.IH [OF this, of "descs @ [?d]"]
  obtain at' new m' where ih: "build_parts cr parts ?at1 (descs @ [?d]) m1 = Inr (at', (descs @ [?d]) @ new, m')"
      "length new = length parts" "unat ?at1 \<le> unat at'" "unat at' \<le> unat ?at1 + parts_room parts"
      "list_all2 (part_at (bytes m') (unat ?at1) (unat at')) new parts"
      "same_where (\<lambda>i. i < unat ?at1 \<or> unat at' \<le> i) (bytes m1) (bytes m')"
      "\<forall>w. \<not> has_next w \<longrightarrow> in_order (length (descs @ [?d])) (new @ [w])"
    by (elim exE conjE) (rule that; assumption)
  have build: "build_parts cr (p # parts) at descs m = Inr (at', descs @ (?d # new), m')"
    using w(1) ih(1) by (simp add: Let_def)
  have "part_at (bytes m1) (unat at) (unat ?at1) ?d p"
    using w(2) room at1(1) small by (simp add: part_at_def is_write_only_def VIRTQ_DESC_F_NEXT_def VIRTQ_DESC_F_WRITE_def
        unat_of_nat_u32 window_blit_same)
  then have "part_at (bytes m') (unat at) (unat ?at1) ?d p"
    by (rule part_at_same [OF _ ih(6)]) (use at1 room len1 in simp_all)
  then have first: "part_at (bytes m') (unat at) (unat at') ?d p"
    using ih(3) by (auto elim: part_at_mono)
  have rest: "list_all2 (part_at (bytes m') (unat at) (unat at')) new parts"
    using ih(5) by (rule list_all2_mono) (use at1 in \<open>auto elim: part_at_mono\<close>)
  have "same_where (\<lambda>i. i < unat at \<or> unat at' \<le> i) (bytes m) (bytes m1)"
    unfolding w(2) by (rule same_where_blit) (use room at1 ih(3) in auto)
  moreover have "same_where (\<lambda>i. i < unat at \<or> unat at' \<le> i) (bytes m1) (bytes m')"
    using ih(6) by (rule same_where_mono) (use at1 in auto)
  ultimately have same: "same_where (\<lambda>i. i < unat at \<or> unat at' \<le> i) (bytes m) (bytes m')"
    by (rule same_where_trans)
  have "in_order (length descs) ((?d # new) @ [w])" if "\<not> has_next w" for w
    using ih(7) that by (simp add: in_order_Cons) (simp add: has_next_def VIRTQ_DESC_F_NEXT_def)
  then show ?case
    using build ih(2-4) at1 first rest same room
    by (intro exI [of _ at'] exI [of _ "?d # new"] exI [of _ m']) (simp add: parts_room_def)
qed

lemma build_requests_ok:
  assumes "region_documented cr bytes"
  shows "unat at + requests_room reqs \<le> length (bytes m) \<Longrightarrow> length (bytes m) < 2 ^ 32 \<Longrightarrow>
    \<exists>css rs m'. build_requests cr reqs at descs replies m = Inr (descs @ concat css, replies @ rs, m') \<and>
      linked_chains (length descs) css \<and> map length css = chain_lengths reqs \<and>
      placed (bytes m') (unat at) css reqs rs \<and> same_where (\<lambda>i. i < unat at) (bytes m) (bytes m')"
proof (induction reqs arbitrary: at descs replies m)
  case Nil
  then show ?case
    by (intro exI [of _ "[]"] exI [of _ "[]"] exI [of _ m]) (simp add: chain_lengths_def same_where_refl)
next
  case (Cons parts reqs)
  have room: "unat at + parts_room parts + 72 + requests_room reqs \<le> length (bytes m)"
    using Cons.prems(1) by (simp add: requests_room_def)
  have "unat at + parts_room parts \<le> length (bytes m)" using room by simp
  from build_parts_ok [OF assms this Cons.prems(2), of descs]
  obtain at1 new m1 where b: "build_parts cr parts at descs m = Inr (at1, descs @ new, m1)" "length new = length parts"
      "unat at \<le> unat at1" "unat at1 \<le> unat at + parts_room parts"
      "list_all2 (part_at (bytes m1) (unat at) (unat at1)) new parts"
      "same_where (\<lambda>i. i < unat at \<or> unat at1 \<le> i) (bytes m) (bytes m1)"
      "\<forall>w. \<not> has_next w \<longrightarrow> in_order (length descs) (new @ [w])"
    by (elim exE conjE) (rule that; assumption)
  let ?w = "\<lparr>d_addr = at1, d_len = 64, d_flags = VIRTQ_DESC_F_WRITE, d_next = 0\<rparr> :: Descriptor"
  let ?c = "new @ [?w]"
  have len1: "length (bytes m1) = length (bytes m)" using b(6) by (rule same_where_length)
  have at2: "unat (at1 + 64) = unat at1 + 64"
    using b(4) room Cons.prems(2) by (subst unat_add_small) simp_all
  have "unat (at1 + 64) + requests_room reqs \<le> length (bytes m1)" "length (bytes m1) < 2 ^ 32"
    using at2 b(4) room len1 Cons.prems(2) by simp_all
  from Cons.IH [OF this, of "descs @ ?c" "replies @ [at1]"]
  obtain css rs m' where ih: "build_requests cr reqs (at1 + 64) (descs @ ?c) (replies @ [at1]) m1 =
        Inr ((descs @ ?c) @ concat css, (replies @ [at1]) @ rs, m')"
      "linked_chains (length (descs @ ?c)) css" "map length css = chain_lengths reqs"
      "placed (bytes m') (unat (at1 + 64)) css reqs rs" "same_where (\<lambda>i. i < unat (at1 + 64)) (bytes m1) (bytes m')"
    by (elim exE conjE) (rule that; assumption)
  have "is_write_only ?w" "\<not> has_next ?w"
    by (simp_all add: is_write_only_def has_next_def VIRTQ_DESC_F_WRITE_def VIRTQ_DESC_F_NEXT_def)
  then have "chain_at (bytes m1) (unat at) (unat (at1 + 64)) ?c parts at1" "in_order (length descs) ?c"
    using b(3,5,7) at2 by (auto simp: chain_at_def)
  moreover from this(1) have "chain_at (bytes m') (unat at) (unat (at1 + 64)) ?c parts at1"
    by (rule chain_at_same [OF _ ih(5)]) (use at2 b(4) room len1 in simp_all)
  moreover have "same_where (\<lambda>i. i < unat at) (bytes m) (bytes m')"
    by (rule same_where_trans [OF same_where_mono [OF b(6)] same_where_mono [OF ih(5)]]) (use at2 b(3) in auto)
  ultimately show ?case
    using b(1,2) ih by (intro exI [of _ "?c # css"] exI [of _ "at1 # rs"] exI [of _ m']) (auto simp: chain_lengths_def)
qed

section \<open>Serving a chain\<close>

lemma port_gather_ok:
  assumes "region_documented cr bytes" "hi \<le> length (bytes m)"
  shows "list_all2 (part_at (bytes m) lo hi) ds ps \<Longrightarrow>
    port_gather cr m ds request n = Inr (request @ concat ps, n + of_nat (length ds))"
proof (induction ds ps arbitrary: request n rule: list_all2_induct)
  case (Cons d ds p ps)
  have "unat (d_addr d) + length p \<le> length (bytes m)" using Cons.hyps(1) assms(2) by (auto simp: part_at_def)
  then have "vc_read_slice cr (d_addr d) (length p) m = Inr (window (unat (d_addr d)) (length p) (bytes m))"
    using assms(1) unfolding region_documented_def by blast
  moreover have "window (unat (d_addr d)) (length p) (bytes m) = p" "unat (d_len d) = length p"
    using Cons.hyps(1) by (simp_all add: part_at_def)
  ultimately show ?case using Cons.IH [of "request @ p" "n + 1"] by (simp add: add_ac)
qed simp

lemma port_scatter_ok:
  assumes "region_documented cr bytes" "d_len w = 64" "unat (d_addr w) + 64 \<le> length (bytes m)" "length response \<le> 64"
  obtains m1 where "port_scatter cr m [w] response 0 0 n = Inr (of_nat (length response), n + 1, m1)"
    "bytes m1 = blit (unat (d_addr w)) response (bytes m)"
proof (cases "response = []")
  case True
  then show thesis using that [of m] by (simp add: blit_def)
next
  case False
  have "unat (d_addr w) + length response \<le> length (bytes m)" using assms(3,4) by simp
  then obtain m1 where m1: "vc_write_slice cr response (d_addr w) m = Inr m1" "bytes m1 = blit (unat (d_addr w)) response (bytes m)"
    using assms(1) unfolding region_documented_def by blast
  then show thesis
    using that [of m1] False assms(2,4) by (simp add: Let_def window_def min_absorb2)
qed

lemma part_filters:
  assumes "list_all2 (part_at B lo hi) rd ps" "is_write_only w"
  shows "filter (\<lambda>d. \<not> is_write_only d) (rd @ [w]) = rd" "filter is_write_only (rd @ [w]) = [w]"
proof -
  have "\<forall>d \<in> set rd. \<not> is_write_only d"
    using assms(1) by (induction rule: list_all2_induct) (auto simp: part_at_def)
  then show "filter (\<lambda>d. \<not> is_write_only d) (rd @ [w]) = rd" "filter is_write_only (rd @ [w]) = [w]"
    using assms(2) by (auto intro: filter_True simp: filter_empty_conv)
qed

definition upper_of :: "u8 list list \<Rightarrow> u8 list" where
  "upper_of ps = to_ascii_uppercase (concat ps)"

lemma length_upper_of [simp]: "length (upper_of ps) = length (concat ps)"
  by (simp add: upper_of_def to_ascii_uppercase_def)

text \<open>What a chain holds when it is served: its parts as they were, the reply in its buffer.\<close>

lemma port_serve_ok:
  assumes "region_documented cr bytes" "rings_documented cr bytes offered"
    and "chain_at (bytes m) lo hi c ps r" "hi \<le> length (bytes m)" "unat ARENA \<le> lo" "length (concat ps) \<le> 64"
  obtains m2 where
    "port_chains cr m ((head, c) # cs) completions n =
      port_chains cr m2 cs (completions @ [(head, of_nat (length (concat ps)))]) (n + of_nat (length c))"
    "same_where (\<lambda>i. unat ARENA \<le> i \<and> (i < unat r \<or> unat r + 64 \<le> i)) (bytes m) (bytes m2)"
    "window (unat r) (length (concat ps)) (bytes m2) = upper_of ps"
proof -
  obtain rd w where c: "c = rd @ [w]" "is_write_only w" "d_addr w = r" "d_len w = 64"
      "list_all2 (part_at (bytes m) lo (unat r)) rd ps" "lo \<le> unat r" "unat r + 64 \<le> hi"
    using assms(3) by (auto simp: chain_at_def)
  have fits: "unat r \<le> length (bytes m)" "unat (d_addr w) + 64 \<le> length (bytes m)" using c(3,7) assms(4) by simp_all
  note g = port_gather_ok [OF assms(1) fits(1) c(5), of "[]" n]
  obtain m1 where s: "port_scatter cr m [w] (upper_of ps) 0 0 (n + of_nat (length rd)) =
        Inr (of_nat (length (concat ps)), n + of_nat (length rd) + 1, m1)" "bytes m1 = blit (unat r) (upper_of ps) (bytes m)"
    using port_scatter_ok [OF assms(1) c(4) fits(2), of "upper_of ps" "n + of_nat (length rd)"] assms(6) c(3) by auto
  obtain m2 where u: "vc_add_used cr head (of_nat (length (concat ps))) m1 = Inr m2" "same_arena bytes m1 m2"
    using assms(2) unfolding rings_documented_def by blast
  have count: "n + of_nat (length rd) + 1 = n + of_nat (length (rd @ [w]))" by simp
  have "port_chains cr m ((head, c) # cs) completions n =
      port_chains cr m2 cs (completions @ [(head, of_nat (length (concat ps)))]) (n + of_nat (length c))"
    by (simp only: port_chains.simps c(1) part_filters [OF c(5,2)] g append_Nil sum.case prod.case
        upper_of_def [symmetric] s(1) u(1) count)
  moreover have len1: "length (bytes m1) = length (bytes m)"
    using s(2) fits(2) assms(6) c(3) by (simp add: length_blit)
  moreover have "same_where (\<lambda>i. unat ARENA \<le> i \<and> (i < unat r \<or> unat r + 64 \<le> i)) (bytes m) (bytes m2)"
  proof (rule same_where_trans)
    show "same_where (\<lambda>i. unat ARENA \<le> i \<and> (i < unat r \<or> unat r + 64 \<le> i)) (bytes m) (bytes m1)"
      unfolding s(2) by (rule same_where_blit) (use fits(2) assms(6) c(3) in auto)
    show "same_where (\<lambda>i. unat ARENA \<le> i \<and> (i < unat r \<or> unat r + 64 \<le> i)) (bytes m1) (bytes m2)"
      using u(2) unfolding same_arena_def by (rule same_where_mono) simp
  qed
  moreover have "window (unat r) (length (concat ps)) (bytes m2) = window (unat r) (length (concat ps)) (bytes m1)"
    by (rule same_where_window [OF u(2) [unfolded same_arena_def]]) (use assms(5,6) c(3,6) fits(2) len1 in auto)
  moreover have "window (unat r) (length (concat ps)) (bytes m1) = upper_of ps"
    unfolding s(2) using fits(2) assms(6) c(3) by (simp add: window_blit_same)
  ultimately show thesis using that by simp
qed

section \<open>The exchange of the port\<close>

definition reply_at :: "u8 list \<Rightarrow> u64 \<Rightarrow> u8 list list \<Rightarrow> bool" where
  "reply_at B r ps \<longleftrightarrow> unat ARENA \<le> unat r \<and> unat r + 64 \<le> length B \<and> length (concat ps) \<le> 64 \<and>
     window (unat r) (length (concat ps)) B = upper_of ps"

lemma reply_at_same: "reply_at B r ps \<Longrightarrow> same_where (\<lambda>i. unat ARENA \<le> i) B B' \<Longrightarrow> reply_at B' r ps"
  using same_where_window [of "\<lambda>i. unat ARENA \<le> i" B B' "unat r" "length (concat ps)"] same_where_length
  by (auto simp: reply_at_def)

lemma port_chains_ok:
  assumes "region_documented cr bytes" "rings_documented cr bytes offered"
  shows "placed (bytes m) lo css reqs rs \<Longrightarrow> length heads = length css \<Longrightarrow> unat ARENA \<le> lo \<Longrightarrow>
      list_all (\<lambda>ps. length (concat ps) \<le> 64) reqs \<Longrightarrow>
    \<exists>m'. port_chains cr m (zip heads css) completions n =
        Inr (completions @ zip heads (map (\<lambda>ps. of_nat (length (concat ps))) reqs), n + of_nat (sum_list (map length css)), m') \<and>
      same_where (\<lambda>i. unat ARENA \<le> i \<and> i < lo) (bytes m) (bytes m') \<and>
      list_all2 (reply_at (bytes m')) rs reqs"
proof (induction css arbitrary: lo reqs rs heads m completions n)
  case Nil
  then have "reqs = []" "rs = []" "heads = []" by (cases reqs; cases rs; simp)+
  then show ?case by (simp add: same_where_refl)
next
  case (Cons c css)
  obtain ps reqs' r rs' head heads' where split: "reqs = ps # reqs'" "rs = r # rs'" "heads = head # heads'"
    using Cons.prems(1,2) by (cases reqs; cases rs; cases heads; simp)
  obtain hi where hi: "chain_at (bytes m) lo hi c ps r" "placed (bytes m) hi css reqs' rs'"
    using Cons.prems(1) unfolding split by auto
  note le = chain_at_le [OF hi(1)] placed_le [OF hi(2)]
  have small: "length (concat ps) \<le> 64" using Cons.prems(4) split(1) by simp
  obtain m2 where s: "port_chains cr m ((head, c) # zip heads' css) completions n =
        port_chains cr m2 (zip heads' css) (completions @ [(head, of_nat (length (concat ps)))]) (n + of_nat (length c))"
      "same_where (\<lambda>i. unat ARENA \<le> i \<and> (i < unat r \<or> unat r + 64 \<le> i)) (bytes m) (bytes m2)"
      "window (unat r) (length (concat ps)) (bytes m2) = upper_of ps"
    by (rule port_serve_ok [OF assms hi(1) le(2) Cons.prems(3) small])
  have rest: "same_where (\<lambda>i. hi \<le> i) (bytes m) (bytes m2)"
    using s(2) by (rule same_where_mono) (use le Cons.prems(3) in auto)
  have prem: "placed (bytes m2) hi css reqs' rs'" "length heads' = length css" "unat ARENA \<le> hi"
      "list_all (\<lambda>ps. length (concat ps) \<le> 64) reqs'"
    using placed_same [OF hi(2) rest] Cons.prems(2-4) split le by simp_all
  from Cons.IH [OF prem, of "completions @ [(head, of_nat (length (concat ps)))]" "n + of_nat (length c)"]
  obtain m' where ih: "port_chains cr m2 (zip heads' css) (completions @ [(head, of_nat (length (concat ps)))]) (n + of_nat (length c)) =
        Inr ((completions @ [(head, of_nat (length (concat ps)))]) @ zip heads' (map (\<lambda>ps. of_nat (length (concat ps))) reqs'),
          n + of_nat (length c) + of_nat (sum_list (map length css)), m')"
      "same_where (\<lambda>i. unat ARENA \<le> i \<and> i < hi) (bytes m2) (bytes m')"
      "list_all2 (reply_at (bytes m')) rs' reqs'"
    by (elim exE conjE) (rule that; assumption)
  have len: "length (bytes m2) = length (bytes m)" "length (bytes m') = length (bytes m)"
    using same_where_length [OF s(2)] same_where_length [OF ih(2)] by simp_all
  have "window (unat r) (length (concat ps)) (bytes m') = upper_of ps"
    unfolding s(3) [symmetric] by (rule same_where_window [OF ih(2)]) (use le len small Cons.prems(3) in auto)
  then have "reply_at (bytes m') r ps" using le len small Cons.prems(3) by (simp add: reply_at_def)
  moreover have "same_where (\<lambda>i. unat ARENA \<le> i \<and> i < lo) (bytes m) (bytes m')"
    by (rule same_where_trans [OF same_where_mono [OF s(2)] same_where_mono [OF ih(2)]]) (use le in auto)
  ultimately show ?case
    using s(1) ih(1,3) split by (intro exI [of _ m']) (simp add: add.assoc)
qed

lemma port_replies_ok:
  assumes "region_documented cr bytes"
  shows "list_all2 (reply_at (bytes m)) rs reqs \<Longrightarrow>
    length heads = length reqs \<Longrightarrow> list_all (\<lambda>ps. length (concat ps) \<le> 64) reqs \<Longrightarrow>
    port_replies cr m (zip heads (map (\<lambda>ps. of_nat (length (concat ps))) reqs)) rs reqs True = Ok True"
proof (induction arbitrary: heads rule: list_all2_induct)
  case (Cons r rs ps reqs)
  obtain head heads' where h: "heads = head # heads'" using Cons.prems(1) by (cases heads) simp_all
  have small: "length (concat ps) \<le> 64" using Cons.prems(2) by simp
  then have n: "unat (of_nat (length (concat ps)) :: u32) = length (concat ps)" by (intro unat_of_nat_u32) simp
  have "unat r + length (concat ps) \<le> length (bytes m)" using Cons.hyps(1) small by (simp add: reply_at_def)
  then have "vc_read_slice cr r (length (concat ps)) m = Inr (window (unat r) (length (concat ps)) (bytes m))"
    using assms unfolding region_documented_def by blast
  then have "vc_read_slice cr r (unat (of_nat (length (concat ps)) :: u32)) m = Inr (upper_of ps)"
    using Cons.hyps(1) unfolding n by (simp add: reply_at_def)
  then show ?case
    using Cons.IH [of heads'] Cons.prems unfolding h by (simp add: upper_of_def del: length_concat)
qed simp

lemma port_exchange_ok:
  assumes doc: "queue_crate_documented cr bytes offered"
    and fits: "unat ARENA + requests_room reqs \<le> PORT_REGION" "sum_list (chain_lengths reqs) \<le> 8"
      "list_all (\<lambda>ps. length (concat ps) \<le> 64) reqs"
  shows "\<exists>notify. port_exchange cr reqs =
    Ok (zip (map word_of_nat (chain_starts 0 (chain_lengths reqs))) (map (\<lambda>ps. word_of_nat (length (concat ps))) reqs),
      of_nat (sum_list (chain_lengths reqs)), notify)"
proof -
  have region: "region_documented cr bytes" and rings: "rings_documented cr bytes offered"
    using doc by (simp_all add: queue_crate_documented_def)
  obtain m0 where m0: "vc_from_ranges cr [(0, PORT_REGION)] = Inr m0" "length (bytes m0) = PORT_REGION"
    using region unfolding region_documented_def by meson
  let ?m = "vc_mock_new cr PORT_QUEUE_SIZE m0"
  have "same_arena bytes m0 ?m" using rings unfolding rings_documented_def by blast
  then have len: "length (bytes ?m) = PORT_REGION" using m0(2) same_where_length unfolding same_arena_def by metis
  have "unat ARENA + requests_room reqs \<le> length (bytes ?m)" "length (bytes ?m) < 2 ^ 32"
    using fits(1) len by (simp_all add: PORT_REGION_def)
  from build_requests_ok [OF region this, of "[]" "[]"]
  obtain css rs m1 where b: "build_requests cr reqs ARENA [] [] ?m = Inr (concat css, rs, m1)"
      "linked_chains 0 css" "map length css = chain_lengths reqs" "placed (bytes m1) (unat ARENA) css reqs rs"
    by auto
  have "length (concat css) \<le> unat PORT_QUEUE_SIZE"
    using fits(2) b(3) by (simp add: length_concat PORT_QUEUE_SIZE_def)
  then obtain m2 where m2: "vc_add_desc_chains cr (concat css) 0 m1 = Inr m2" "same_arena bytes m1 m2"
      "offered m2 = zip (map word_of_nat (chain_starts 0 (map length css))) css"
    using rings b(2) unfolding rings_documented_def by meson
  obtain m3 where m3: "vc_create_queue cr m2 = Inr m3" "same_arena bytes m2 m3" "offered m3 = offered m2"
    using rings unfolding rings_documented_def by meson
  let ?m3 = "vc_set_event_idx cr True m3"
  have e: "same_arena bytes m3 ?m3" "offered ?m3 = offered m3"
    using rings unfolding rings_documented_def by blast+
  obtain m4 where m4: "vc_iter cr ?m3 = Inr (offered ?m3, m4)" "same_arena bytes ?m3 m4"
    using rings unfolding rings_documented_def by meson
  let ?heads = "map word_of_nat (chain_starts 0 (chain_lengths reqs)) :: u16 list"
  have off: "offered ?m3 = zip ?heads css" using m2(3) m3(3) e(2) b(3) by simp
  have same: "same_where (\<lambda>i. unat ARENA \<le> i) (bytes m1) (bytes m4)"
    using m2(2) m3(2) e(1) m4(2) unfolding same_arena_def by (meson same_where_trans)
  have starts: "length (chain_starts k ns) = length ns" for k ns by (induction ns arbitrary: k) simp_all
  have "length css = length reqs" using arg_cong [OF b(3), of length] by (simp add: chain_lengths_def)
  then have heads: "length ?heads = length css" "length ?heads = length reqs" by (simp_all add: starts chain_lengths_def)
  obtain m5 where m5: "port_chains cr m4 (zip ?heads css) [] 0 =
        Inr (zip ?heads (map (\<lambda>ps. of_nat (length (concat ps))) reqs), of_nat (sum_list (chain_lengths reqs)), m5)"
      "list_all2 (reply_at (bytes m5)) rs reqs"
    using port_chains_ok [OF region rings placed_same [OF b(4) same] heads(1) order_refl fits(3), of "[]" 0] b(3) by auto
  obtain notify m6 where m6: "vc_needs_notification cr m5 = Inr (notify, m6)" "same_arena bytes m5 m6"
    using rings unfolding rings_documented_def by meson
  have "list_all2 (reply_at (bytes m6)) rs reqs"
    using m5(2) by (rule list_all2_mono) (rule reply_at_same [OF _ m6(2) [unfolded same_arena_def]])
  from port_replies_ok [OF region this heads(2) fits(3)]
  have "port_exchange cr reqs = Ok (zip ?heads (map (\<lambda>ps. of_nat (length (concat ps))) reqs),
      of_nat (sum_list (chain_lengths reqs)), notify)"
    by (simp only: port_exchange_def m0(1) b(1) m2(1) m3(1) m4(1) off m5(1) m6(1) sum.case prod.case outcome.case if_True)
  then show ?thesis by blast
qed

section \<open>A crate that keeps its documentation\<close>

text \<open>The region as a byte list, with the chains the mock driver was given.\<close>

record VqMock =
  vm_bytes :: "u8 list"
  vm_offered :: "(u16 \<times> Descriptor list) list"

fun split_chains :: "Descriptor list \<Rightarrow> Descriptor list list" where
  "split_chains [] = []"
| "split_chains (d # ds) =
     (if has_next d then (case split_chains ds of [] \<Rightarrow> [[d]] | c # cs \<Rightarrow> (d # c) # cs) else [d] # split_chains ds)"

definition mock_queue :: "VqMock VqCrate" where
  "mock_queue = \<lparr>
     vc_from_ranges = (\<lambda>rs. Inr \<lparr>vm_bytes = replicate (snd (hd rs)) 0, vm_offered = []\<rparr>),
     vc_read_slice = (\<lambda>a n m. if unat a + n \<le> length (vm_bytes m) then Inr (window (unat a) n (vm_bytes m)) else Inl 1),
     vc_write_slice = (\<lambda>b a m. if unat a + length b \<le> length (vm_bytes m)
       then Inr (m\<lparr>vm_bytes := blit (unat a) b (vm_bytes m)\<rparr>) else Inl 1),
     vc_mock_new = (\<lambda>q m. m),
     vc_add_desc_chains = (\<lambda>ds i m. let cs = split_chains ds in
       Inr (m\<lparr>vm_offered := zip (map word_of_nat (chain_starts 0 (map length cs))) cs\<rparr>)),
     vc_create_queue = Inr,
     vc_set_event_idx = (\<lambda>b m. m),
     vc_iter = (\<lambda>m. Inr (vm_offered m, m\<lparr>vm_offered := []\<rparr>)),
     vc_add_used = (\<lambda>h n m. Inr m),
     vc_needs_notification = (\<lambda>m. Inr (True, m))\<rparr>"

lemma split_chains_linked: "in_order i c \<Longrightarrow> split_chains (c @ ds) = c # split_chains ds"
  by (induction i c rule: in_order.induct) simp_all

lemma split_chains_concat: "linked_chains i cs \<Longrightarrow> split_chains (concat cs) = cs"
  by (induction i cs rule: linked_chains.induct) (auto simp: split_chains_linked)

lemma mock_region: "region_documented mock_queue vm_bytes"
  by (simp add: region_documented_def mock_queue_def)

lemma mock_rings: "rings_documented mock_queue vm_bytes vm_offered"
  by (simp add: rings_documented_def mock_queue_def same_arena_def same_where_refl split_chains_concat ex_bool_eq)

lemma mock_queue_documented: "queue_crate_documented mock_queue vm_bytes vm_offered"
  by (simp add: queue_crate_documented_def mock_region mock_rings)

end
