(* ===== verification/VqProperties.thy ===== *)
theory VqProperties
  imports VqExample VqReport VqCrates
begin

text \<open>
  The properties of the virtqueue (\<^verbatim>\<open>rung-02-virtio/toy-virtq-raw\<close>), each with a concrete application on
  the small queue of \<open>VqExample\<close>. They rest on the lemmas of the component theories.
\<close>

section \<open>The protocol of driver and device\<close>

text \<open>C1: In every state that driver and device reach from a fresh queue by any interleaving of their
  operations and of guest writes outside the queue, each descriptor is free or in exactly one
  outstanding chain, the chains waiting in the available ring and those waiting in the used ring are
  the outstanding ones, without repetition, and every outstanding chain is still stored intact.\<close>

theorem queue_protocol_invariant:
  assumes "queue_reachable work (drv, dev, m)"
  shows "queue_inv drv dev m \<and> distinct (in_used drv dev m @ pending dev m) \<and>
    set (in_used drv dev m @ pending dev m) = dom (outstanding drv) \<and>
    set (free_descs drv) \<union> \<Union> (set ` ran (outstanding drv)) = {i. i < queue_size (drv_layout drv)}"
proof -
  have inv: "queue_inv drv dev m"
    using system_inv_reachable [OF assms] by (simp add: system_inv_def)
  then show ?thesis
    using queue_invD(3,6,7) [OF inv] driver_invD(5) by blast
qed

lemma queue_protocol_invariant_witness:
  "\<exists>h drv m. add_chain small_driver small_mem small_buffers = (Ok h, drv, m) \<and>
     distinct (in_used drv small_device m @ pending small_device m)"
proof -
  obtain h drv m where p: "add_chain small_driver small_mem small_buffers = (Ok h, drv, m)"
    using small_published by blast
  have "queue_step echo (small_driver, small_device, small_mem) (drv, small_device, m)"
    by (rule queue_step.publish [OF _ p]) (simp add: small_good)
  then have "queue_reachable echo (drv, small_device, m)"
    by (rule queue_reachable.step [OF small_reachable])
  from queue_protocol_invariant [OF this] p show ?thesis by blast
qed

text \<open>C2: Requests published on a quiescent queue come back: the driver publishes a chain for each, one call of
  the device's processing loop returns and writes each response (cut to the writable buffers of its
  chain, which keep their tail), the driver collects exactly those chains in order with the numbers
  of bytes written, and every descriptor is free again. The requests may be any that fit the queue,
  keep to memory outside it, and have no reply buffer that overlaps a later request's buffers.\<close>

theorem requests_return:
  assumes "queue_reachable work' (drv, dev, m)" "outstanding drv = Map.empty"
    and "\<forall>bs \<in> set bss. usable (drv_layout drv) m bs" "sorted_wrt clear_of bss"
    and "sum_list (map length bss) \<le> qn (drv_layout drv)"
    and "answers work w (map (\<lambda>bs. bytes_of m (request_refs bs)) bss) = (as, w')"
  shows "\<exists>hs drv1 m1 st' dev2 m2 drv2.
    add_chains drv m bss = Some (hs, drv1, m1) \<and>
    process work dev m1 w st = Some (Ok st', dev2, m2, w') \<and>
    map (\<lambda>bs. bytes_of m2 (reply_refs bs)) bss =
      map2 (\<lambda>bs response. take (ref_total (reply_refs bs)) response @
        drop (length response) (bytes_of m (reply_refs bs))) bss as \<and>
    collect_used drv1 m2 =
      (Ok (zip hs (map2 (\<lambda>bs response. of_nat (min (ref_total (reply_refs bs)) (length response))) bss as)), drv2) \<and>
    outstanding drv2 = Map.empty \<and> length (free_descs drv2) = qn (drv_layout drv)"
proof -
  have "queue_inv drv dev m"
    using system_inv_reachable [OF assms(1)] by (simp add: system_inv_def)
  from requests_roundtrip [where st = st, OF this assms(2-6)] show ?thesis
    unfolding filled_def by blast
qed

lemma requests_return_witness:
  "\<exists>hs drv1 m1 st' dev2 m2 drv2.
    add_chains small_driver small_mem [small_buffers] = Some (hs, drv1, m1) \<and>
    process echo small_device m1 () stats_default = Some (Ok st', dev2, m2, ()) \<and>
    collect_used drv1 m2 = (Ok (zip hs [4]), drv2)"
proof -
  have len: "length (bytes_of small_mem (request_refs small_buffers)) = 4"
    using length_bytes_of [of small_mem "request_refs small_buffers"] queue_inD(2) [OF small_queue_in]
    by (simp add: small_refs refs_in_def in_mem_def small_mem_def mem_new_def)
  have "usable small_layout small_mem small_buffers"
    using small_good by (simp add: usable_def small_refs refs_in_def in_mem_def small_mem_def mem_new_def ref_bytes_def
        bytes_at_def queue_area_def)
  with requests_return [OF small_reachable, of "[small_buffers]" echo "()" "[bytes_of small_mem (request_refs small_buffers)]" "()" stats_default]
  show ?thesis
    using len by (simp add: echo_def small_refs(2,3)) blast
qed

text \<open>C3: In every reachable state the device's processing loop returns, whatever the work function, and
  drains the queue in order: no chain is pending afterwards, and the used ring has grown by one
  entry per chain that was pending, in the order in which the driver published them.\<close>

theorem process_drains_in_order:
  assumes "queue_reachable work' (drv, dev, m)"
  shows "\<exists>st' dev' m' w' lens.
    process work dev m w st = Some (Ok st', dev', m', w') \<and>
    pending dev' m' = [] \<and> length lens = length (pending dev m) \<and>
    used_queue.contents (drv_layout drv) m' (last_used drv) (next_used dev') =
      used_queue.contents (drv_layout drv) m (last_used drv) (next_used dev) @
        zip (map ucast (pending dev m)) lens"
proof -
  have inv: "queue_inv drv dev m"
    using system_inv_reachable [OF assms] by (simp add: system_inv_def)
  show ?thesis
    by (rule queue_inv_process [OF inv, where work = work and w = w and st = st]) blast
qed

lemma process_drains_in_order_witness:
  "\<exists>st' dev' m' w'. process echo small_device small_mem () stats_default = Some (Ok st', dev', m', w') \<and>
     pending dev' m' = []"
  using process_drains_in_order [OF small_reachable, of echo "()" stats_default] by blast

section \<open>The walk of a chain\<close>


text \<open>C5: Whatever the guest wrote, the walk ends: it yields at most one item more than the queue has
  descriptors, and only the last item can be an error.\<close>

theorem walk_is_bounded:
  "length (chain_items (chain_new m l h)) \<le> Suc (qn l) \<and>
   (\<exists>ds. chain_items (chain_new m l h) = map Inr ds \<or>
     (\<exists>e. chain_items (chain_new m l h) = map Inr ds @ [Inl e]))"
  using chain_items_bound chain_items_shape by blast

text \<open>A chain that has not ended after as many descriptors as the queue has, such as any cycle of
  otherwise acceptable descriptors, is rejected as too long.\<close>

theorem endless_chain_rejected:
  assumes "running m l h ds" "length ds = qn l" "ds \<noteq> []" "acceptable ds"
  shows "chain_walk m l h = Inl (TooLong (queue_size l))"
  by (rule running_too_long [OF assms])

lemma endless_chain_rejected_witness: "chain_walk loop_mem small_layout 0 = Inl (TooLong 2)"
proof -
  have "acceptable [loop_desc, loop_desc]"
    by (simp add: acceptable_def ordered_False [symmetric] loop_desc_def is_indirect_def is_write_only_def virtq_consts)
  moreover have "running loop_mem small_layout 0 [loop_desc, loop_desc]"
    by (simp add: loop_table) (simp add: loop_desc_def has_next_def virtq_consts loop_table [unfolded loop_desc_def])
  ultimately show ?thesis
    using endless_chain_rejected [of loop_mem small_layout 0 "[loop_desc, loop_desc]"] by simp
qed

text \<open>A descriptor whose successor lies outside the table ends the walk with an index error.\<close>

lemma successor_outside_rejected:
  assumes "table m l h = Some d" "\<not> is_indirect d" "has_next d" "queue_size l \<le> d_next d" "1 < queue_size l"
  shows "chain_walk m l h = Inl (IndexOutOfRange (d_next d) (queue_size l))"
proof -
  have "queue_size l \<noteq> 0" "queue_size l \<noteq> 1" using assms(5) by auto
  from next_outside_rejected [OF assms(1-4) this] show ?thesis .
qed

lemma successor_outside_rejected_witness:
  "chain_walk (loop_mem\<lparr>buf := bytes_of_desc (loop_desc\<lparr>d_next := 7\<rparr>) @ replicate 112 0\<rparr>) small_layout 0 =
    Inl (IndexOutOfRange 7 2)"
proof -
  let ?m = "loop_mem\<lparr>buf := bytes_of_desc (loop_desc\<lparr>d_next := 7\<rparr>) @ replicate 112 0\<rparr>"
  have "queue_in small_layout ?m"
    using small_wf by (simp add: queue_in_def mem_wf_def)
  then have "table ?m small_layout 0 = Some (loop_desc\<lparr>d_next := 7\<rparr>)"
    by (rule table_of_bytes) (simp_all add: window_def)
  from successor_outside_rejected [OF this] show ?thesis
    by (simp add: loop_desc_def is_indirect_def has_next_def virtq_consts)
qed

section \<open>What the device does to memory\<close>

text \<open>C6: Serving one chain changes no byte of the region outside the writable buffers of that chain (none
  when the chain is rejected), the used-ring slot at the device's counter and the used index, and
  it always completes the chain.\<close>

theorem device_confined:
  assumes "queue_in (dev_layout d) m" "serve_chain work h d m w st = (r, d', m', w', st')"
    and "i < length (buf m)"
    and "i \<notin> writes m (dev_layout d) h" "i \<notin> used_slot_bytes (dev_layout d) (next_used d)"
    and "i \<notin> bytes_at (used_idx (dev_layout d)) 2"
  shows "buf m' ! i = buf m ! i \<and> length (buf m') = length (buf m) \<and> r = Ok () \<and>
    used_count (dev_layout d) m' = next_used d + 1"
  using serve_chain_frame [OF assms(1,2)] assms(3-6) by (simp add: same_off_def)

lemma device_confined_witness:
  "\<exists>r d' m' w' st'. serve_chain echo 0 small_device loop_mem () stats_default = (r, d', m', w', st') \<and>
     buf m' ! 80 = 0 \<and> r = Ok ()"
proof -
  obtain r d' m' w' st' where s: "serve_chain echo 0 small_device loop_mem () stats_default = (r, d', m', w', st')"
    by (metis prod_cases5)
  have "chain_walk loop_mem small_layout 0 \<noteq> Inr ds" for ds
    using self_loop_rejected [OF loop_table] by (simp add: loop_desc_def is_indirect_def has_next_def virtq_consts)
  then have "writes loop_mem small_layout 0 = {}"
    by (simp add: writes_def split: sum.split)
  moreover have "unat ((0 :: u16) mod 2) = 0" by simp
  moreover have "buf loop_mem ! 80 = 0" by (simp add: loop_mem_def nth_append)
  ultimately show ?thesis
    using device_confined [OF _ s, of 80] s loop_queue_in used_idx_at [OF small_wf]
    by (simp add: used_slot_bytes_def Let_def bytes_at_def loop_mem_def)
qed

text \<open>C7: A malformed chain is completed with length 0 and recorded as rejected with its reason; neither the
  guest's buffers nor the work function are touched.\<close>

theorem malformed_chain_completed:
  assumes "queue_in (dev_layout d) m" "chain_walk m (dev_layout d) h = Inl e"
    and "unat (next_used d - u0) < qn (dev_layout d)"
  shows "\<exists>m' st'. serve_chain work h d m w st =
      (Ok (), d\<lparr>next_used := next_used d + 1, num_added := num_added d + 1\<rparr>, m', w, st') \<and>
    st_rejected st' = st_rejected st @ [(h, RejectChain e)] \<and> st_chains st' = st_chains st + 1 \<and>
    same_off (used_area (dev_layout d)) m m' \<and>
    used_queue.contents (dev_layout d) m' u0 (next_used d + 1) =
      used_queue.contents (dev_layout d) m u0 (next_used d) @ [(ucast h, 0)]"
  using serve_chain_rejects [OF assms(1,2), of work w st] completed_contents [OF assms(1,3), of h 0]
    completed_in_used_area [OF assms(1), of h 0]
  by auto

lemma malformed_chain_completed_witness:
  "\<exists>m' st'. serve_chain echo 0 small_device loop_mem () stats_default =
      (Ok (), small_device\<lparr>next_used := 1, num_added := 1\<rparr>, m', (), st') \<and>
    st_rejected st' = [(0, RejectChain (TooLong 2))]"
proof -
  have "chain_walk loop_mem small_layout 0 = Inl (TooLong 2)"
    using self_loop_rejected [OF loop_table] by (simp add: loop_desc_def is_indirect_def has_next_def virtq_consts)
  then show ?thesis
    using malformed_chain_completed [of small_device loop_mem 0 "TooLong 2" 0 echo "()" stats_default] loop_queue_in
    by (simp add: stats_default_def) blast
qed

text \<open>C8: The response is scattered over the writable buffers as over one buffer: with disjoint buffers
  inside the region, their bytes afterwards are the response cut to their total length, followed by
  what they held beyond it, and the count of bytes written is exact.\<close>

theorem response_scattered:
  assumes "mem_wf m" "refs_in m ws" "refs_disjoint ws" "ref_total ws < 2 ^ 32"
  shows "\<exists>m'. scatter m head ws response 0 0 st =
      (m', of_nat (min (ref_total ws) (length response)), st) \<and>
    bytes_of m' ws = take (ref_total ws) response @ drop (length response) (bytes_of m ws)"
  using scatter_content [of m ws 0 0 response head st] assms by simp

lemma response_scattered_witness:
  "\<exists>m'. scatter small_mem 0 [(80, 2), (90, 4)] [1, 2, 3] 0 0 stats_default = (m', 3, stats_default) \<and>
     take 3 (bytes_of m' [(80, 2), (90, 4)]) = [1, 2, 3]"
  using response_scattered [of small_mem "[(80, 2), (90, 4)]" 0 "[1, 2, 3]" stats_default]
    queue_inD(2) [OF small_queue_in]
  by (auto simp: refs_in_def in_mem_def small_mem_def mem_new_def ref_bytes_def bytes_at_def)

section \<open>Notifications\<close>

text \<open>C9: No wakeup is lost towards the device: when the device has published its position and found
  nothing to do, the next chain the driver publishes makes \<^verbatim>\<open>needs_kick\<close> demand a kick.\<close>

theorem sleeping_device_kicked:
  assumes "queue_inv drv dev m" "dev_event_idx dev" "drv_event_idx drv"
    and "enable_notification dev m = (Inr False, m1)"
    and "good_buffers (drv_layout drv) bs" "add_chain drv m1 bs = (Ok h, drv', m2)"
    and "unat (drv_avail_idx drv - last_kick drv) < 65535"
  shows "needs_kick drv' m2 = (Inr True, drv'\<lparr>last_kick := drv_avail_idx drv'\<rparr>) \<and> pending dev m2 = [h]"
  using sleeping_device_is_kicked [OF assms] by simp

lemma sleeping_device_kicked_witness:
  "\<exists>m1 h drv m2. enable_notification small_device small_mem = (Inr False, m1) \<and>
     add_chain small_driver m1 small_buffers = (Ok h, drv, m2) \<and> fst (needs_kick drv m2) = Inr True"
proof -
  have "pending small_device small_mem = []"
    using queue_invD(7) [OF small_inv] by simp
  then obtain m1 where m1: "enable_notification small_device small_mem = (Inr False, m1)"
      "queue_inv small_driver small_device m1"
    by (metis (full_types) enable_notification_pending [OF small_inv] small_fields(5))
  obtain h drv m2 where p: "add_chain small_driver m1 small_buffers = (Ok h, drv, m2)"
    using queue_inv_add_chain [OF m1(2), of small_buffers] small_good small_refs(3)
    by (simp only: small_fields) (metis order_refl)
  show ?thesis
    using sleeping_device_kicked [OF small_inv _ _ m1(1) _ p] m1(1) p small_good by simp
qed

text \<open>C10: No completion is lost towards the driver: when the driver armed its threshold with everything
  collected and chains are pending, the device's next processing makes \<^verbatim>\<open>needs_notification\<close> demand
  an interrupt.\<close>

theorem waiting_driver_interrupted:
  assumes "queue_inv drv dev m" "dev_event_idx dev" "in_used drv dev m = []"
    and "arm_used_event drv m = Inr m1"
    and "pending dev m1 \<noteq> []" "unat (num_added dev) + length (pending dev m1) < 65536"
    and "process work dev m1 w st = Some (Ok st', dev2, m2, w')"
  shows "needs_notification dev2 m2 = (Inr True, dev2\<lparr>num_added := 0\<rparr>)"
  by (rule waiting_driver_is_interrupted [OF assms])

lemma waiting_driver_interrupted_witness:
  "\<exists>h drv m m1 st' dev2 m2. add_chain small_driver small_mem small_buffers = (Ok h, drv, m) \<and>
     arm_used_event drv m = Inr m1 \<and>
     process echo small_device m1 () stats_default = Some (Ok st', dev2, m2, ()) \<and>
     fst (needs_notification dev2 m2) = Inr True"
proof -
  obtain h drv m where p: "add_chain small_driver small_mem small_buffers = (Ok h, drv, m)"
      "queue_inv drv small_device m" "pending small_device m = [h]" "in_used drv small_device m = []"
      "drv_layout drv = small_layout"
    using small_published by blast
  have q: "queue_in small_layout m" using queue_invD(2) [OF p(2)] p(5) by simp
  obtain m1 where m1: "arm_used_event drv m = Inr m1"
    using u16_cell.wr_some [OF queue_inD(2) [OF q] fields_in_mem(3) [OF q]] p(5)
    by (auto simp: arm_used_event_def)
  then have off: "same_off (bytes_at (used_event small_layout) 2) m m1"
    using u16_cell.wr_frame [OF queue_inD(2) [OF q]] p(5) by (simp add: arm_used_event_def)
  have inv: "queue_inv drv small_device m1"
    using queue_inv_frame_live [OF p(2) off] thresholds_not_live(1) [OF small_wf] p(5) by simp
  have "avail_slot_bytes small_layout i \<inter> bytes_at (used_event small_layout) 2 = {}"
    "bytes_at (avail_idx small_layout) 2 \<inter> bytes_at (used_event small_layout) 2 = {}" for i
    using slot_bytes_disjoint(5,7) [OF small_wf] by (simp_all add: Int_commute)
  then have "pending small_device m1 = pending small_device m"
    unfolding pending_def
    using avail_load_frame [OF q off] get_u16_frame [OF queue_inD(2) [OF q] off]
    by (simp add: avail_queue.contents_def)
  then have pend: "pending small_device m1 = [h]" using p(3) by simp
  obtain st' m2 w' where r: "process echo small_device m1 () stats_default = Some (Ok st', drained small_device m1, m2, w')"
    by (rule queue_inv_process [OF inv, where work = echo and w = "()" and st = stats_default])
  show ?thesis
    using waiting_driver_interrupted [OF p(2) _ p(4) m1 _ _ r] p(1) m1 pend r
    by (auto intro!: exI)
qed

text \<open>C11: \<^verbatim>\<open>need_event\<close> is the specification's crossing test: it answers yes exactly when the
  counter moved past the threshold since the last decision, also across the wrap of 16 bits.\<close>

theorem need_event_iff_crossed:
  "need_event event new old \<longleftrightarrow> (\<exists>j < unat (new - old). event = old + of_nat j)"
  by (rule need_event_iff_passed)

text \<open>Notifications are suppressed: after the driver's last kick passed the device's threshold, it
  kicks no more until the device publishes a new one, for up to 2^16 chains.\<close>

lemma kicks_suppressed:
  assumes "queue_in (drv_layout d) m" "drv_event_idx d"
    and "last_kick d \<noteq> get_u16 m (avail_event (drv_layout d))"
    and "unat (last_kick d - get_u16 m (avail_event (drv_layout d))) + unat (drv_avail_idx d - last_kick d) < 65536"
  shows "needs_kick d m = (Inr False, d\<lparr>last_kick := drv_avail_idx d\<rparr>)"
  using need_event_silent [OF assms(3,4)] needs_kick_eq [OF assms(1)] assms(2) by simp

lemma kicks_suppressed_witness:
  "needs_kick (small_driver\<lparr>last_kick := 1, drv_avail_idx := 3\<rparr>) small_mem =
    (Inr False, small_driver\<lparr>last_kick := 3, drv_avail_idx := 3\<rparr>)"
proof -
  have "get_u16 small_mem (avail_event small_layout) = 0"
    by (simp add: small_mem_def get_u16_new)
  then show ?thesis
    using kicks_suppressed [of "small_driver\<lparr>last_kick := 1, drv_avail_idx := 3\<rparr>" small_mem] small_queue_in by simp
qed

section \<open>The driver\<close>

text \<open>C12: Publishing a well-formed chain on a protocol state takes descriptors from the free list, leaves a
  table from which the device's walk reads back exactly the buffers handed in, appends the chain to
  what the device has pending, and keeps the protocol.\<close>

theorem published_chain_reads_back:
  assumes "queue_inv drv dev m" "good_buffers (drv_layout drv) bs" "length bs \<le> length (free_descs drv)"
  shows "\<exists>h drv' m' ds. add_chain drv m bs = (Ok h, drv', m') \<and> queue_inv drv' dev m' \<and>
    pending dev m' = pending dev m @ [h] \<and> chain_walk m' (drv_layout drv) h = Inr ds \<and>
    readable_refs ds = request_refs bs \<and> writable_refs ds = reply_refs bs \<and>
    length (free_descs drv') + length bs = length (free_descs drv)"
proof (rule queue_inv_add_chain [OF assms])
  fix "is" drv' m'
  assume p: "add_chain drv m bs = (Ok (hd is), drv', m')" "queue_inv drv' dev m'"
      "pending dev m' = pending dev m @ [hd is]" "length is = length bs" "free_descs drv = free_descs drv' @ rev is"
      "stored m' (drv_layout drv) (zip is bs)" "outstanding drv' = (outstanding drv)(hd is \<mapsto> is)"
      "drv' = drv\<lparr>free_descs := free_descs drv', outstanding := outstanding drv',
         drv_avail_idx := drv_avail_idx drv + 1\<rparr>"
  have "drv_layout drv' = drv_layout drv" by (subst p(8)) simp
  then have "length is \<le> qn (drv_layout drv)"
    using chain_length [OF queue_invD(3) [OF p(2)], of "hd is" "is"] p(7) by simp
  then show ?thesis
    using p stored_walk(1) [OF p(6,4) assms(2)] refs_chain_descs [of "zip is bs"] by auto
qed

lemma published_chain_reads_back_witness:
  "\<exists>h drv' m' ds. add_chain small_driver small_mem small_buffers = (Ok h, drv', m') \<and>
     chain_walk m' small_layout h = Inr ds \<and> readable_refs ds = [(80, 4)] \<and> writable_refs ds = [(88, 4)]"
  using published_chain_reads_back [OF small_inv, of small_buffers] small_good small_refs by simp blast

text \<open>\<^verbatim>\<open>collect_used\<close> returns exactly the completions the device wrote and the driver had not yet
  collected, in order, frees exactly their descriptors, and keeps the protocol.\<close>

theorem collect_returns_completions:
  assumes "queue_inv drv dev m"
  shows "\<exists>drv'. collect_used drv m =
      (Ok (map completion (used_queue.contents (drv_layout drv) m (last_used drv) (next_used dev))), drv') \<and>
    queue_inv drv' dev m \<and> in_used drv' dev m = [] \<and>
    outstanding drv' = outstanding drv |` (- set (in_used drv dev m))"
proof -
  let ?d = "(foldl release drv (in_used drv dev m))\<lparr>last_used := next_used dev\<rparr>"
  have "in_used ?d dev m = []"
    by (simp add: in_used_def used_queue.contents_def)
  then show ?thesis
    using queue_inv_collect [OF assms] by (auto simp: outstanding_foldl_release)
qed

lemma collect_returns_completions_witness:
  "\<exists>drv'. collect_used small_driver small_mem = (Ok [], drv') \<and> in_used drv' small_device small_mem = []"
  using collect_returns_completions [OF small_inv] by (auto simp: used_queue.contents_def)

text \<open>A chain longer than the free list is refused without any change of driver or memory.\<close>

theorem no_descriptors_no_change:
  assumes "bs \<noteq> []" "length (free_descs drv) < length bs"
  shows "add_chain drv m bs = (Err OutOfDescriptors, drv, m)"
  by (rule add_chain_unchanged [OF assms])

lemma no_descriptors_no_change_witness:
  "add_chain small_driver small_mem (small_buffers @ small_buffers) = (Err OutOfDescriptors, small_driver, small_mem)"
  by (rule no_descriptors_no_change) (simp_all add: small_buffers_def)

text \<open>A buffer that the driver's allocator hands out lies inside the arena, and the arena moves past
  it to a multiple of 8, so that later buffers never overlap it.\<close>

theorem alloc_inside_arena:
  assumes "alloc_uninit d len = (Some a, d')" "unat (arena_end d) < 2 ^ 63"
  shows "a = arena d \<and> unat a + unat len \<le> unat (arena_end d) \<and> unat a + unat len \<le> unat (arena d') \<and>
    unat (arena d') mod 8 = 0 \<and> d' = d\<lparr>arena := arena d'\<rparr>"
  using alloc_uninit_bounds [OF assms] by blast

lemma alloc_inside_arena_witness:
  "\<exists>a d'. alloc_uninit (small_driver\<lparr>arena := 80\<rparr>) 5 = (Some a, d') \<and> 85 \<le> unat (arena d')"
proof -
  have s: "arena_end small_driver = 128" by (simp add: small_driver_def driver_new_def)
  then obtain a d' where a: "alloc_uninit (small_driver\<lparr>arena := 80\<rparr>) 5 = (Some a, d')"
    by (simp add: alloc_uninit_def checked_add_def)
  then have "a = 80" by (simp add: alloc_uninit_def checked_add_def s)
  then show ?thesis
    using alloc_inside_arena [OF a] a s by auto
qed

section \<open>Rings, layout and memory\<close>

text \<open>The available ring is a first-in first-out queue of heads: storing at the producer's counter
  appends, and the consumer's counter reads the oldest entry, as long as no more than the queue size
  are in flight, however the 16-bit counters wrap.\<close>

theorem available_ring_is_fifo:
  assumes "queue_in l m" "unat (w - r) < qn l"
  shows "avail_queue.contents l (avail_store l m w h) r (w + 1) = avail_queue.contents l m r w @ [h] \<and>
    (r \<noteq> w \<longrightarrow> avail_queue.contents l m r w = avail_load l m r # avail_queue.contents l m (r + 1) w)"
proof (intro conjI impI)
  show "avail_queue.contents l (avail_store l m w h) r (w + 1) = avail_queue.contents l m r w @ [h]"
    by (rule avail_queue.contents_push [OF assms])
  show "avail_queue.contents l m r w = avail_load l m r # avail_queue.contents l m (r + 1) w" if "r \<noteq> w"
    using that by (intro avail_queue.contents_pop) simp
qed

lemma available_ring_is_fifo_witness:
  "avail_queue.contents small_layout (avail_store small_layout small_mem (- 1) 1) (- 1) 0 = [1]"
  using available_ring_is_fifo [OF small_queue_in, of "- 1" "- 1" 1] by (simp add: avail_queue.contents_def)

text \<open>C13: A layout is made exactly for the powers of two, and its three parts have the specification's
  alignments and sizes and do not overlap.\<close>

theorem layout_legal:
  assumes "unat base + 26 * unat qs + 64 < 2 ^ 64"
  shows "(case layout_new base qs of
      None \<Rightarrow> \<not> is_power_of_two qs
    | Some l \<Rightarrow> is_power_of_two qs \<and> queue_size l = qs \<and> unat base \<le> unat (desc_table l) \<and>
        unat (desc_table l) mod 16 = 0 \<and> unat (avail_ring l) mod 2 = 0 \<and> unat (used_ring l) mod 4 = 0 \<and>
        unat (desc_table l) + 16 * unat qs \<le> unat (avail_ring l) \<and>
        unat (avail_ring l) + 6 + 2 * unat qs \<le> unat (used_ring l) \<and>
        unat (layout_end l) = unat (used_ring l) + 6 + 8 * unat qs)"
proof (cases "layout_new base qs")
  case None
  then show ?thesis using layout_new_None_iff [of base qs] by simp
next
  case (Some l)
  note wf = layout_new_wf [OF Some assms] and pos = layout_new_positions [OF Some assms]
  then show ?thesis
    using Some total_size_at(2) [OF wf] layout_wf_bounds [OF wf] by (simp add: layout_wf_def)
qed

lemma layout_legal_witness: "unat (layout_end small_layout) = 66"
  using layout_legal [of 0 2] small_layout_new by simp

text \<open>C14: A read or write of the region succeeds exactly when its range lies inside it; a range whose end
  overflows 64 bits is refused like any other.\<close>

theorem access_iff_in_range:
  assumes "mem_wf m" "length data < 2 ^ 64"
  shows "((\<exists>bs. read_slice m a n = Inr bs) \<longleftrightarrow> unat a + unat n \<le> length (buf m)) \<and>
    ((\<exists>m'. write_slice m a data = Inr m') \<longleftrightarrow> unat a + length data \<le> length (buf m))"
  using assms by (simp add: read_slice_eq [OF assms(1)] write_slice_eq [OF assms] in_mem_def)

lemma access_iff_in_range_witness:
  "\<nexists>bs. read_slice small_mem (- 1) 2 = Inr bs"
  using access_iff_in_range [of small_mem "[]" "- 1" 2] queue_inD(2) [OF small_queue_in]
  by (simp add: small_mem_def mem_new_def unsigned_minus_1_eq_mask mask_eq_exp_minus_1)

text \<open>What was written is read back, and every other byte keeps its value.\<close>

theorem write_then_read:
  assumes "mem_wf m" "length data < 2 ^ 64" "write_slice m a data = Inr m'"
  shows "read_slice m' a (word_of_nat (length data)) = Inr data \<and>
    (bytes_at b (unat n) \<inter> bytes_at a (length data) = {} \<longrightarrow> read_slice m' b n = read_slice m b n)"
  using read_write_slice_same [OF assms] read_slice_frame [OF assms(1) write_slice_same_off [OF assms]] by blast

lemma write_then_read_witness:
  "\<exists>m'. write_slice small_mem 80 [1, 2, 3] = Inr m' \<and> read_slice m' 80 3 = Inr [1, 2, 3]"
proof -
  note wf = queue_inD(2) [OF small_queue_in]
  obtain m' where "write_slice small_mem 80 [1, 2, 3] = Inr m'"
    by (simp add: write_slice_eq [OF wf] in_mem_def) (simp add: small_mem_def mem_new_def)
  with write_then_read [OF wf _ this, of b n for b n] show ?thesis by simp
qed

section \<open>A hostile guest\<close>

text \<open>C20: The processing loop trusts the available index it rereads: a guest whose one chain makes the
  device write the used index over the available index keeps the loop running for ever.\<close>

theorem hostile_guest_never_served:
  assumes "trapped d m"
  shows "process echo d m w st = None"
  by (rule trapped_process [OF assms])

lemma hostile_guest_never_served_witness: "process echo small_device trap_mem () stats_default = None"
  by (rule hostile_guest_never_served [OF small_trapped])

section \<open>The program\<close>

text \<open>C15: The demo's exchange succeeds on every list of requests that fits: one doorbell covers the burst, the
  device serves every chain without rejecting one, every reply is the request in upper case, the
  completions come back in order with the numbers of bytes written, and no descriptor is lost.\<close>

theorem exchange_replies:
  assumes "layout_wf l" "queue_size l = QUEUE_SIZE" "reqs \<noteq> []"
    and "unat (layout_end l) + 16 + requests_room reqs \<le> REGION" "sum_list (chain_lengths reqs) \<le> 8"
    and "\<forall>parts \<in> set reqs. length (concat parts) \<le> 64"
  shows "exchange l reqs = Some (Ok
     \<lparr>rp_kick = True, rp_avail_event = 0,
      rp_stats = \<lparr>st_chains = of_nat (length reqs), st_descriptors = of_nat (sum_list (chain_lengths reqs)),
        st_bytes_read = of_nat (request_bytes reqs), st_bytes_written = of_nat (request_bytes reqs),
        st_rejected = []\<rparr>,
      rp_interrupt = True, rp_used_event = 0,
      rp_completions = zip (map word_of_nat (chain_starts 0 (chain_lengths reqs)))
        (map (\<lambda>parts. word_of_nat (length (concat parts))) reqs)\<rparr>)"
  using exchange_ok [of l reqs] assms by (simp add: fits_def expected_report_def)

lemma exchange_replies_witness:
  "virtq_demo = Some (Ok
     \<lparr>rp_kick = True, rp_avail_event = 0,
      rp_stats = \<lparr>st_chains = 3, st_descriptors = 7, st_bytes_read = 31, st_bytes_written = 31, st_rejected = []\<rparr>,
      rp_interrupt = True, rp_used_event = 0, rp_completions = [(0, 12), (2, 14), (5, 5)]\<rparr>)"
proof -
  obtain l where l: "layout_new 0 QUEUE_SIZE = Some l" "attack_layout l" "unat (layout_end l) = 222"
    by (rule attack_layout_new)
  have wf: "layout_wf l" "queue_size l = QUEUE_SIZE" using l(2) by (simp_all add: attack_layout_def)
  have "exchange l demo_requests = Some (Ok
     \<lparr>rp_kick = True, rp_avail_event = 0,
      rp_stats = \<lparr>st_chains = 3, st_descriptors = 7, st_bytes_read = 31, st_bytes_written = 31, st_rejected = []\<rparr>,
      rp_interrupt = True, rp_used_event = 0, rp_completions = [(0, 12), (2, 14), (5, 5)]\<rparr>)"
    using exchange_replies [OF wf, of demo_requests] l(3)
    by (simp add: demo_requests_def as_bytes_def requests_room_def parts_room_def chain_lengths_def request_bytes_def REGION_def)
  then show ?thesis using l(1) by (simp add: virtq_demo_def)
qed



text \<open>C17: Each of the five hostile chains is refused with its own reason, completed with length 0, and
  the device goes on.\<close>

theorem hostile_chains_refused:
  "\<exists>l outs. layout_new 0 QUEUE_SIZE = Some l \<and> hostile_chains = Some (Ok outs) \<and>
    map (\<lambda>(name, reason, m). reason) outs =
      [Some (RejectChain (TooLong 8)), Some (RejectChain (TooLong 8)), Some (RejectChain (IndexOutOfRange 60000 8)),
       Some (RejectBuffer (OutOfBounds (- 9) 4096 65536)), Some (RejectChain ReadableAfterWritable)] \<and>
    list_all (\<lambda>(name, reason, m). used_count l m = 1 \<and> used_load l m 0 = (0, 0)) outs"
proof -
  obtain l where l: "layout_new 0 QUEUE_SIZE = Some l" "attack_layout l"
    using attack_layout_new by blast
  obtain outs where outs: "run_cases l hostile_cases = Some (Ok outs)"
      "list_all2 (\<lambda>x r. refused l r (snd x)) outs expected_reasons"
    using hostile_chains_run [OF l(2)] by blast
  have "map (\<lambda>(name, reason, m). reason) outs = map Some expected_reasons \<and>
      list_all (\<lambda>(name, reason, m). used_count l m = 1 \<and> used_load l m 0 = (0, 0)) outs"
    using outs(2) by (induction rule: list_all2_induct) (auto simp: refused_def)
  then show ?thesis
    using l(1) outs(1) by (simp add: hostile_chains_def expected_reasons_def)
qed

text \<open>C18: With the burst of the benchmark, the driver kicks once per request without \<^verbatim>\<open>EVENT_IDX\<close> and once
  per burst with it; the device interrupts once per burst either way.\<close>

theorem kicks_per_burst:
  assumes "1 \<le> batch" "batch \<le> MAX_BATCH"
  shows "notify_run batch ev = Some (Ok
    (if ev then of_nat ((4096 + unat batch - 1) div unat batch) else 4096,
     of_nat ((4096 + unat batch - 1) div unat batch)))"
  using notify_run_counts [OF assms, of ev] unfolding rounds_def .

lemma kicks_per_burst_witness:
  "bench_notification = Some (Ok
    [(1, (4096, 4096), (4096, 4096)), (2, (4096, 2048), (2048, 2048)), (4, (4096, 1024), (1024, 1024)),
     (8, (4096, 512), (512, 512)), (16, (4096, 256), (256, 256)), (32, (4096, 128), (128, 128)),
     (64, (4096, 64), (64, 64))])"
  by (simp add: bench_notification_def kicks_per_burst MAX_BATCH_def)

text \<open>C19: A whole run of \<^verbatim>\<open>--hostile --bench --out path\<close>: the demo verifies, every hostile chain is refused with
  its reason, the benchmark gives the table of kicks and interrupts, and the file of that table is
  line for line the one committed under \<^verbatim>\<open>rung-02-virtio/results\<close>; the file of the walks holds each chain's
  samples in sorted order, because the summary sorts what is written.\<close>

theorem program_reports:
  "\<exists>outs bench. virtq_main clock [''--hostile'', ''--bench'', ''--out'', path] =
      Some (Run (Ok (demo_report, Some outs, Some bench))) \<and>
    map (\<lambda>(name, reason, m). reason) outs =
      [Some (RejectChain (TooLong 8)), Some (RejectChain (TooLong 8)), Some (RejectChain (IndexOutOfRange 60000 8)),
       Some (RejectBuffer (OutOfBounds (- 9) 4096 65536)), Some (RejectChain ReadableAfterWritable)] \<and>
    vb_notify bench =
      [(1, (4096, 4096), (4096, 4096)), (2, (4096, 2048), (2048, 2048)), (4, (4096, 1024), (1024, 1024)),
       (8, (4096, 512), (512, 512)), (16, (4096, 256), (256, 256)), (32, (4096, 128), (128, 128)),
       (64, (4096, 64), (64, 64))] \<and>
    vb_notify_file bench = Some (path @ ''-notify.csv'', unlines
      [''batch,event_idx,kicks,interrupts,requests'',
       ''1,off,4096,4096,4096'', ''1,on,4096,4096,4096'', ''2,off,4096,2048,4096'', ''2,on,2048,2048,4096'',
       ''4,off,4096,1024,4096'', ''4,on,1024,1024,4096'', ''8,off,4096,512,4096'', ''8,on,512,512,4096'',
       ''16,off,4096,256,4096'', ''16,on,256,256,4096'', ''32,off,4096,128,4096'', ''32,on,128,128,4096'',
       ''64,off,4096,64,4096'', ''64,on,64,64,4096'']) \<and>
    vb_walk_file bench = Some (path @ ''-walk.csv'',
      walk_csv (map (\<lambda>len. (len, sort (map (clock len) [0 ..< ITERS]))) [1, 2, 4, 8, 16]))"
  using virtq_main_full [of clock path]
  by (simp only: notify_table_def notify_results_def expected_reasons_def list.map)

end
