(* ===== verification/CLayout.thy ===== *)
theory CLayout
  imports Prelude
begin

text \<open>
  What the raw interfaces of KVM and userfaultfd share: the layout of \<^verbatim>\<open>#[repr(C)]\<close> structures, as the
  C ABI of x86-64 lays them out, and bit fields packed into one number.
\<close>

unbundle bit_operations_syntax

section \<open>Layout of C structures\<close>

text \<open>A field is its size and alignment; each field starts at the next multiple of its alignment.\<close>

type_synonym c_field = "nat \<times> nat"

definition round_up :: "nat \<Rightarrow> nat \<Rightarrow> nat" where
  "round_up n a = (n + a - 1) div a * a"

fun field_ends :: "nat \<Rightarrow> c_field list \<Rightarrow> nat" where
  "field_ends pos [] = pos"
| "field_ends pos ((sz, align) # fs) = field_ends (round_up pos align + sz) fs"

fun field_offsets :: "nat \<Rightarrow> c_field list \<Rightarrow> nat list" where
  "field_offsets pos [] = []"
| "field_offsets pos ((sz, align) # fs) =
     round_up pos align # field_offsets (round_up pos align + sz) fs"

definition struct_align :: "c_field list \<Rightarrow> nat" where
  "struct_align fs = foldr max (map snd fs) 1"

definition struct_size :: "c_field list \<Rightarrow> nat" where
  "struct_size fs = round_up (field_ends 0 fs) (struct_align fs)"

abbreviation c_u8 :: c_field where "c_u8 \<equiv> (1, 1)"
abbreviation c_u16 :: c_field where "c_u16 \<equiv> (2, 2)"
abbreviation c_u32 :: c_field where "c_u32 \<equiv> (4, 4)"
abbreviation c_u64 :: c_field where "c_u64 \<equiv> (8, 8)"

definition c_array :: "nat \<Rightarrow> c_field \<Rightarrow> c_field" where
  "c_array n f = (n * fst f, snd f)"

definition c_struct :: "c_field list \<Rightarrow> c_field" where
  "c_struct fs = (struct_size fs, struct_align fs)"

lemma replicate_steps: "replicate (numeral k) x = x # replicate (pred_numeral k) x"
  by (simp add: numeral_eq_Suc)

section \<open>Packing bit fields\<close>

text \<open>Putting a field above a smaller number is addition.\<close>

lemma or_above: "x < 2 ^ n \<Longrightarrow> push_bit n y OR x = 2 ^ n * y + x" for x y :: nat
proof -
  assume x: "x < 2 ^ n"
  have "\<not> bit x m" if "n \<le> m" for m
  proof -
    have "x < 2 ^ m" using x that by (meson less_le_trans one_le_numeral power_increasing)
    then show ?thesis by (simp add: bit_iff_odd)
  qed
  then have "push_bit n y AND x = 0"
    by (intro bit_eqI) (auto simp: bit_and_iff bit_push_bit_iff)
  then have "push_bit n y + x = push_bit n y OR x"
    by (rule disjunctive_add_eq_or)
  then show ?thesis by (simp add: push_bit_eq_mult mult.commute)
qed

lemma unat_push_bit_small: "unat w * 2 ^ n < 2 ^ LENGTH('a) \<Longrightarrow> unat (push_bit n w) = push_bit n (unat w)"
  for w :: "'a::len word"
proof -
  assume "unat w * 2 ^ n < 2 ^ LENGTH('a)"
  then have "take_bit LENGTH('a) (push_bit n (unat w)) = push_bit n (unat w)"
    by (intro take_bit_nat_eq_self) (simp add: push_bit_eq_mult)
  then show ?thesis by (simp only: unsigned_push_bit_eq)
qed

end
