(* ===== verification/KvmSys.thy ===== *)
theory KvmSys
  imports CLayout
begin

text \<open>
  The raw KVM interface of \<^verbatim>\<open>rung-01-kvm/toy-kvm-raw/src/kvm_sys.rs\<close>: the encoding of ioctl request
  numbers, the requests, the exit reasons and the C structures. A \<^verbatim>\<open>#[repr(C)]\<close> structure is a
  record, its layout the list of the sizes and alignments of its fields (\<open>CLayout\<close>), and \<^verbatim>\<open>size_of\<close>
  in the request numbers is the size of that layout.

  The shared \<^verbatim>\<open>kvm_run\<close> page is a list of bytes; the reads of its header and of the two union
  variants are decodings at the computed offsets.
\<close>

unbundle bit_operations_syntax

section \<open>Request numbers\<close>

definition IOC_NRBITS :: nat where "IOC_NRBITS = 8"
definition IOC_TYPEBITS :: nat where "IOC_TYPEBITS = 8"
definition IOC_SIZEBITS :: nat where "IOC_SIZEBITS = 14"
definition IOC_NRSHIFT :: nat where "IOC_NRSHIFT = 0"
definition IOC_TYPESHIFT :: nat where "IOC_TYPESHIFT = IOC_NRSHIFT + IOC_NRBITS"
definition IOC_SIZESHIFT :: nat where "IOC_SIZESHIFT = IOC_TYPESHIFT + IOC_TYPEBITS"
definition IOC_DIRSHIFT :: nat where "IOC_DIRSHIFT = IOC_SIZESHIFT + IOC_SIZEBITS"

lemmas ioc_shifts = IOC_NRBITS_def IOC_TYPEBITS_def IOC_SIZEBITS_def IOC_NRSHIFT_def
  IOC_TYPESHIFT_def IOC_SIZESHIFT_def IOC_DIRSHIFT_def

definition IOC_NONE :: u32 where "IOC_NONE = 0"
definition IOC_WRITE :: u32 where "IOC_WRITE = 1"
definition IOC_READ :: u32 where "IOC_READ = 2"
definition KVMIO :: u32 where "KVMIO = 0xAE"

lemmas ioc_consts = IOC_NONE_def IOC_WRITE_def IOC_READ_def KVMIO_def

definition ioc :: "u32 \<Rightarrow> u32 \<Rightarrow> u32 \<Rightarrow> u32 \<Rightarrow> u64" where
  "ioc dir ty nr sz =
     ucast (push_bit IOC_DIRSHIFT dir OR push_bit IOC_SIZESHIFT sz OR push_bit IOC_TYPESHIFT ty OR
       push_bit IOC_NRSHIFT nr)"

definition ioc_none :: "u32 \<Rightarrow> u64" where
  "ioc_none nr = ioc IOC_NONE KVMIO nr 0"

definition iow :: "u32 \<Rightarrow> nat \<Rightarrow> u64" where
  "iow nr sz = ioc IOC_WRITE KVMIO nr (word_of_nat sz)"

definition ior :: "u32 \<Rightarrow> nat \<Rightarrow> u64" where
  "ior nr sz = ioc IOC_READ KVMIO nr (word_of_nat sz)"

section \<open>Structures\<close>

record kvm_userspace_memory_region =
  mr_slot :: u32
  mr_flags :: u32
  mr_guest_phys_addr :: u64
  mr_memory_size :: u64
  mr_userspace_addr :: u64

definition kvm_userspace_memory_region_fields :: "c_field list" where
  "kvm_userspace_memory_region_fields = [c_u32, c_u32, c_u64, c_u64, c_u64]"

record kvm_segment =
  seg_base :: u64
  seg_limit :: u32
  seg_selector :: u16
  seg_type :: u8
  seg_present :: u8
  seg_dpl :: u8
  seg_db :: u8
  seg_s :: u8
  seg_l :: u8
  seg_g :: u8
  seg_avl :: u8
  seg_unusable :: u8
  seg_padding :: u8

definition kvm_segment_fields :: "c_field list" where
  "kvm_segment_fields =
     [c_u64, c_u32, c_u16, c_u8, c_u8, c_u8, c_u8, c_u8, c_u8, c_u8, c_u8, c_u8, c_u8]"

record kvm_dtable =
  dt_base :: u64
  dt_limit :: u16
  dt_padding :: "u16 list"

definition kvm_dtable_fields :: "c_field list" where
  "kvm_dtable_fields = [c_u64, c_u16, c_array 3 c_u16]"

record kvm_sregs =
  sr_cs :: kvm_segment
  sr_ds :: kvm_segment
  sr_es :: kvm_segment
  sr_fs :: kvm_segment
  sr_gs :: kvm_segment
  sr_ss :: kvm_segment
  sr_tr :: kvm_segment
  sr_ldt :: kvm_segment
  sr_gdt :: kvm_dtable
  sr_idt :: kvm_dtable
  sr_cr0 :: u64
  sr_cr2 :: u64
  sr_cr3 :: u64
  sr_cr4 :: u64
  sr_cr8 :: u64
  sr_efer :: u64
  sr_apic_base :: u64
  sr_interrupt_bitmap :: "u64 list"

definition kvm_sregs_fields :: "c_field list" where
  "kvm_sregs_fields =
     replicate 8 (c_struct kvm_segment_fields) @ replicate 2 (c_struct kvm_dtable_fields) @
     [c_u64, c_u64, c_u64, c_u64, c_u64, c_u64, c_u64, c_array 4 c_u64]"

record kvm_regs =
  r_rax :: u64
  r_rbx :: u64
  r_rcx :: u64
  r_rdx :: u64
  r_rsi :: u64
  r_rdi :: u64
  r_rsp :: u64
  r_rbp :: u64
  r_r8 :: u64
  r_r9 :: u64
  r_r10 :: u64
  r_r11 :: u64
  r_r12 :: u64
  r_r13 :: u64
  r_r14 :: u64
  r_r15 :: u64
  r_rip :: u64
  r_rflags :: u64

definition kvm_regs_fields :: "c_field list" where
  "kvm_regs_fields = replicate 18 c_u64"

definition kvm_regs_default :: kvm_regs where
  "kvm_regs_default =
     \<lparr>r_rax = 0, r_rbx = 0, r_rcx = 0, r_rdx = 0, r_rsi = 0, r_rdi = 0, r_rsp = 0, r_rbp = 0,
      r_r8 = 0, r_r9 = 0, r_r10 = 0, r_r11 = 0, r_r12 = 0, r_r13 = 0, r_r14 = 0, r_r15 = 0,
      r_rip = 0, r_rflags = 0\<rparr>"

record kvm_run_header =
  hdr_request_interrupt_window :: u8
  hdr_immediate_exit :: u8
  hdr_padding1 :: "u8 list"
  hdr_exit_reason :: u32
  hdr_ready_for_interrupt_injection :: u8
  hdr_if_flag :: u8
  hdr_flags :: u16
  hdr_cr8 :: u64
  hdr_apic_base :: u64

definition kvm_run_header_fields :: "c_field list" where
  "kvm_run_header_fields =
     [c_u8, c_u8, c_array 6 c_u8, c_u32, c_u8, c_u8, c_u16, c_u64, c_u64]"

definition KVM_RUN_UNION_OFFSET :: nat where "KVM_RUN_UNION_OFFSET = 32"

record kvm_run_io =
  io_direction :: u8
  io_size :: u8
  io_port :: u16
  io_count :: u32
  io_data_offset :: u64

definition kvm_run_io_fields :: "c_field list" where
  "kvm_run_io_fields = [c_u8, c_u8, c_u16, c_u32, c_u64]"

record kvm_run_mmio =
  mmio_phys_addr :: u64
  mmio_data :: "u8 list"
  mmio_len :: u32
  mmio_is_write :: u8

definition kvm_run_mmio_fields :: "c_field list" where
  "kvm_run_mmio_fields = [c_u64, c_array 8 c_u8, c_u32, c_u8]"

lemmas kvm_layouts = kvm_userspace_memory_region_fields_def kvm_segment_fields_def
  kvm_dtable_fields_def kvm_sregs_fields_def kvm_regs_fields_def kvm_run_header_fields_def
  kvm_run_io_fields_def kvm_run_mmio_fields_def

section \<open>The requests this VMM issues\<close>

definition KVM_GET_API_VERSION :: u64 where "KVM_GET_API_VERSION = ioc_none 0x00"
definition KVM_CREATE_VM :: u64 where "KVM_CREATE_VM = ioc_none 0x01"
definition KVM_CHECK_EXTENSION :: u64 where "KVM_CHECK_EXTENSION = ioc_none 0x03"
definition KVM_GET_VCPU_MMAP_SIZE :: u64 where "KVM_GET_VCPU_MMAP_SIZE = ioc_none 0x04"
definition KVM_SET_USER_MEMORY_REGION :: u64 where
  "KVM_SET_USER_MEMORY_REGION = iow 0x46 (struct_size kvm_userspace_memory_region_fields)"
definition KVM_SET_TSS_ADDR :: u64 where "KVM_SET_TSS_ADDR = ioc_none 0x47"
definition KVM_CREATE_VCPU :: u64 where "KVM_CREATE_VCPU = ioc_none 0x41"
definition KVM_RUN :: u64 where "KVM_RUN = ioc_none 0x80"
definition KVM_GET_REGS :: u64 where "KVM_GET_REGS = ior 0x81 (struct_size kvm_regs_fields)"
definition KVM_SET_REGS :: u64 where "KVM_SET_REGS = iow 0x82 (struct_size kvm_regs_fields)"
definition KVM_GET_SREGS :: u64 where "KVM_GET_SREGS = ior 0x83 (struct_size kvm_sregs_fields)"
definition KVM_SET_SREGS :: u64 where "KVM_SET_SREGS = iow 0x84 (struct_size kvm_sregs_fields)"
definition KVM_CAP_USER_MEMORY :: u64 where "KVM_CAP_USER_MEMORY = 3"

section \<open>Exit reasons\<close>

definition KVM_EXIT_UNKNOWN :: u32 where "KVM_EXIT_UNKNOWN = 0"
definition KVM_EXIT_IO :: u32 where "KVM_EXIT_IO = 2"
definition KVM_EXIT_HLT :: u32 where "KVM_EXIT_HLT = 5"
definition KVM_EXIT_MMIO :: u32 where "KVM_EXIT_MMIO = 6"
definition KVM_EXIT_SHUTDOWN :: u32 where "KVM_EXIT_SHUTDOWN = 8"
definition KVM_EXIT_FAIL_ENTRY :: u32 where "KVM_EXIT_FAIL_ENTRY = 9"
definition KVM_EXIT_INTR :: u32 where "KVM_EXIT_INTR = 10"
definition KVM_EXIT_INTERNAL_ERROR :: u32 where "KVM_EXIT_INTERNAL_ERROR = 17"
definition KVM_EXIT_IO_IN :: u8 where "KVM_EXIT_IO_IN = 0"
definition KVM_EXIT_IO_OUT :: u8 where "KVM_EXIT_IO_OUT = 1"

lemmas kvm_exits = KVM_EXIT_UNKNOWN_def KVM_EXIT_IO_def KVM_EXIT_HLT_def KVM_EXIT_MMIO_def
  KVM_EXIT_SHUTDOWN_def KVM_EXIT_FAIL_ENTRY_def KVM_EXIT_INTR_def KVM_EXIT_INTERNAL_ERROR_def
  KVM_EXIT_IO_IN_def KVM_EXIT_IO_OUT_def

definition exit_reason_name :: "u32 \<Rightarrow> string" where
  "exit_reason_name r =
     (if r = KVM_EXIT_UNKNOWN then ''KVM_EXIT_UNKNOWN''
      else if r = KVM_EXIT_IO then ''KVM_EXIT_IO''
      else if r = KVM_EXIT_HLT then ''KVM_EXIT_HLT''
      else if r = KVM_EXIT_MMIO then ''KVM_EXIT_MMIO''
      else if r = KVM_EXIT_SHUTDOWN then ''KVM_EXIT_SHUTDOWN''
      else if r = KVM_EXIT_FAIL_ENTRY then ''KVM_EXIT_FAIL_ENTRY''
      else if r = KVM_EXIT_INTR then ''KVM_EXIT_INTR''
      else if r = KVM_EXIT_INTERNAL_ERROR then ''KVM_EXIT_INTERNAL_ERROR''
      else ''unhandled exit reason'')"

section \<open>Reading the shared page\<close>

definition page_field :: "u8 list \<Rightarrow> nat \<Rightarrow> c_field list \<Rightarrow> nat \<Rightarrow> u8 list" where
  "page_field page base fs i = window (base + field_offsets 0 fs ! i) (fst (fs ! i)) page"

definition read_header :: "u8 list \<Rightarrow> kvm_run_header" where
  "read_header page = (let f = page_field page 0 kvm_run_header_fields in
     \<lparr>hdr_request_interrupt_window = of_le_bytes (f 0), hdr_immediate_exit = of_le_bytes (f 1),
      hdr_padding1 = f 2, hdr_exit_reason = of_le_bytes (f 3),
      hdr_ready_for_interrupt_injection = of_le_bytes (f 4), hdr_if_flag = of_le_bytes (f 5),
      hdr_flags = of_le_bytes (f 6), hdr_cr8 = of_le_bytes (f 7), hdr_apic_base = of_le_bytes (f 8)\<rparr>)"

definition read_io :: "u8 list \<Rightarrow> kvm_run_io" where
  "read_io page = (let f = page_field page KVM_RUN_UNION_OFFSET kvm_run_io_fields in
     \<lparr>io_direction = of_le_bytes (f 0), io_size = of_le_bytes (f 1), io_port = of_le_bytes (f 2),
      io_count = of_le_bytes (f 3), io_data_offset = of_le_bytes (f 4)\<rparr>)"

definition read_mmio :: "u8 list \<Rightarrow> kvm_run_mmio" where
  "read_mmio page = (let f = page_field page KVM_RUN_UNION_OFFSET kvm_run_mmio_fields in
     \<lparr>mmio_phys_addr = of_le_bytes (f 0), mmio_data = f 1, mmio_len = of_le_bytes (f 2),
      mmio_is_write = of_le_bytes (f 3)\<rparr>)"

text \<open>The store to the \<^verbatim>\<open>data\<close> field of the live \<^verbatim>\<open>kvm_run_mmio\<close>.\<close>

definition write_mmio_data :: "u8 list \<Rightarrow> u8 list \<Rightarrow> u8 list" where
  "write_mmio_data page data =
     blit (KVM_RUN_UNION_OFFSET + field_offsets 0 kvm_run_mmio_fields ! 1) data page"

section \<open>The encoding is the kernel's\<close>

lemma layout_offsets:
  "field_offsets 0 kvm_run_header_fields = [0, 1, 2, 8, 12, 13, 14, 16, 24]"
  "field_offsets 0 kvm_run_io_fields = [0, 1, 2, 4, 8]"
  "field_offsets 0 kvm_run_mmio_fields = [0, 8, 16, 20]"
  by (simp_all add: kvm_layouts round_up_def c_array_def)

lemma layout_sizes:
  "struct_size kvm_segment_fields = 24" "struct_size kvm_dtable_fields = 16"
  "struct_size kvm_sregs_fields = 312" "struct_size kvm_regs_fields = 144"
  "struct_size kvm_userspace_memory_region_fields = 32"
  "struct_size kvm_run_header_fields = KVM_RUN_UNION_OFFSET"
  "struct_size kvm_run_io_fields = 16" "struct_size kvm_run_mmio_fields = 24"
  by (simp_all add: struct_size_def struct_align_def kvm_layouts round_up_def c_array_def c_struct_def
      replicate_steps KVM_RUN_UNION_OFFSET_def)

lemma unat_ioc:
  assumes "unat dir < 4" "unat sz < 16384" "unat ty < 256" "unat nr < 256"
  shows "unat (ioc dir ty nr sz) = 1073741824 * unat dir + (65536 * unat sz + (256 * unat ty + unat nr))"
proof -
  have "unat (ioc dir ty nr sz) =
      push_bit 30 (unat dir) OR (push_bit 16 (unat sz) OR (push_bit 8 (unat ty) OR unat nr))"
    using assms by (simp add: ioc_def ioc_shifts unsigned_or_eq unat_push_bit_small or.assoc)
  also have "\<dots> = 2 ^ 30 * unat dir + (2 ^ 16 * unat sz + (2 ^ 8 * unat ty + unat nr))"
    using assms by (simp add: or_above)
  finally show ?thesis by simp
qed

end
