(* ===== verification/KvmDevice.thy ===== *)
theory KvmDevice
  imports Prelude
begin

text \<open>
  The device model of \<^verbatim>\<open>rung-01-kvm/toy-kvm-raw/src/device.rs\<close>: a write-only serial port and one
  MMIO register, with counters of the accesses and of those the model does not describe. A
  \<^verbatim>\<open>&mut [u8]\<close> that a read fills is returned. \<^verbatim>\<open>addr - MMIO_BASE\<close> wraps below the base; the run loop
  asks \<^verbatim>\<open>owns_mmio\<close> first, and \<open>mmio_offset_no_wrap\<close> shows that it never does then.
\<close>

unbundle bit_operations_syntax

definition MMIO_BASE :: u64 where "MMIO_BASE = 0x8000"
definition MMIO_LEN :: u64 where "MMIO_LEN = 0x1000"
definition SERIAL_PORT :: u16 where "SERIAL_PORT = 0x03f8"

text \<open>\<^verbatim>\<open>guest::BENCH_PORT\<close>, the diagnostic port that the handler ignores.\<close>

definition BENCH_PORT :: u16 where "BENCH_PORT = 0x0080"

lemmas device_consts = MMIO_BASE_def MMIO_LEN_def SERIAL_PORT_def BENCH_PORT_def

record Devices =
  serial_out :: "u8 list"
  latch :: u8
  pio_writes :: u64
  pio_reads :: u64
  mmio_writes :: u64
  mmio_reads :: u64
  unhandled :: u64

definition devices_default :: Devices where
  "devices_default = \<lparr>serial_out = [], latch = 0, pio_writes = 0, pio_reads = 0, mmio_writes = 0,
     mmio_reads = 0, unhandled = 0\<rparr>"

definition pio_write :: "Devices \<Rightarrow> u16 \<Rightarrow> u8 list \<Rightarrow> Devices" where
  "pio_write d port data =
     (let d1 = d\<lparr>pio_writes := pio_writes d + 1\<rparr> in
      if port = SERIAL_PORT then d1\<lparr>serial_out := serial_out d1 @ data\<rparr>
      else if port = BENCH_PORT then d1
      else d1\<lparr>unhandled := unhandled d1 + 1\<rparr>)"

definition pio_read :: "Devices \<Rightarrow> u16 \<Rightarrow> u8 list \<Rightarrow> Devices \<times> u8 list" where
  "pio_read d port data =
     (let d1 = d\<lparr>pio_reads := pio_reads d + 1\<rparr>;
          d2 = d1\<lparr>unhandled := unhandled d1 + 1\<rparr>
      in (d2, replicate (length data) 0xff))"

definition mmio_write :: "Devices \<Rightarrow> u64 \<Rightarrow> u8 list \<Rightarrow> Devices" where
  "mmio_write d addr data =
     (let d1 = d\<lparr>mmio_writes := mmio_writes d + 1\<rparr> in
      if addr - MMIO_BASE = 0 \<and> data \<noteq> [] then d1\<lparr>latch := data ! 0\<rparr>
      else d1\<lparr>unhandled := unhandled d1 + 1\<rparr>)"

definition mmio_read :: "Devices \<Rightarrow> u64 \<Rightarrow> u8 list \<Rightarrow> Devices \<times> u8 list" where
  "mmio_read d addr data =
     (let d1 = d\<lparr>mmio_reads := mmio_reads d + 1\<rparr> in
      if addr - MMIO_BASE = 0 \<and> data \<noteq> [] then
        (d1, (replicate (length data) 0)[0 := latch d1])
      else (d1\<lparr>unhandled := unhandled d1 + 1\<rparr>, replicate (length data) 0xff))"

definition owns_mmio :: "u64 \<Rightarrow> bool" where
  "owns_mmio addr \<longleftrightarrow> MMIO_BASE \<le> addr \<and> addr < MMIO_BASE + MMIO_LEN"

section \<open>The window\<close>

lemma owns_mmio_iff: "owns_mmio addr \<longleftrightarrow> 0x8000 \<le> unat addr \<and> unat addr < 0x9000"
  by (simp add: owns_mmio_def device_consts word_le_nat_alt word_less_nat_alt)

lemma mmio_offset_no_wrap: "owns_mmio addr \<Longrightarrow> unat (addr - MMIO_BASE) = unat addr - 0x8000"
  by (simp add: owns_mmio_def MMIO_BASE_def unat_sub)

section \<open>What an access returns and counts\<close>

lemma mmio_read_length: "length (snd (mmio_read d addr data)) = length data"
  by (simp add: mmio_read_def Let_def)

lemma latch_round_trip:
  assumes "wdata \<noteq> []" "rdata \<noteq> []"
  shows "snd (mmio_read (mmio_write d MMIO_BASE wdata) MMIO_BASE rdata) =
      wdata ! 0 # replicate (length rdata - 1) 0"
    "unhandled (fst (mmio_read (mmio_write d MMIO_BASE wdata) MMIO_BASE rdata)) = unhandled d"
proof -
  have "(replicate (length rdata) 0)[0 := wdata ! 0] = wdata ! 0 # replicate (length rdata - 1) (0 :: u8)"
    using assms(2) by (cases rdata) simp_all
  then show "snd (mmio_read (mmio_write d MMIO_BASE wdata) MMIO_BASE rdata) =
      wdata ! 0 # replicate (length rdata - 1) 0"
    using assms by (simp add: mmio_read_def mmio_write_def Let_def)
  show "unhandled (fst (mmio_read (mmio_write d MMIO_BASE wdata) MMIO_BASE rdata)) = unhandled d"
    using assms by (simp add: mmio_read_def mmio_write_def Let_def)
qed

end
