(* ===== verification/KvmGuest.thy ===== *)
theory KvmGuest
  imports KvmDevice
begin

text \<open>
  The guest programs of \<^verbatim>\<open>rung-01-kvm/toy-kvm-raw/src/guest.rs\<close>, byte for byte, and the machine
  that runs them: the eight real-mode instructions the programs consist of, as the tables in the
  source list them. \<open>guest_step\<close> executes one instruction, which either continues or leaves the
  guest with an exit; an access exits because its address is not backed by RAM, and a load that
  exits is completed when the guest is resumed. Any other opcode is outside the model (\<open>None\<close>).
\<close>

unbundle bit_operations_syntax

section \<open>The programs\<close>

definition LOAD_ADDR :: u64 where "LOAD_ADDR = 0x1000"

definition DEMO_PROGRAM :: "u8 list" where
  "DEMO_PROGRAM =
     [0xBA, 0xF8, 0x03,
      0xB0, 0x4B,
      0xEE,
      0xB0, 0x56,
      0xEE,
      0xB0, 0x4D,
      0xEE,
      0xB0, 0x0A,
      0xEE,
      0xB0, 0x42,
      0xA2, 0x00, 0x80,
      0xA0, 0x00, 0x80,
      0xEE,
      0xB0, 0x0A,
      0xEE,
      0xF4]"

definition DEMO_EXPECTED_OUTPUT :: "u8 list" where
  "DEMO_EXPECTED_OUTPUT = [0x4B, 0x56, 0x4D, 0x0A, 0x42, 0x0A]"

definition BENCH_COUNT_OFFSET :: nat where "BENCH_COUNT_OFFSET = 4"

definition BENCH_TEMPLATE :: "u8 list" where
  "BENCH_TEMPLATE =
     [0xBA, 0x80, 0x00,
      0xB9, 0x00, 0x00,
      0xEE,
      0xE2, 0xFD,
      0xF4]"

definition BENCH_MAX_PER_ROUND :: u32 where "BENCH_MAX_PER_ROUND = 65535"

definition bench_program :: "u32 \<Rightarrow> u8 list option" where
  "bench_program count =
     (if 0 < count \<and> count \<le> BENCH_MAX_PER_ROUND then
        let prog = BENCH_TEMPLATE;
            c = ucast count :: u16;
            prog1 = prog[BENCH_COUNT_OFFSET := ucast (c AND 0xff)]
        in Some (prog1[BENCH_COUNT_OFFSET + 1 := ucast (drop_bit 8 c)])
      else None)"

section \<open>The machine\<close>

text \<open>
  The registers the programs use, the RAM, and whether a load waits for its value. Offsets are
  guest physical addresses, because every segment base is 0.
\<close>

record Guest =
  g_al :: u8
  g_dx :: u16
  g_cx :: u16
  g_rip :: nat
  g_ram :: "u8 list"
  g_loading :: bool

datatype GuestExit =
    ExitIoOut u16 u8
  | ExitMmioWrite nat u8
  | ExitMmioRead nat
  | ExitHlt

definition imm16 :: "Guest \<Rightarrow> u16" where
  "imm16 g = of_le_bytes (window (g_rip g + 1) 2 (g_ram g))"

definition guest_step :: "Guest \<Rightarrow> (GuestExit option \<times> Guest) option" where
  "guest_step g =
     (if length (g_ram g) \<le> g_rip g + 2 then None
      else let op = g_ram g ! g_rip g; a = unat (imm16 g) in
      if op = 0xBA then Some (None, g\<lparr>g_dx := imm16 g, g_rip := g_rip g + 3\<rparr>)
      else if op = 0xB9 then Some (None, g\<lparr>g_cx := imm16 g, g_rip := g_rip g + 3\<rparr>)
      else if op = 0xB0 then Some (None, g\<lparr>g_al := g_ram g ! (g_rip g + 1), g_rip := g_rip g + 2\<rparr>)
      else if op = 0xEE then Some (Some (ExitIoOut (g_dx g) (g_al g)), g\<lparr>g_rip := g_rip g + 1\<rparr>)
      else if op = 0xA2 then
        (if a < length (g_ram g) then Some (None, g\<lparr>g_ram := (g_ram g)[a := g_al g], g_rip := g_rip g + 3\<rparr>)
         else Some (Some (ExitMmioWrite a (g_al g)), g\<lparr>g_rip := g_rip g + 3\<rparr>))
      else if op = 0xA0 then
        (if a < length (g_ram g) then Some (None, g\<lparr>g_al := g_ram g ! a, g_rip := g_rip g + 3\<rparr>)
         else Some (Some (ExitMmioRead a), g\<lparr>g_rip := g_rip g + 3, g_loading := True\<rparr>))
      else if op = 0xE2 then
        (let cx = g_cx g - 1;
             rel = sint (g_ram g ! (g_rip g + 1));
             g1 = g\<lparr>g_cx := cx\<rparr>
         in Some (None, g1\<lparr>g_rip := (if cx \<noteq> 0 then nat (int (g_rip g) + 2 + rel) else g_rip g + 2)\<rparr>))
      else if op = 0xF4 then Some (Some ExitHlt, g\<lparr>g_rip := g_rip g + 1\<rparr>)
      else None)"

text \<open>Entering the guest: instructions up to the first one that exits.\<close>

inductive guest_exit :: "Guest \<Rightarrow> GuestExit \<Rightarrow> Guest \<Rightarrow> bool" where
  now: "guest_step g = Some (Some e, g') \<Longrightarrow> guest_exit g e g'"
| later: "guest_step g = Some (None, g1) \<Longrightarrow> guest_exit g1 e g' \<Longrightarrow> guest_exit g e g'"

text \<open>A pending load takes its value when the guest is resumed.\<close>

definition complete_load :: "u8 \<Rightarrow> Guest \<Rightarrow> Guest" where
  "complete_load v g = (if g_loading g then g\<lparr>g_al := v, g_loading := False\<rparr> else g)"

lemma guest_exit_step:
  "guest_step g = Some (r, g1) \<Longrightarrow>
    guest_exit g e g' \<longleftrightarrow> (case r of None \<Rightarrow> guest_exit g1 e g' | Some x \<Rightarrow> e = x \<and> g' = g1)"
  by (subst guest_exit.simps) (auto split: option.split)

section \<open>Patching the benchmark\<close>

lemma bench_program_eq:
  assumes "0 < count" "count \<le> BENCH_MAX_PER_ROUND"
  shows "bench_program count =
    Some ([0xBA, 0x80, 0x00, 0xB9] @ le_bytes 2 (ucast count :: u16) @ [0xEE, 0xE2, 0xFD, 0xF4])"
proof -
  have "(ucast ((ucast count :: u16) AND 0xff) :: u8) = ucast (ucast count :: u16)"
    by (rule bit_word_eqI) (simp add: bit_simps, auto simp: bit_simps less_Suc_eq numeral_eq_Suc)
  then show ?thesis
    using assms by (simp add: bench_program_def BENCH_TEMPLATE_def BENCH_COUNT_OFFSET_def Let_def
        numeral_2_eq_2)
qed

end
