(* ===== verification/KvmVmm.thy ===== *)
theory KvmVmm
  imports KvmSys KvmGuest
begin

text \<open>
  The VMM of \<^verbatim>\<open>rung-01-kvm/toy-kvm-raw/src/vmm.rs\<close>: bringing a machine up, loading bytes into it,
  putting the vCPU into flat real mode, and the run loop that dispatches on exits.

  The operating system is a parameter. \<open>os\<close> answers the system calls of the bring-up: an error number or
  the result with the structure the call fills. \<open>enter\<close> is \<^verbatim>\<open>ioctl(KVM_RUN)\<close>: it takes the guest's
  RAM and the shared page, and returns its result, the elapsed nanoseconds, and the RAM and the
  page as the guest and KVM left them. Tracing prints
  and reads registers only; releasing on drop is in \<open>KvmTeardown\<close>. The loop need not end,
  so \<open>run\<close> is a partial function.
\<close>

unbundle bit_operations_syntax

section \<open>System calls\<close>

type_synonym fd = int

definition TSS_ADDR :: u64 where "TSS_ADDR = 0xfffbd000"
definition EXPECTED_API_VERSION :: int where "EXPECTED_API_VERSION = 12"
definition EINTR :: int where "EINTR = 4"

datatype Call =
    OpenKvm
  | IoctlVal fd u64 u64
  | IoctlRegion fd u64 kvm_userspace_memory_region
  | IoctlGetSregs fd u64
  | IoctlSetSregs fd u64 kvm_sregs
  | IoctlGetRegs fd u64
  | IoctlSetRegs fd u64 kvm_regs
  | MmapAnonymous nat
  | MmapShared fd nat

record Ret =
  ret_val :: int
  ret_sregs :: kvm_sregs
  ret_regs :: kvm_regs

type_synonym 'k os = "'k \<Rightarrow> Call \<Rightarrow> (int + Ret) \<times> 'k"

datatype VmmError =
    OsError int
  | UnexpectedApiVersion int
  | UserMemoryUnsupported
  | ImplausibleRunSize int
  | LoadExceedsRam nat u64 nat
  | IoPayloadOutOfBounds
  | BadIoDirection u8
  | UndevicedAddress u64
  | UnhandledExit string u32

section \<open>Bringing the machine up\<close>

record Vm =
  vm_page :: "u8 list"
  vm_mem :: "u8 list"
  vm_vcpu :: fd
  vm_vm :: fd
  vm_kvm :: fd
  vm_mem_size :: nat

definition vm_new :: "'k os \<Rightarrow> 'k \<Rightarrow> nat \<Rightarrow> (VmmError, Vm) outcome \<times> 'k" where
  "vm_new os k0 mem_size =
     (if \<not> (mem_size mod 4096 = 0 \<and> 0 < mem_size) then (Panic, k0)
      else case os k0 OpenKvm of (Inl e, k) \<Rightarrow> (Err (OsError e), k) | (Inr r, k1) \<Rightarrow>
      let kvm = ret_val r in
      (case os k1 (IoctlVal kvm KVM_GET_API_VERSION 0) of
        (Inl e, k) \<Rightarrow> (Err (OsError e), k) | (Inr version, k2) \<Rightarrow>
      if ret_val version \<noteq> EXPECTED_API_VERSION then (Err (UnexpectedApiVersion (ret_val version)), k2)
      else case os k2 (IoctlVal kvm KVM_CHECK_EXTENSION KVM_CAP_USER_MEMORY) of
        (Inl e, k) \<Rightarrow> (Err (OsError e), k) | (Inr has_user_mem, k3) \<Rightarrow>
      if ret_val has_user_mem = 0 then (Err UserMemoryUnsupported, k3)
      else case os k3 (IoctlVal kvm KVM_CREATE_VM 0) of
        (Inl e, k) \<Rightarrow> (Err (OsError e), k) | (Inr vm_raw, k4) \<Rightarrow>
      let vm = ret_val vm_raw;
          (_, k5) = os k4 (IoctlVal vm KVM_SET_TSS_ADDR TSS_ADDR) in
      (case os k5 (MmapAnonymous mem_size) of
        (Inl e, k) \<Rightarrow> (Err (OsError e), k) | (Inr mem, k6) \<Rightarrow>
      let region = \<lparr>mr_slot = 0, mr_flags = 0, mr_guest_phys_addr = 0,
                    mr_memory_size = word_of_nat mem_size, mr_userspace_addr = word_of_int (ret_val mem)\<rparr> in
      (case os k6 (IoctlRegion vm KVM_SET_USER_MEMORY_REGION region) of
        (Inl e, k) \<Rightarrow> (Err (OsError e), k) | (Inr _, k7) \<Rightarrow>
      (case os k7 (IoctlVal vm KVM_CREATE_VCPU 0) of
        (Inl e, k) \<Rightarrow> (Err (OsError e), k) | (Inr vcpu_raw, k8) \<Rightarrow>
      let vcpu = ret_val vcpu_raw in
      (case os k8 (IoctlVal kvm KVM_GET_VCPU_MMAP_SIZE 0) of
        (Inl e, k) \<Rightarrow> (Err (OsError e), k) | (Inr run_size, k9) \<Rightarrow>
      if nat (ret_val run_size) < struct_size kvm_run_header_fields then
        (Err (ImplausibleRunSize (ret_val run_size)), k9)
      else case os k9 (MmapShared vcpu (nat (ret_val run_size))) of
        (Inl e, k) \<Rightarrow> (Err (OsError e), k) | (Inr _, k10) \<Rightarrow>
      (Ok \<lparr>vm_page = replicate (nat (ret_val run_size)) 0, vm_mem = replicate mem_size 0,
           vm_vcpu = vcpu, vm_vm = vm, vm_kvm = kvm, vm_mem_size = mem_size\<rparr>, k10)))))))"

definition vm_regs :: "'k os \<Rightarrow> 'k \<Rightarrow> Vm \<Rightarrow> (VmmError + kvm_regs) \<times> 'k" where
  "vm_regs os k vm =
     (case os k (IoctlGetRegs (vm_vcpu vm) KVM_GET_REGS) of
        (Inl e, k') \<Rightarrow> (Inl (OsError e), k')
      | (Inr r, k') \<Rightarrow> (Inr (ret_regs r), k'))"

section \<open>Loading bytes\<close>

text \<open>
  \<^verbatim>\<open>gpa as usize + bytes.len()\<close> wraps in the release profile. \<open>OutOfMapping\<close> is the copy through a raw
  pointer with a destination that is not inside the mapping.
\<close>

datatype LoadResult = Loaded Vm | LoadRefused VmmError | OutOfMapping

definition vm_load :: "Vm \<Rightarrow> u64 \<Rightarrow> u8 list \<Rightarrow> LoadResult" where
  "vm_load vm gpa bytes =
     (let end_at = unat (gpa + word_of_nat (length bytes)) in
      if vm_mem_size vm < end_at then LoadRefused (LoadExceedsRam (length bytes) gpa (vm_mem_size vm))
      else if length (vm_mem vm) < unat gpa + length bytes then OutOfMapping
      else Loaded (vm\<lparr>vm_mem := blit (unat gpa) bytes (vm_mem vm)\<rparr>))"

section \<open>Flat real mode\<close>

definition flat :: "kvm_segment \<Rightarrow> kvm_segment" where
  "flat seg = seg\<lparr>seg_base := 0, seg_selector := 0\<rparr>"

definition flatten_segments :: "kvm_sregs \<Rightarrow> kvm_sregs" where
  "flatten_segments sr =
     sr\<lparr>sr_cs := flat (sr_cs sr), sr_ds := flat (sr_ds sr), sr_es := flat (sr_es sr),
        sr_fs := flat (sr_fs sr), sr_gs := flat (sr_gs sr), sr_ss := flat (sr_ss sr)\<rparr>"

definition entry_regs :: "u64 \<Rightarrow> kvm_regs" where
  "entry_regs entry = kvm_regs_default\<lparr>r_rip := entry, r_rflags := 0x2\<rparr>"

definition set_real_mode_regs :: "'k os \<Rightarrow> 'k \<Rightarrow> Vm \<Rightarrow> u64 \<Rightarrow> (VmmError + unit) \<times> 'k" where
  "set_real_mode_regs os k0 vm entry =
     (case os k0 (IoctlGetSregs (vm_vcpu vm) KVM_GET_SREGS) of
        (Inl e, k) \<Rightarrow> (Inl (OsError e), k)
      | (Inr r, k1) \<Rightarrow>
        (case os k1 (IoctlSetSregs (vm_vcpu vm) KVM_SET_SREGS (flatten_segments (ret_sregs r))) of
           (Inl e, k) \<Rightarrow> (Inl (OsError e), k)
         | (Inr _, k2) \<Rightarrow>
           (case os k2 (IoctlSetRegs (vm_vcpu vm) KVM_SET_REGS (entry_regs entry)) of
              (Inl e, k) \<Rightarrow> (Inl (OsError e), k)
            | (Inr _, k3) \<Rightarrow> (Inr (), k3))))"

section \<open>Dispatching one exit\<close>

record RunSummary =
  rs_exits :: u64
  rs_io_exits :: u64
  rs_mmio_exits :: u64
  rs_interrupted :: u64

definition summary_default :: RunSummary where
  "summary_default = \<lparr>rs_exits = 0, rs_io_exits = 0, rs_mmio_exits = 0, rs_interrupted = 0\<rparr>"

datatype Next = Reenter | Halted | Failed VmmError

definition dispatch_io :: "u8 list \<Rightarrow> Devices \<Rightarrow> Next \<times> Devices \<times> u8 list" where
  "dispatch_io page d =
     (let io = read_io page;
          len = unat (io_size io) * unat (io_count io);
          off = unat (io_data_offset io)
      in if length page < min (off + len) (2 ^ 64 - 1) then (Failed IoPayloadOutOfBounds, d, page)
         else let data = window off len page in
           if io_direction io = KVM_EXIT_IO_OUT then (Reenter, pio_write d (io_port io) data, page)
           else if io_direction io = KVM_EXIT_IO_IN then
             (let (d', data') = pio_read d (io_port io) data in (Reenter, d', blit off data' page))
           else (Failed (BadIoDirection (io_direction io)), d, page))"

definition dispatch_mmio :: "u8 list \<Rightarrow> Devices \<Rightarrow> Next \<times> Devices \<times> u8 list" where
  "dispatch_mmio page d =
     (let m = read_mmio page;
          len = min (unat (mmio_len m)) 8
      in if \<not> owns_mmio (mmio_phys_addr m) then (Failed (UndevicedAddress (mmio_phys_addr m)), d, page)
         else if mmio_is_write m \<noteq> 0 then
           (Reenter, mmio_write d (mmio_phys_addr m) (take len (mmio_data m)), page)
         else
           let buf0 = replicate 8 0;
               (d', part) = mmio_read d (mmio_phys_addr m) (take len buf0);
               buf1 = part @ drop len buf0
           in (Reenter, d', write_mmio_data page buf1))"

definition dispatch :: "u8 list \<Rightarrow> Devices \<Rightarrow> RunSummary \<Rightarrow> Next \<times> Devices \<times> RunSummary \<times> u8 list" where
  "dispatch page d s =
     (let s1 = s\<lparr>rs_exits := rs_exits s + 1\<rparr>;
          reason = hdr_exit_reason (read_header page)
      in if reason = KVM_EXIT_IO then
           (let s2 = s1\<lparr>rs_io_exits := rs_io_exits s1 + 1\<rparr>;
                (nxt, d', page') = dispatch_io page d in (nxt, d', s2, page'))
         else if reason = KVM_EXIT_MMIO then
           (let s2 = s1\<lparr>rs_mmio_exits := rs_mmio_exits s1 + 1\<rparr>;
                (nxt, d', page') = dispatch_mmio page d in (nxt, d', s2, page'))
         else if reason = KVM_EXIT_HLT then (Halted, d, s1, page)
         else if reason = KVM_EXIT_INTR then
           (Reenter, d, s1\<lparr>rs_interrupted := rs_interrupted s1 + 1\<rparr>, page)
         else (Failed (UnhandledExit (exit_reason_name reason) reason), d, s1, page))"

section \<open>The run loop\<close>

type_synonym 'k enter =
  "'k \<Rightarrow> fd \<Rightarrow> u8 list \<Rightarrow> u8 list \<Rightarrow> (int + int) \<times> u64 \<times> 'k \<times> u8 list \<times> u8 list"

definition push_timing :: "u64 \<Rightarrow> u64 list option \<Rightarrow> u64 list option" where
  "push_timing t ts = (case ts of None \<Rightarrow> None | Some v \<Rightarrow> Some (v @ [t]))"

partial_function (option) run ::
  "'k enter \<Rightarrow> 'k \<Rightarrow> Vm \<Rightarrow> Devices \<Rightarrow> RunSummary \<Rightarrow> u64 list option
    \<Rightarrow> ((VmmError + RunSummary) \<times> 'k \<times> Vm \<times> Devices \<times> u64 list option) option" where
  "run enter k vm d s ts =
     (case enter k (vm_vcpu vm) (vm_mem vm) (vm_page vm) of
        (Inl e, t, k', mem, page) \<Rightarrow>
          let vm' = vm\<lparr>vm_mem := mem, vm_page := page\<rparr> in
          if e = EINTR then
            run enter k' vm' d (s\<lparr>rs_interrupted := rs_interrupted s + 1\<rparr>) (push_timing t ts)
          else Some (Inl (OsError e), k', vm', d, push_timing t ts)
      | (Inr rc, t, k', mem, page) \<Rightarrow>
          (case dispatch page d s of
             (Reenter, d', s', page') \<Rightarrow>
               run enter k' (vm\<lparr>vm_mem := mem, vm_page := page'\<rparr>) d' s' (push_timing t ts)
           | (Halted, d', s', page') \<Rightarrow>
               Some (Inr s', k', vm\<lparr>vm_mem := mem, vm_page := page'\<rparr>, d', push_timing t ts)
           | (Failed e, d', s', page') \<Rightarrow>
               Some (Inl e, k', vm\<lparr>vm_mem := mem, vm_page := page'\<rparr>, d', push_timing t ts)))"

definition vm_run :: "'k enter \<Rightarrow> 'k \<Rightarrow> Vm \<Rightarrow> Devices \<Rightarrow> u64 list option
    \<Rightarrow> ((VmmError + RunSummary) \<times> 'k \<times> Vm \<times> Devices \<times> u64 list option) option" where
  "vm_run enter k vm d ts = run enter k vm d summary_default ts"

end
