(* ===== verification/KvmRun.thy ===== *)
theory KvmRun
  imports KvmVmm
begin

text \<open>
  The run loop against its specification. \<open>vm_runs\<close> is a guest attached directly to the devices: it
  runs to an exit, the device answers, the guest goes on, until it halts. \<open>kvm_faithful\<close> states
  what KVM documents of \<^verbatim>\<open>KVM_RUN\<close>: it resumes the guest, completes a pending load from the page,
  runs to the next exit and describes that exit in the page. Under that hypothesis the loop of
  \<^verbatim>\<open>Vm::run\<close> is the specification (\<open>run_refines\<close>), and the two programs of \<^verbatim>\<open>guest.rs\<close> do what
  \<^verbatim>\<open>main.rs\<close> expects of them.
\<close>

unbundle bit_operations_syntax

section \<open>A guest attached to the devices\<close>

definition answer :: "GuestExit \<Rightarrow> Devices \<Rightarrow> (Devices \<times> u8) option" where
  "answer e d =
     (case e of
        ExitIoOut port v \<Rightarrow> Some (pio_write d port [v], 0)
      | ExitMmioWrite a v \<Rightarrow> (if owns_mmio (word_of_nat a) then Some (mmio_write d (word_of_nat a) [v], 0) else None)
      | ExitMmioRead a \<Rightarrow>
          (if owns_mmio (word_of_nat a) then
             (let (d', b) = mmio_read d (word_of_nat a) [0] in Some (d', b ! 0))
           else None)
      | ExitHlt \<Rightarrow> None)"

definition is_io :: "GuestExit \<Rightarrow> nat" where
  "is_io e = (case e of ExitIoOut port v \<Rightarrow> 1 | _ \<Rightarrow> 0)"

inductive vm_runs :: "Guest \<Rightarrow> Devices \<Rightarrow> nat \<Rightarrow> nat \<Rightarrow> Guest \<Rightarrow> Devices \<Rightarrow> bool" where
  halt: "guest_exit g ExitHlt g' \<Longrightarrow> vm_runs g d 0 0 g' d"
| exit: "guest_exit g e g1 \<Longrightarrow> answer e d = Some (d1, v) \<Longrightarrow>
    vm_runs (complete_load v g1) d1 ios mmios g' d' \<Longrightarrow>
    vm_runs g d (is_io e + ios) (1 - is_io e + mmios) g' d'"

section \<open>What KVM documents\<close>

definition describes :: "u8 list \<Rightarrow> GuestExit \<Rightarrow> bool" where
  "describes page e \<longleftrightarrow>
     (case e of
        ExitIoOut port v \<Rightarrow>
          hdr_exit_reason (read_header page) = KVM_EXIT_IO \<and>
          io_direction (read_io page) = KVM_EXIT_IO_OUT \<and> io_size (read_io page) = 1 \<and>
          io_count (read_io page) = 1 \<and> io_port (read_io page) = port \<and>
          unat (io_data_offset (read_io page)) < length page \<and>
          page ! unat (io_data_offset (read_io page)) = v
      | ExitMmioWrite a v \<Rightarrow>
          hdr_exit_reason (read_header page) = KVM_EXIT_MMIO \<and>
          mmio_phys_addr (read_mmio page) = word_of_nat a \<and> mmio_len (read_mmio page) = 1 \<and>
          mmio_is_write (read_mmio page) \<noteq> 0 \<and> mmio_data (read_mmio page) ! 0 = v
      | ExitMmioRead a \<Rightarrow>
          hdr_exit_reason (read_header page) = KVM_EXIT_MMIO \<and>
          mmio_phys_addr (read_mmio page) = word_of_nat a \<and> mmio_len (read_mmio page) = 1 \<and>
          mmio_is_write (read_mmio page) = 0
      | ExitHlt \<Rightarrow> hdr_exit_reason (read_header page) = KVM_EXIT_HLT)"

text \<open>The byte of the page that completes a one-byte load: the first of the \<^verbatim>\<open>data\<close> field.\<close>

definition load_value :: "u8 list \<Rightarrow> u8" where
  "load_value page = page ! (KVM_RUN_UNION_OFFSET + 8)"

definition kvm_faithful :: "'k enter \<Rightarrow> fd \<Rightarrow> ('k \<Rightarrow> Guest \<Rightarrow> bool) \<Rightarrow> bool" where
  "kvm_faithful enter vcpu R \<longleftrightarrow>
     (\<forall>k g page e g'. R k g \<longrightarrow> 64 \<le> length page \<longrightarrow> length page < 2 ^ 63 \<longrightarrow>
        guest_exit (complete_load (load_value page) g) e g' \<longrightarrow>
        (\<exists>rc t k' page'. enter k vcpu (g_ram g) page = (Inr rc, t, k', g_ram g', page') \<and> R k' g' \<and>
           length page' = length page \<and> describes page' e))"

text \<open>
  A signal can interrupt an entry before the guest exits: \<^verbatim>\<open>KVM_RUN\<close> fails with EINTR, or returns with the
  reason \<^verbatim>\<open>KVM_EXIT_INTR\<close>. \<open>reaches\<close> is a sequence of entries of which the last one returns an exit, after
  \<open>i\<close> and \<open>j\<close> interruptions of the two kinds; \<open>kvm_documented\<close> is \<open>kvm_faithful\<close> with finitely many of them
  before each exit, where \<open>ints\<close> says whether there are any.
\<close>

inductive reaches :: "bool \<Rightarrow> 'k enter \<Rightarrow> fd \<Rightarrow> 'k \<Rightarrow> u8 list \<Rightarrow> u8 list \<Rightarrow> nat \<Rightarrow> nat \<Rightarrow> 'k \<Rightarrow> u8 list \<Rightarrow> u8 list \<Rightarrow> bool"
  for ints :: bool and enter :: "'k enter" and vcpu :: fd where
  exited: "enter k vcpu ram page = (Inr rc, t, k', ram', page') \<Longrightarrow> reaches ints enter vcpu k ram page 0 0 k' ram' page'"
| eintr: "ints \<Longrightarrow> enter k vcpu ram page = (Inl EINTR, t, k1, ram1, page1) \<Longrightarrow>
    reaches ints enter vcpu k1 ram1 page1 i j k' ram' page' \<Longrightarrow>
    reaches ints enter vcpu k ram page (Suc i) j k' ram' page'"
| exit_intr: "ints \<Longrightarrow> enter k vcpu ram page = (Inr rc, t, k1, ram1, page1) \<Longrightarrow>
    hdr_exit_reason (read_header page1) = KVM_EXIT_INTR \<Longrightarrow>
    reaches ints enter vcpu k1 ram1 page1 i j k' ram' page' \<Longrightarrow>
    reaches ints enter vcpu k ram page i (Suc j) k' ram' page'"

definition kvm_documented :: "bool \<Rightarrow> 'k enter \<Rightarrow> fd \<Rightarrow> ('k \<Rightarrow> Guest \<Rightarrow> bool) \<Rightarrow> bool" where
  "kvm_documented ints enter vcpu R \<longleftrightarrow>
     (\<forall>k g page e g'. R k g \<longrightarrow> 64 \<le> length page \<longrightarrow> length page < 2 ^ 63 \<longrightarrow>
        guest_exit (complete_load (load_value page) g) e g' \<longrightarrow>
        (\<exists>i j k' page'. reaches ints enter vcpu k (g_ram g) page i j k' (g_ram g') page' \<and> R k' g' \<and>
           length page' = length page \<and> describes page' e))"

lemma kvm_faithful_documented: "kvm_faithful enter vcpu R \<Longrightarrow> kvm_documented ints enter vcpu R"
  unfolding kvm_faithful_def kvm_documented_def by (meson reaches.exited)

section \<open>The loop refines the specification\<close>

lemma page_fields:
  "64 \<le> length page \<Longrightarrow> length (mmio_data (read_mmio page)) = 8"
  "page_field page KVM_RUN_UNION_OFFSET kvm_run_mmio_fields 1 = window 40 8 page"
  by (simp_all add: read_mmio_def page_field_def layout_offsets Let_def KVM_RUN_UNION_OFFSET_def
      kvm_run_mmio_fields_def c_array_def round_up_def length_window)

lemma load_value_write:
  assumes "64 \<le> length page" "length buf = 8"
  shows "load_value (write_mmio_data page buf) = buf ! 0" "length (write_mmio_data page buf) = length page"
  using assms
  by (simp_all add: load_value_def write_mmio_data_def layout_offsets KVM_RUN_UNION_OFFSET_def
      nth_blit length_blit)

lemma mmio_read_tail:
  "data \<noteq> [] \<Longrightarrow> snd (mmio_read d a data) ! 0 = snd (mmio_read d a [0]) ! 0 \<and>
    fst (mmio_read d a data) = fst (mmio_read d a [0])"
  by (cases data) (auto simp: mmio_read_def Let_def)

lemma not_loading: "\<not> g_loading g \<Longrightarrow> complete_load v g = g"
  by (simp add: complete_load_def)

lemma guest_step_loading:
  "guest_step g = Some (r, g') \<Longrightarrow> g_loading g' \<longleftrightarrow> (case r of Some (ExitMmioRead a) \<Rightarrow> True | _ \<Rightarrow> g_loading g)"
  by (auto simp: guest_step_def Let_def split: if_splits option.splits)

lemma guest_exit_loading:
  "guest_exit g e g' \<Longrightarrow> \<not> g_loading g \<Longrightarrow> g_loading g' \<longleftrightarrow> (\<exists>a. e = ExitMmioRead a)"
  by (induction rule: guest_exit.induct)
     (auto dest!: guest_step_loading split: option.splits GuestExit.splits)

lemma complete_load_idle: "\<not> g_loading (complete_load v g)"
  by (simp add: complete_load_def)

definition count_exits :: "RunSummary \<Rightarrow> nat \<Rightarrow> nat \<Rightarrow> RunSummary" where
  "count_exits s ios mmios =
     s\<lparr>rs_exits := rs_exits s + of_nat (ios + mmios), rs_io_exits := rs_io_exits s + of_nat ios,
       rs_mmio_exits := rs_mmio_exits s + of_nat mmios\<rparr>"

definition count_halt :: "RunSummary \<Rightarrow> RunSummary" where
  "count_halt s = s\<lparr>rs_exits := rs_exits s + 1\<rparr>"

lemma count_exits_add: "count_exits (count_exits s i m) i' m' = count_exits s (i + i') (m + m')"
  by (simp add: count_exits_def add_ac)

lemma count_exits_0: "count_exits s 0 0 = s"
  by (simp add: count_exits_def)

definition count_interrupts :: "RunSummary \<Rightarrow> nat \<Rightarrow> nat \<Rightarrow> RunSummary" where
  "count_interrupts s i j =
     s\<lparr>rs_exits := rs_exits s + of_nat j, rs_interrupted := rs_interrupted s + of_nat (i + j)\<rparr>"

lemma count_interrupts_0: "count_interrupts s 0 0 = s"
  by (simp add: count_interrupts_def)

lemma count_interrupts_add: "count_interrupts (count_interrupts s i j) i' j' = count_interrupts s (i + i') (j + j')"
  by (simp add: count_interrupts_def add_ac)

lemma count_exits_interrupts: "count_exits (count_interrupts s i j) a b = count_interrupts (count_exits s a b) i j"
  by (simp add: count_interrupts_def count_exits_def add_ac)

text \<open>What a recorder of timings holds after \<open>n\<close> more entries.\<close>

definition timed :: "nat \<Rightarrow> u64 list option \<Rightarrow> u64 list option \<Rightarrow> bool" where
  "timed n ts ts' \<longleftrightarrow> (\<forall>v. ts = Some v \<longrightarrow> (\<exists>u. ts' = Some (v @ u) \<and> length u = n))"

lemma timed_0: "timed 0 ts ts"
  by (simp add: timed_def)

lemma timed_push: "timed 1 ts (push_timing t ts)"
  by (simp add: timed_def push_timing_def)

lemma timed_trans: "timed m ts ts1 \<Longrightarrow> timed n ts1 ts2 \<Longrightarrow> timed (m + n) ts ts2"
  unfolding timed_def by (metis append.assoc length_append)

text \<open>The loop through the interrupted entries, up to the entry that returns the exit.\<close>

lemma run_reaches:
  assumes "reaches ints enter vcpu k ram page i j k' ram' page'" "vm_vcpu vm = vcpu" "vm_mem vm = ram" "vm_page vm = page"
  shows "\<exists>k1 m p ts1 rc t. run enter k vm d s ts =
      run enter k1 (vm\<lparr>vm_mem := m, vm_page := p\<rparr>) d (count_interrupts s i j) ts1 \<and>
    enter k1 vcpu m p = (Inr rc, t, k', ram', page') \<and> timed (i + j) ts ts1 \<and> (\<not> ints \<longrightarrow> i = 0 \<and> j = 0)"
  using assms
proof (induction arbitrary: vm s ts rule: reaches.induct)
  case (exited k ram page rc t k' ram' page')
  have vm: "vm = vm\<lparr>vm_mem := ram, vm_page := page\<rparr>" using exited.prems by simp
  show ?case
    by (intro exI [of _ k] exI [of _ ram] exI [of _ page] exI [of _ ts] exI [of _ rc] exI [of _ t])
       (simp add: vm [symmetric] exited.hyps count_interrupts_0 timed_0)
next
  case (eintr k ram page t k1 ram1 page1 i j k' ram' page')
  let ?vm = "vm\<lparr>vm_mem := ram1, vm_page := page1\<rparr>"
  let ?s = "count_interrupts s 1 0"
  have step: "run enter k vm d s ts = run enter k1 ?vm d ?s (push_timing t ts)"
    using eintr.hyps(2) eintr.prems by (simp add: run.simps [of enter k vm] count_interrupts_def)
  have vm: "vm_vcpu ?vm = vcpu" "vm_mem ?vm = ram1" "vm_page ?vm = page1" using eintr.prems(1) by simp_all
  from eintr.IH [OF vm, of ?s "push_timing t ts"]
  obtain k2 m p ts1 rc t' where ih: "run enter k1 ?vm d ?s (push_timing t ts) =
        run enter k2 (?vm\<lparr>vm_mem := m, vm_page := p\<rparr>) d (count_interrupts ?s i j) ts1"
      "enter k2 vcpu m p = (Inr rc, t', k', ram', page')" "timed (i + j) (push_timing t ts) ts1"
    by (elim exE conjE) (rule that; assumption)
  have "run enter k vm d s ts = run enter k2 (vm\<lparr>vm_mem := m, vm_page := p\<rparr>) d (count_interrupts s (Suc i) j) ts1"
    unfolding step ih(1) by (simp add: count_interrupts_add)
  moreover have "timed (Suc i + j) ts ts1" using timed_trans [OF timed_push ih(3)] by simp
  ultimately show ?case using ih(2) eintr.hyps(1) by blast
next
  case (exit_intr k ram page rc t k1 ram1 page1 i j k' ram' page')
  let ?vm = "vm\<lparr>vm_mem := ram1, vm_page := page1\<rparr>"
  let ?s = "count_interrupts s 0 1"
  have "dispatch page1 d s = (Reenter, d, ?s, page1)"
    using exit_intr.hyps(3) by (simp add: dispatch_def Let_def kvm_exits count_interrupts_def)
  then have step: "run enter k vm d s ts = run enter k1 ?vm d ?s (push_timing t ts)"
    using exit_intr.hyps(2) exit_intr.prems by (simp add: run.simps [of enter k vm])
  have vm: "vm_vcpu ?vm = vcpu" "vm_mem ?vm = ram1" "vm_page ?vm = page1" using exit_intr.prems(1) by simp_all
  from exit_intr.IH [OF vm, of ?s "push_timing t ts"]
  obtain k2 m p ts1 rc' t' where ih: "run enter k1 ?vm d ?s (push_timing t ts) =
        run enter k2 (?vm\<lparr>vm_mem := m, vm_page := p\<rparr>) d (count_interrupts ?s i j) ts1"
      "enter k2 vcpu m p = (Inr rc', t', k', ram', page')" "timed (i + j) (push_timing t ts) ts1"
    by (elim exE conjE) (rule that; assumption)
  have "run enter k vm d s ts = run enter k2 (vm\<lparr>vm_mem := m, vm_page := p\<rparr>) d (count_interrupts s i (Suc j)) ts1"
    unfolding step ih(1) by (simp add: count_interrupts_add)
  moreover have "timed (i + Suc j) ts ts1" using timed_trans [OF timed_push ih(3)] by simp
  ultimately show ?case using ih(2) exit_intr.hyps(1) by blast
qed

text \<open>One exit: the dispatch answers as the device does, and leaves the answer where KVM reads it.\<close>

lemma dispatch_describes:
  assumes "describes page e" "64 \<le> length page" "length page < 2 ^ 63" "answer e d = Some (d1, v)"
    and "g_loading g \<Longrightarrow> \<exists>a. e = ExitMmioRead a"
  shows "\<exists>page'. dispatch page d s =
      (Reenter, d1, count_exits s (is_io e) (1 - is_io e), page') \<and> length page' = length page \<and> complete_load (load_value page') g = complete_load v g"
proof (cases e)
  case (ExitIoOut port w)
  let ?off = "unat (io_data_offset (read_io page))"
  have "?off < length page" "page ! ?off = w" using assms(1) ExitIoOut by (simp_all add: describes_def)
  then have "window ?off 1 page = [w]"
    by (simp add: window_def take_Suc_conv_app_nth Cons_nth_drop_Suc [symmetric])
  then have "dispatch_io page d = (Reenter, d1, page)"
    using assms(1-4) ExitIoOut \<open>?off < length page\<close>
    by (simp add: dispatch_io_def describes_def Let_def answer_def)
  moreover have "\<not> g_loading g" using assms(5) ExitIoOut by auto
  ultimately show ?thesis
    using assms(1) ExitIoOut by (simp add: dispatch_def describes_def Let_def is_io_def not_loading count_exits_def)
next
  case (ExitMmioWrite a w)
  then have own: "owns_mmio (word_of_nat a)" and d1: "d1 = mmio_write d (word_of_nat a) [w]"
    using assms(4) by (simp_all add: answer_def split: if_splits)
  have "mmio_data (read_mmio page) \<noteq> []"
    using page_fields(1) [OF assms(2)] by auto
  then have "take 1 (mmio_data (read_mmio page)) = [w]"
    using assms(1) ExitMmioWrite by (cases "mmio_data (read_mmio page)") (simp_all add: describes_def)
  then have "dispatch_mmio page d = (Reenter, d1, page)"
    using assms(1) ExitMmioWrite own d1 by (simp add: dispatch_mmio_def describes_def Let_def)
  moreover have "\<not> g_loading g" using assms(5) ExitMmioWrite by auto
  ultimately show ?thesis
    using assms(1) ExitMmioWrite
    by (simp add: dispatch_def describes_def Let_def is_io_def not_loading count_exits_def kvm_exits)
next
  case (ExitMmioRead a)
  then have own: "owns_mmio (word_of_nat a)" and d1: "d1 = fst (mmio_read d (word_of_nat a) [0])"
      "v = snd (mmio_read d (word_of_nat a) [0]) ! 0"
    using assms(4) by (simp_all add: answer_def Let_def split: if_splits prod.splits)
  obtain w where w: "snd (mmio_read d (word_of_nat a) [0]) = [w]"
    using mmio_read_length [of d "word_of_nat a" "[0]"] by (metis length_0_conv length_Suc_conv One_nat_def list.size(3,4) add_0)
  let ?buf = "[w] @ drop 1 (replicate 8 0)"
  have "mmio_read d (word_of_nat a) [0] = (d1, [w])"
    using d1(1) w by (simp add: prod_eq_iff)
  then have "dispatch_mmio page d = (Reenter, d1, write_mmio_data page ?buf)"
    using assms(1) ExitMmioRead own by (simp add: dispatch_mmio_def describes_def Let_def)
  moreover have "load_value (write_mmio_data page ?buf) = v" "length (write_mmio_data page ?buf) = length page"
    using load_value_write [OF assms(2), of ?buf] d1(2) w by simp_all
  ultimately show ?thesis
    using assms(1) ExitMmioRead by (simp add: dispatch_def describes_def Let_def is_io_def count_exits_def kvm_exits)
next
  case ExitHlt
  then show ?thesis using assms(4) by (simp add: answer_def)
qed

lemma complete_load_ram [simp]: "g_ram (complete_load v g) = g_ram g"
  by (simp add: complete_load_def)

lemma run_refines_aux:
  assumes "vm_runs g d ios mmios g' d'" "kvm_documented ints enter vcpu R"
  shows "\<And>k g0 vm s ts. R k g0 \<Longrightarrow> vm_vcpu vm = vcpu \<Longrightarrow> vm_mem vm = g_ram g \<Longrightarrow>
      64 \<le> length (vm_page vm) \<Longrightarrow> length (vm_page vm) < 2 ^ 63 \<Longrightarrow>
      g = complete_load (load_value (vm_page vm)) g0 \<Longrightarrow>
    \<exists>i j k' page' ts'. run enter k vm d s ts =
      Some (Inr (count_halt (count_interrupts (count_exits s ios mmios) i j)), k',
        vm\<lparr>vm_mem := g_ram g', vm_page := page'\<rparr>, d', ts') \<and>
      R k' g' \<and> length page' = length (vm_page vm) \<and> timed (ios + mmios + 1 + i + j) ts ts' \<and>
      (\<not> ints \<longrightarrow> i = 0 \<and> j = 0)"
  using assms(1)
proof (induction rule: vm_runs.induct)
  case (halt g g' d)
  have ram: "vm_mem vm = g_ram g0" using halt.prems(3) complete_load_ram unfolding halt.prems(6) by simp
  have ex: "guest_exit (complete_load (load_value (vm_page vm)) g0) ExitHlt g'"
    using halt.hyps unfolding halt.prems(6) .
  obtain i j k' page' where e: "reaches ints enter vcpu k (g_ram g0) (vm_page vm) i j k' (g_ram g') page'"
      "R k' g'" "length page' = length (vm_page vm)" "describes page' ExitHlt"
    using assms(2) halt.prems(1,4,5) ex unfolding kvm_documented_def by blast
  obtain k1 m p ts1 rc t where r: "run enter k vm d s ts =
        run enter k1 (vm\<lparr>vm_mem := m, vm_page := p\<rparr>) d (count_interrupts s i j) ts1"
      "enter k1 vcpu m p = (Inr rc, t, k', g_ram g', page')" "timed (i + j) ts ts1" "\<not> ints \<longrightarrow> i = 0 \<and> j = 0"
    using run_reaches [OF e(1) halt.prems(2) ram refl, of d s ts] by blast
  have "dispatch page' d (count_interrupts s i j) = (Halted, d, count_halt (count_interrupts s i j), page')"
    using e(4) by (simp add: dispatch_def describes_def Let_def kvm_exits count_halt_def)
  then have "run enter k vm d s ts = Some (Inr (count_halt (count_interrupts s i j)), k',
      vm\<lparr>vm_mem := g_ram g', vm_page := page'\<rparr>, d, push_timing t ts1)"
    unfolding r(1) using r(2) halt.prems(2) by (simp add: run.simps [of enter k1])
  moreover have "timed (0 + 0 + 1 + i + j) ts (push_timing t ts1)"
    using timed_trans [OF r(3) timed_push] by simp
  ultimately show ?case
    unfolding count_exits_0 using e(2,3) r(4) by blast
next
  case (exit g e g1 d d1 v ios mmios g' d')
  have ram: "vm_mem vm = g_ram g0" using exit.prems(3) complete_load_ram unfolding exit.prems(6) by simp
  have ex: "guest_exit (complete_load (load_value (vm_page vm)) g0) e g1"
    using exit.hyps(1) unfolding exit.prems(6) .
  obtain i j k1 page1 where en: "reaches ints enter vcpu k (g_ram g0) (vm_page vm) i j k1 (g_ram g1) page1"
      "R k1 g1" "length page1 = length (vm_page vm)" "describes page1 e"
    using assms(2) exit.prems(1,4,5) ex unfolding kvm_documented_def by blast
  obtain k0 m p ts1 rc t where r: "run enter k vm d s ts =
        run enter k0 (vm\<lparr>vm_mem := m, vm_page := p\<rparr>) d (count_interrupts s i j) ts1"
      "enter k0 vcpu m p = (Inr rc, t, k1, g_ram g1, page1)" "timed (i + j) ts ts1" "\<not> ints \<longrightarrow> i = 0 \<and> j = 0"
    using run_reaches [OF en(1) exit.prems(2) ram refl, of d s ts] by blast
  have load: "g_loading g1 \<Longrightarrow> \<exists>a. e = ExitMmioRead a"
    using guest_exit_loading [OF ex complete_load_idle] by blast
  have sz: "64 \<le> length page1" "length page1 < 2 ^ 63" using en(3) exit.prems(4,5) by simp_all
  let ?s0 = "count_interrupts s i j"
  let ?s1 = "count_exits ?s0 (is_io e) (1 - is_io e)"
  obtain page2 where p2: "dispatch page1 d ?s0 = (Reenter, d1, ?s1, page2)"
      "length page2 = length page1" "complete_load (load_value page2) g1 = complete_load v g1"
    using dispatch_describes [where s = ?s0 and g = g1, OF en(4) sz exit.hyps(2)] load by blast
  have one: "is_io e + (1 - is_io e) = 1" by (simp add: is_io_def split: GuestExit.split)
  let ?vm1 = "vm\<lparr>vm_mem := g_ram g1, vm_page := page2\<rparr>"
  have prem: "vm_vcpu ?vm1 = vcpu" "vm_mem ?vm1 = g_ram (complete_load v g1)" "64 \<le> length (vm_page ?vm1)"
      "length (vm_page ?vm1) < 2 ^ 63" "complete_load v g1 = complete_load (load_value (vm_page ?vm1)) g1"
    using exit.prems(2) p2(2,3) sz by simp_all
  from exit.IH [OF en(2) prem, of ?s1 "push_timing t ts1"]
  obtain i' j' k' page' ts' where ih: "run enter k1 ?vm1 d1 ?s1 (push_timing t ts1) =
      Some (Inr (count_halt (count_interrupts (count_exits ?s1 ios mmios) i' j')), k',
        ?vm1\<lparr>vm_mem := g_ram g', vm_page := page'\<rparr>, d', ts')" "R k' g'" "length page' = length (vm_page ?vm1)"
      "timed (ios + mmios + 1 + i' + j') (push_timing t ts1) ts'" "\<not> ints \<longrightarrow> i' = 0 \<and> j' = 0"
    by (elim exE conjE) (rule that; assumption)
  have vm: "?vm1\<lparr>vm_mem := g_ram g', vm_page := page'\<rparr> = vm\<lparr>vm_mem := g_ram g', vm_page := page'\<rparr>"
    by simp
  have "run enter k vm d s ts = run enter k1 ?vm1 d1 ?s1 (push_timing t ts1)"
    unfolding r(1) using r(2) p2(1) exit.prems(2) by (subst run.simps) simp
  from this [unfolded ih(1)] have "run enter k vm d s ts =
      Some (Inr (count_halt (count_interrupts (count_exits s (is_io e + ios) (1 - is_io e + mmios)) (i + i') (j + j'))), k',
        vm\<lparr>vm_mem := g_ram g', vm_page := page'\<rparr>, d', ts')"
    by (simp only: vm count_exits_add count_exits_interrupts count_interrupts_add)
  moreover have "timed (is_io e + ios + (1 - is_io e + mmios) + 1 + (i + i') + (j + j')) ts ts'"
  proof -
    have sum: "i + j + 1 + (ios + mmios + 1 + i' + j') = is_io e + ios + (1 - is_io e + mmios) + 1 + (i + i') + (j + j')"
      using one by simp
    show ?thesis using timed_trans [OF timed_trans [OF r(3) timed_push] ih(4)] unfolding sum .
  qed
  moreover have "length page' = length (vm_page vm)" using ih(3) p2(2) en(3) by simp
  ultimately show ?case using ih(2,5) r(4) by blast
qed

text \<open>The refinement for a machine at its reset state, from \<^verbatim>\<open>Vm::run\<close>'s empty summary.\<close>

lemma run_refines_interrupted:
  assumes "kvm_documented ints enter (vm_vcpu vm) R" "R k g" "\<not> g_loading g" "vm_mem vm = g_ram g"
    and "64 \<le> length (vm_page vm)" "length (vm_page vm) < 2 ^ 63" "vm_runs g d ios mmios g' d'"
  shows "\<exists>i j k' page' ts'. vm_run enter k vm d ts =
      Some (Inr \<lparr>rs_exits = of_nat (ios + mmios + 1 + j), rs_io_exits = of_nat ios,
          rs_mmio_exits = of_nat mmios, rs_interrupted = of_nat (i + j)\<rparr>,
        k', vm\<lparr>vm_mem := g_ram g', vm_page := page'\<rparr>, d', ts') \<and> R k' g' \<and>
      length page' = length (vm_page vm) \<and> timed (ios + mmios + 1 + i + j) ts ts' \<and> (\<not> ints \<longrightarrow> i = 0 \<and> j = 0)"
proof -
  have "count_halt (count_interrupts (count_exits summary_default ios mmios) i j) =
      \<lparr>rs_exits = of_nat (ios + mmios + 1 + j), rs_io_exits = of_nat ios, rs_mmio_exits = of_nat mmios,
       rs_interrupted = of_nat (i + j)\<rparr>" for i j
    by (simp add: count_halt_def count_exits_def count_interrupts_def summary_default_def)
  moreover have "g = complete_load (load_value (vm_page vm)) g"
    using assms(3) by (simp add: not_loading)
  ultimately show ?thesis
    using run_refines_aux [OF assms(7,1,2) refl assms(4-6), of summary_default ts]
    unfolding vm_run_def by simp
qed

lemma run_refines:
  assumes "kvm_faithful enter (vm_vcpu vm) R" "R k g" "\<not> g_loading g" "vm_mem vm = g_ram g"
    and "64 \<le> length (vm_page vm)" "length (vm_page vm) < 2 ^ 63" "vm_runs g d ios mmios g' d'"
  shows "\<exists>k' page' ts'. vm_run enter k vm d ts =
      Some (Inr \<lparr>rs_exits = of_nat (ios + mmios + 1), rs_io_exits = of_nat ios,
          rs_mmio_exits = of_nat mmios, rs_interrupted = 0\<rparr>,
        k', vm\<lparr>vm_mem := g_ram g', vm_page := page'\<rparr>, d', ts') \<and> R k' g' \<and>
      length page' = length (vm_page vm) \<and> timed (ios + mmios + 1) ts ts'"
  using run_refines_interrupted [OF kvm_faithful_documented [where ints = False, OF assms(1)] assms(2-7), of ts] by auto

section \<open>Executing a guest\<close>

fun run_to_exit :: "nat \<Rightarrow> Guest \<Rightarrow> (GuestExit \<times> Guest) option" where
  "run_to_exit 0 g = None"
| "run_to_exit (Suc n) g =
     (case guest_step g of
        None \<Rightarrow> None
      | Some (Some e, g') \<Rightarrow> Some (e, g')
      | Some (None, g1) \<Rightarrow> run_to_exit n g1)"

lemma run_to_exit_sound: "run_to_exit n g = Some (e, g') \<Longrightarrow> guest_exit g e g'"
  by (induction n arbitrary: g) (auto simp: guest_exit_step split: option.splits)

lemma guest_exit_unique: "guest_exit g e g' \<Longrightarrow> guest_exit g e2 g2 \<Longrightarrow> e2 = e \<and> g2 = g'"
proof (induction arbitrary: e2 g2 rule: guest_exit.induct)
  case (now g e g')
  then show ?case by (auto simp: guest_exit_step)
next
  case (later g g1 e g')
  then show ?case by (auto simp: guest_exit_step)
qed

definition booted :: "u8 list \<Rightarrow> Guest" where
  "booted ram = \<lparr>g_al = 0, g_dx = 0, g_cx = 0, g_rip = unat LOAD_ADDR, g_ram = ram, g_loading = False\<rparr>"

text \<open>A guest at the entry point with any values in the registers.\<close>

definition started :: "u8 \<Rightarrow> u16 \<Rightarrow> u16 \<Rightarrow> u8 list \<Rightarrow> Guest" where
  "started al dx cx ram = \<lparr>g_al = al, g_dx = dx, g_cx = cx, g_rip = unat LOAD_ADDR, g_ram = ram, g_loading = False\<rparr>"

definition GUEST_RAM :: nat where "GUEST_RAM = 32768"

definition holds_program :: "u8 list \<Rightarrow> u8 list \<Rightarrow> bool" where
  "holds_program ram prog \<longleftrightarrow> length ram = GUEST_RAM \<and> window (unat LOAD_ADDR) (length prog) ram = prog"

lemma fetch:
  assumes "holds_program ram prog" "i < length prog" "length prog < 1024"
  shows "ram ! (4096 + i) = prog ! i" "i + 1 < length prog \<Longrightarrow> window (4096 + i) 2 ram = [prog ! i, prog ! (i + 1)]"
proof -
  have w: "window 4096 (length prog) ram = prog" and len: "length ram = 32768"
    using assms(1) by (simp_all add: holds_program_def LOAD_ADDR_def GUEST_RAM_def)
  have at: "ram ! (4096 + j) = prog ! j" if "j < length prog" for j
    using nth_window [of j "length prog" 4096 ram] that w len assms(3) by simp
  show "ram ! (4096 + i) = prog ! i" using at assms(2) by simp
  show "window (4096 + i) 2 ram = [prog ! i, prog ! (i + 1)]" if "i + 1 < length prog"
    using window_2 [of "4096 + i" ram] at [of i] at [of "i + 1"] that len assms(3)
    by (simp add: add.assoc)
qed

section \<open>The demo guest\<close>

lemma prog_nth: "(x # xs) ! numeral k = xs ! pred_numeral k"
  by (simp add: numeral_eq_Suc)

lemma demo_fetch:
  assumes "holds_program ram DEMO_PROGRAM"
  shows "length ram = 32768"
    "ram ! 4096 = 0xBA" "window 4097 2 ram = [0xF8, 0x03]" "ram ! 4099 = 0xB0" "ram ! 4100 = 0x4B"
    "ram ! 4101 = 0xEE" "ram ! 4102 = 0xB0" "ram ! 4103 = 0x56" "ram ! 4104 = 0xEE" "ram ! 4105 = 0xB0"
    "ram ! 4106 = 0x4D" "ram ! 4107 = 0xEE" "ram ! 4108 = 0xB0" "ram ! 4109 = 0x0A" "ram ! 4110 = 0xEE"
    "ram ! 4111 = 0xB0" "ram ! 4112 = 0x42" "ram ! 4113 = 0xA2" "window 4114 2 ram = [0x00, 0x80]"
    "ram ! 4116 = 0xA0" "window 4117 2 ram = [0x00, 0x80]" "ram ! 4119 = 0xEE" "ram ! 4120 = 0xB0"
    "ram ! 4121 = 0x0A" "ram ! 4122 = 0xEE" "ram ! 4123 = 0xF4"
  using assms fetch [OF assms, of 0] fetch [OF assms, of 1] fetch [OF assms, of 3] fetch [OF assms, of 4]
    fetch [OF assms, of 5] fetch [OF assms, of 6] fetch [OF assms, of 7] fetch [OF assms, of 8]
    fetch [OF assms, of 9] fetch [OF assms, of 10] fetch [OF assms, of 11] fetch [OF assms, of 12]
    fetch [OF assms, of 13] fetch [OF assms, of 14] fetch [OF assms, of 15] fetch [OF assms, of 16]
    fetch [OF assms, of 17] fetch [OF assms, of 18] fetch [OF assms, of 20] fetch [OF assms, of 21]
    fetch [OF assms, of 23] fetch [OF assms, of 24] fetch [OF assms, of 25] fetch [OF assms, of 26]
    fetch [OF assms, of 27]
  by (simp_all add: DEMO_PROGRAM_def holds_program_def GUEST_RAM_def prog_nth)

definition demo_devices :: Devices where
  "demo_devices = \<lparr>serial_out = DEMO_EXPECTED_OUTPUT, latch = 0x42, pio_writes = 6, pio_reads = 0,
     mmio_writes = 1, mmio_reads = 1, unhandled = 0\<rparr>"

lemma of_le_bytes_2: "of_le_bytes [a, b] = (word_of_nat (unat a + 256 * unat b) :: u16)"
  by (simp add: of_le_bytes_def)

lemma vm_runs_io:
  assumes "run_to_exit n g = Some (ExitIoOut port v, g1)" "\<not> g_loading g1"
    and "vm_runs g1 (pio_write d port [v]) ios mmios g' d'"
  shows "vm_runs g d (Suc ios) mmios g' d'"
  using vm_runs.exit [OF run_to_exit_sound [OF assms(1)], of d "pio_write d port [v]" 0 ios mmios g' d'] assms(2,3)
  by (simp add: answer_def is_io_def not_loading)

lemma vm_runs_mmio_write:
  assumes "run_to_exit n g = Some (ExitMmioWrite a v, g1)" "\<not> g_loading g1" "owns_mmio (word_of_nat a)"
    and "vm_runs g1 (mmio_write d (word_of_nat a) [v]) ios mmios g' d'"
  shows "vm_runs g d ios (Suc mmios) g' d'"
  using vm_runs.exit [OF run_to_exit_sound [OF assms(1)], of d "mmio_write d (word_of_nat a) [v]" 0 ios mmios g' d']
    assms(2-4) by (simp add: answer_def is_io_def not_loading)

lemma vm_runs_mmio_read:
  assumes "run_to_exit n g = Some (ExitMmioRead a, g1)" "owns_mmio (word_of_nat a)"
    and "mmio_read d (word_of_nat a) [0] = (d1, [v])" "vm_runs (complete_load v g1) d1 ios mmios g' d'"
  shows "vm_runs g d ios (Suc mmios) g' d'"
  using vm_runs.exit [OF run_to_exit_sound [OF assms(1)], of d d1 v ios mmios g' d'] assms(2-4)
  by (simp add: answer_def is_io_def)

lemma demo_exits:
  fixes a :: u8 and x c :: u16
  assumes "holds_program ram DEMO_PROGRAM"
  defines "g al rip \<equiv> \<lparr>g_al = al, g_dx = 0x3f8, g_cx = c, g_rip = rip, g_ram = ram, g_loading = False\<rparr>"
  shows "run_to_exit (Suc (Suc (Suc (Suc 0)))) (started a x c ram) = Some (ExitIoOut 0x3f8 0x4B, g 0x4B 4102)"
    "run_to_exit (Suc (Suc (Suc (Suc 0)))) (g 0x4B 4102) = Some (ExitIoOut 0x3f8 0x56, g 0x56 4105)"
    "run_to_exit (Suc (Suc (Suc (Suc 0)))) (g 0x56 4105) = Some (ExitIoOut 0x3f8 0x4D, g 0x4D 4108)"
    "run_to_exit (Suc (Suc (Suc (Suc 0)))) (g 0x4D 4108) = Some (ExitIoOut 0x3f8 0x0A, g 0x0A 4111)"
    "run_to_exit (Suc (Suc (Suc (Suc 0)))) (g 0x0A 4111) = Some (ExitMmioWrite 0x8000 0x42, g 0x42 4116)"
    "run_to_exit (Suc (Suc (Suc (Suc 0)))) (g 0x42 4116) = Some (ExitMmioRead 0x8000, (g 0x42 4119)\<lparr>g_loading := True\<rparr>)"
    "run_to_exit (Suc (Suc (Suc (Suc 0)))) (g 0x42 4119) = Some (ExitIoOut 0x3f8 0x42, g 0x42 4120)"
    "run_to_exit (Suc (Suc (Suc (Suc 0)))) (g 0x42 4120) = Some (ExitIoOut 0x3f8 0x0A, g 0x0A 4123)"
    "run_to_exit (Suc (Suc (Suc (Suc 0)))) (g 0x0A 4123) = Some (ExitHlt, g 0x0A 4124)"
  unfolding g_def
  by (simp_all add: guest_step_def imm16_def of_le_bytes_2 started_def LOAD_ADDR_def Let_def demo_fetch [OF assms(1)])

lemma demo_runs_from:
  assumes "holds_program ram DEMO_PROGRAM"
  shows "\<exists>g'. vm_runs (started a x c ram) devices_default 6 2 g' demo_devices \<and>
    g_rip g' = unat LOAD_ADDR + length DEMO_PROGRAM \<and> g_ram g' = ram"
proof -
  let ?g = "\<lambda>al rip. \<lparr>g_al = al, g_dx = 0x3f8, g_cx = c, g_rip = rip, g_ram = ram, g_loading = False\<rparr>"
  let ?out = "\<lambda>d v. pio_write d 0x3f8 [v]"
  note ex = demo_exits [OF assms, where c = c]
  let ?d4 = "?out (?out (?out (?out devices_default 0x4B) 0x56) 0x4D) 0x0A"
  let ?d5 = "mmio_write ?d4 0x8000 [0x42]"
  let ?d6 = "?d5\<lparr>mmio_reads := 1\<rparr>"
  have owns: "owns_mmio (word_of_nat 0x8000)" by (simp add: owns_mmio_def device_consts)
  have rd: "mmio_read ?d5 (word_of_nat 0x8000) [0] = (?d6, [0x42])"
    by (simp add: mmio_read_def mmio_write_def pio_write_def Let_def device_consts devices_default_def)
  have "?out (?out ?d6 0x42) 0x0A = demo_devices"
    by (simp add: demo_devices_def mmio_write_def pio_write_def Let_def device_consts devices_default_def
        DEMO_EXPECTED_OUTPUT_def)
  moreover have "vm_runs (?g 0x0A 4123) demo_devices 0 0 (?g 0x0A 4124) demo_devices"
    by (rule vm_runs.halt [OF run_to_exit_sound [OF ex(9)]])
  ultimately have "vm_runs (?g 0x42 4119) ?d6 2 0 (?g 0x0A 4124) demo_devices"
    using vm_runs_io [OF ex(7) _ vm_runs_io [OF ex(8)]] by (simp add: numeral_2_eq_2)
  then have "vm_runs (?g 0x42 4116) ?d5 2 1 (?g 0x0A 4124) demo_devices"
    using vm_runs_mmio_read [OF ex(6) owns rd] by (simp add: complete_load_def)
  then have "vm_runs (?g 0x0A 4111) ?d4 2 2 (?g 0x0A 4124) demo_devices"
    using vm_runs_mmio_write [OF ex(5) _ owns, of ?d4] by (simp add: numeral_2_eq_2)
  then have "vm_runs (started a x c ram) devices_default 6 2 (?g 0x0A 4124) demo_devices"
    using vm_runs_io [OF ex(1) _ vm_runs_io [OF ex(2) _ vm_runs_io [OF ex(3) _ vm_runs_io [OF ex(4)]]]]
    by (simp add: eval_nat_numeral)
  then show ?thesis
    by (intro exI conjI, assumption) (simp_all add: LOAD_ADDR_def DEMO_PROGRAM_def)
qed

lemma demo_runs:
  assumes "holds_program ram DEMO_PROGRAM"
  shows "\<exists>g'. vm_runs (booted ram) devices_default 6 2 g' demo_devices \<and>
    g_rip g' = unat LOAD_ADDR + length DEMO_PROGRAM \<and> g_ram g' = ram"
  using demo_runs_from [OF assms, of 0 0 0] by (simp add: started_def booted_def)

section \<open>The benchmark guest\<close>

lemma bench_fetch:
  assumes "holds_program ram prog" "bench_program count = Some prog"
  shows "length ram = 32768" "ram ! 4096 = 0xBA" "window 4097 2 ram = [0x80, 0x00]" "ram ! 4099 = 0xB9"
    "window 4100 2 ram = le_bytes 2 (ucast count :: u16)" "ram ! 4102 = 0xEE" "ram ! 4103 = 0xE2"
    "ram ! 4104 = 0xFD" "ram ! 4105 = 0xF4"
proof -
  have c: "0 < count" "count \<le> BENCH_MAX_PER_ROUND"
    using assms(2) by (simp_all add: bench_program_def split: if_splits)
  have p: "prog = [0xBA, 0x80, 0x00, 0xB9] @ le_bytes 2 (ucast count :: u16) @ [0xEE, 0xE2, 0xFD, 0xF4]"
    using bench_program_eq [OF c] assms(2) by simp
  show "length ram = 32768"
    using assms(1) by (simp add: holds_program_def GUEST_RAM_def)
  show "ram ! 4096 = 0xBA" "window 4097 2 ram = [0x80, 0x00]" "ram ! 4099 = 0xB9"
    "window 4100 2 ram = le_bytes 2 (ucast count :: u16)" "ram ! 4102 = 0xEE" "ram ! 4103 = 0xE2"
    "ram ! 4104 = 0xFD" "ram ! 4105 = 0xF4"
    using fetch [OF assms(1), of 0] fetch [OF assms(1), of 1] fetch [OF assms(1), of 3] fetch [OF assms(1), of 4]
      fetch [OF assms(1), of 6] fetch [OF assms(1), of 7] fetch [OF assms(1), of 8] fetch [OF assms(1), of 9]
    by (simp_all add: p numeral_2_eq_2 prog_nth)
qed

lemma bench_exits:
  assumes "holds_program ram prog" "bench_program count = Some prog"
  defines "h cx \<equiv> \<lparr>g_al = 0, g_dx = BENCH_PORT, g_cx = cx, g_rip = 4103, g_ram = ram, g_loading = False\<rparr>"
  shows "run_to_exit (Suc (Suc (Suc 0))) (booted ram) = Some (ExitIoOut BENCH_PORT 0, h (ucast count))"
    "cx \<noteq> 1 \<Longrightarrow> run_to_exit (Suc (Suc 0)) (h cx) = Some (ExitIoOut BENCH_PORT 0, h (cx - 1))"
    "run_to_exit (Suc (Suc 0)) (h 1) = Some (ExitHlt, (h 0)\<lparr>g_rip := 4106\<rparr>)"
proof -
  note f = bench_fetch [OF assms(1,2)]
  have rel: "sint (0xFD :: u8) = - 3" by simp
  show "run_to_exit (Suc (Suc (Suc 0))) (booted ram) = Some (ExitIoOut BENCH_PORT 0, h (ucast count))"
    by (simp add: guest_step_def imm16_def of_le_bytes_2 booted_def LOAD_ADDR_def Let_def f h_def BENCH_PORT_def)
  show "run_to_exit (Suc (Suc 0)) (h cx) = Some (ExitIoOut BENCH_PORT 0, h (cx - 1))" if "cx \<noteq> 1"
    using that by (simp add: guest_step_def imm16_def Let_def f h_def rel)
  show "run_to_exit (Suc (Suc 0)) (h 1) = Some (ExitHlt, (h 0)\<lparr>g_rip := 4106\<rparr>)"
    by (simp add: guest_step_def imm16_def Let_def f h_def)
qed

lemma bench_pio_write: "pio_write d BENCH_PORT data = d\<lparr>pio_writes := pio_writes d + 1\<rparr>"
  by (simp add: pio_write_def device_consts Let_def)

lemma bench_loop_runs:
  assumes "holds_program ram prog" "bench_program count = Some prog" "cx \<noteq> 0"
  defines "h c \<equiv> \<lparr>g_al = 0, g_dx = BENCH_PORT, g_cx = c, g_rip = 4103, g_ram = ram, g_loading = False\<rparr>"
  shows "vm_runs (h cx) d (unat cx - 1) 0 ((h 0)\<lparr>g_rip := 4106\<rparr>)
    (d\<lparr>pio_writes := pio_writes d + of_nat (unat cx - 1)\<rparr>)"
  using assms(3)
proof (induction "unat cx - 1" arbitrary: cx d)
  case 0
  then have "unat cx = 1" using unat_gt_0 [of cx] by simp
  then have "cx = 1" by (simp add: word_unat_eq_iff)
  then show ?case
    using vm_runs.halt [OF run_to_exit_sound [OF bench_exits(3) [OF assms(1,2)]]] by (simp add: h_def)
next
  case (Suc n)
  then have ne: "cx \<noteq> 1" by auto
  have pred: "unat (cx - 1) = unat cx - 1" using Suc.prems by (simp add: unat_minus_one)
  then have "n = unat (cx - 1) - 1" "cx - 1 \<noteq> 0" using Suc.hyps(2) ne by auto
  note ih = Suc.hyps(1) [OF this, of "d\<lparr>pio_writes := pio_writes d + 1\<rparr>"]
  have "vm_runs (h cx) d (Suc (unat (cx - 1) - 1)) 0 ((h 0)\<lparr>g_rip := 4106\<rparr>)
      (d\<lparr>pio_writes := pio_writes d + 1 + of_nat (unat (cx - 1) - 1)\<rparr>)"
    using vm_runs_io [OF bench_exits(2) [OF assms(1,2) ne]] ih by (simp add: h_def bench_pio_write)
  moreover have k: "unat cx - 1 = Suc (unat (cx - 1) - 1)" using pred Suc.hyps(2) by simp
  ultimately show ?case unfolding k by (simp only: of_nat_Suc add.assoc)
qed

lemma bench_runs:
  assumes "holds_program ram prog" "bench_program count = Some prog"
  shows "\<exists>g'. vm_runs (booted ram) d (unat count) 0 g' (d\<lparr>pio_writes := pio_writes d + ucast count\<rparr>) \<and>
    g_cx g' = 0 \<and> g_ram g' = ram"
proof -
  have c: "0 < count" "unat count \<le> 65535"
    using assms(2) by (simp_all add: bench_program_def BENCH_MAX_PER_ROUND_def word_le_nat_alt split: if_splits)
  then have u: "unat (ucast count :: u16) = unat count"
    by (simp add: unsigned_ucast_eq take_bit_nat_eq_self)
  moreover have pos: "0 < unat count" using c(1) by (simp add: word_less_nat_alt)
  ultimately have ne: "(ucast count :: u16) \<noteq> 0" by auto
  have sum: "pio_writes d + 1 + of_nat (unat count - 1) = pio_writes d + (ucast count :: u64)"
  proof -
    have "(1 :: u64) + of_nat (unat count - 1) = of_nat (unat count)"
      using pos by (metis Suc_pred' of_nat_Suc)
    also have "\<dots> = ucast count" by simp
    finally show ?thesis by (simp add: add.assoc)
  qed
  let ?fin = "\<lparr>g_al = 0, g_dx = BENCH_PORT, g_cx = 0, g_rip = 4106, g_ram = ram, g_loading = False\<rparr>"
  have "vm_runs (booted ram) d (Suc (unat count - 1)) 0 ?fin
      (d\<lparr>pio_writes := pio_writes d + 1 + of_nat (unat count - 1)\<rparr>)"
    using vm_runs_io [OF bench_exits(1) [OF assms]] bench_loop_runs [OF assms ne, of "d\<lparr>pio_writes := pio_writes d + 1\<rparr>"] u
    by (simp add: bench_pio_write)
  then show ?thesis
    using pos unfolding sum by (intro exI [of _ ?fin]) simp
qed

end
