(* ===== verification/KvmMain.thy ===== *)
theory KvmMain
  imports KvmRun
begin

text \<open>
  The binary of \<^verbatim>\<open>rung-01-kvm/toy-kvm-raw/src/main.rs\<close>: the demo, which boots the demo guest and
  checks what it printed, and the rounds of the benchmark, which collect one timing per exit.
  \<open>kvm_resets\<close> is what \<^verbatim>\<open>set_real_mode_regs\<close> relies on. A reference kernel (\<open>ref_os\<close>, \<open>ref_enter\<close>),
  an interpreter of the guest behind the KVM interface, shows that the hypotheses can hold.
  The percentiles of the report and the printing are not modelled.
\<close>

unbundle bit_operations_syntax

section \<open>Loading a program\<close>

lemma vm_load_exact:
  assumes "unat gpa + length bytes < 2 ^ 64" "vm_mem_size vm = length (vm_mem vm)"
  shows "vm_load vm gpa bytes =
    (if unat gpa + length bytes \<le> length (vm_mem vm) then
       Loaded (vm\<lparr>vm_mem := blit (unat gpa) bytes (vm_mem vm)\<rparr>)
     else LoadRefused (LoadExceedsRam (length bytes) gpa (length (vm_mem vm))))"
proof -
  have "unat (gpa + word_of_nat (length bytes)) = unat gpa + length bytes"
    using assms(1) by (simp add: unat_add_small unat_of_nat_u64)
  then show ?thesis using assms(2) by (simp add: vm_load_def)
qed

text \<open>The sum wraps near the top of the address space, and the copy leaves the mapping.\<close>

lemma vm_load_wraps:
  assumes "unat gpa + length bytes = 2 ^ 64" "0 < length bytes" "length bytes < 2 ^ 63" "length (vm_mem vm) < 2 ^ 63"
  shows "vm_load vm gpa bytes = OutOfMapping"
proof -
  have "(word_of_nat (unat gpa + length bytes) :: u64) = 0"
    unfolding assms(1) by (simp add: word_eq_iff_unsigned unsigned_of_nat take_bit_eq_mod)
  then have "gpa + word_of_nat (length bytes) = 0" by simp
  then show ?thesis using assms by (simp add: vm_load_def)
qed

lemma vm_load_program:
  assumes "vm_mem_size vm = GUEST_RAM" "length (vm_mem vm) = GUEST_RAM" "length prog < 1024"
  obtains vm1 where "vm_load vm LOAD_ADDR prog = Loaded vm1" "holds_program (vm_mem vm1) prog"
    "vm1 = vm\<lparr>vm_mem := vm_mem vm1\<rparr>"
proof -
  let ?vm1 = "vm\<lparr>vm_mem := blit 4096 prog (vm_mem vm)\<rparr>"
  have "vm_load vm LOAD_ADDR prog = Loaded ?vm1"
    using assms by (subst vm_load_exact) (simp_all add: LOAD_ADDR_def GUEST_RAM_def)
  moreover have "holds_program (vm_mem ?vm1) prog"
    using assms by (simp add: holds_program_def LOAD_ADDR_def GUEST_RAM_def length_blit window_blit_same)
  ultimately show ?thesis using that [of ?vm1] by simp
qed

section \<open>The demo\<close>

datatype DemoError =
    VmmFailed VmmError
  | OutputMismatch "u8 list"
  | UndescribedAccesses u64

definition kvm_demo :: "'k os \<Rightarrow> 'k enter \<Rightarrow> 'k
    \<Rightarrow> ((DemoError, RunSummary \<times> Devices \<times> kvm_regs) outcome \<times> 'k) option" where
  "kvm_demo os enter k0 =
     (case vm_new os k0 GUEST_RAM of
        (Err e, k) \<Rightarrow> Some (Err (VmmFailed e), k)
      | (Panic, k) \<Rightarrow> Some (Panic, k)
      | (Ok vm, k1) \<Rightarrow>
     (case vm_load vm LOAD_ADDR DEMO_PROGRAM of
        LoadRefused e \<Rightarrow> Some (Err (VmmFailed e), k1)
      | OutOfMapping \<Rightarrow> Some (Panic, k1)
      | Loaded vm1 \<Rightarrow>
     (case set_real_mode_regs os k1 vm1 LOAD_ADDR of
        (Inl e, k) \<Rightarrow> Some (Err (VmmFailed e), k)
      | (Inr _, k2) \<Rightarrow>
     (case vm_run enter k2 vm1 devices_default None of
        None \<Rightarrow> None
      | Some (Inl e, k, vm2, devices, _) \<Rightarrow> Some (Err (VmmFailed e), k)
      | Some (Inr summary, k3, vm2, devices, _) \<Rightarrow>
     (case vm_regs os k3 vm2 of
        (Inl e, k) \<Rightarrow> Some (Err (VmmFailed e), k)
      | (Inr regs, k4) \<Rightarrow>
          if serial_out devices \<noteq> DEMO_EXPECTED_OUTPUT then
            Some (Err (OutputMismatch (serial_out devices)), k4)
          else if unhandled devices \<noteq> 0 then
            Some (Err (UndescribedAccesses (unhandled devices)), k4)
          else Some (Ok (summary, devices, regs), k4))))))"

definition kvm_resets :: "'k os \<Rightarrow> fd \<Rightarrow> ('k \<Rightarrow> Guest \<Rightarrow> bool) \<Rightarrow> bool" where
  "kvm_resets os vcpu R \<longleftrightarrow>
     (\<forall>k vm. vm_vcpu vm = vcpu \<longrightarrow>
       (\<exists>k'. set_real_mode_regs os k vm LOAD_ADDR = (Inr (), k') \<and> (\<forall>ram. R k' (booted ram))))"

lemma vm_new_shape:
  "vm_new os k0 n = (Ok vm, k1) \<Longrightarrow>
    vm_mem_size vm = n \<and> length (vm_mem vm) = n \<and> 32 \<le> length (vm_page vm) \<and> n mod 4096 = 0 \<and> 0 < n"
  by (auto simp: vm_new_def Let_def layout_sizes KVM_RUN_UNION_OFFSET_def
      split: if_splits sum.splits prod.splits)

lemma demo_program_length: "length DEMO_PROGRAM < 1024"
  by (simp add: DEMO_PROGRAM_def)

lemma demo_succeeds_interrupted:
  assumes new: "vm_new os k0 GUEST_RAM = (Ok vm, k1)"
    and page: "64 \<le> length (vm_page vm)" "length (vm_page vm) < 2 ^ 63"
    and faithful: "kvm_documented ints enter (vm_vcpu vm) R" and resets: "kvm_resets os (vm_vcpu vm) R"
    and regs: "\<And>k. \<exists>r k'. os k (IoctlGetRegs (vm_vcpu vm) KVM_GET_REGS) = (Inr r, k')"
  shows "\<exists>i j regs k'. kvm_demo os enter k0 =
    Some (Ok (\<lparr>rs_exits = 9 + of_nat j, rs_io_exits = 6, rs_mmio_exits = 2, rs_interrupted = of_nat (i + j)\<rparr>,
      demo_devices, regs), k') \<and> (\<not> ints \<longrightarrow> i = 0 \<and> j = 0)"
proof -
  note shape = vm_new_shape [OF new]
  obtain vm1 where load: "vm_load vm LOAD_ADDR DEMO_PROGRAM = Loaded vm1" "holds_program (vm_mem vm1) DEMO_PROGRAM"
      "vm1 = vm\<lparr>vm_mem := vm_mem vm1\<rparr>"
    using vm_load_program [of vm DEMO_PROGRAM] shape demo_program_length by blast
  have same: "vm_vcpu vm1 = vm_vcpu vm" "vm_page vm1 = vm_page vm"
    by (subst load(3), simp)+
  obtain k2 where reset: "set_real_mode_regs os k1 vm1 LOAD_ADDR = (Inr (), k2)" "\<And>ram. R k2 (booted ram)"
    using resets same(1) unfolding kvm_resets_def by blast
  obtain g' where runs: "vm_runs (booted (vm_mem vm1)) devices_default 6 2 g' demo_devices"
    using demo_runs [OF load(2)] by blast
  have boot: "\<not> g_loading (booted (vm_mem vm1))" "vm_mem vm1 = g_ram (booted (vm_mem vm1))"
    by (simp_all add: booted_def)
  have faithful1: "kvm_documented ints enter (vm_vcpu vm1) R" "64 \<le> length (vm_page vm1)" "length (vm_page vm1) < 2 ^ 63"
    using faithful page same by simp_all
  obtain i j k3 page' ts' where run: "vm_run enter k2 vm1 devices_default None =
      Some (Inr \<lparr>rs_exits = of_nat (6 + 2 + 1 + j), rs_io_exits = of_nat 6, rs_mmio_exits = of_nat 2,
        rs_interrupted = of_nat (i + j)\<rparr>, k3, vm1\<lparr>vm_mem := g_ram g', vm_page := page'\<rparr>, demo_devices, ts')"
      "\<not> ints \<longrightarrow> i = 0 \<and> j = 0"
    using run_refines_interrupted [OF faithful1(1) reset(2) boot faithful1(2,3) runs, of None] by blast
  obtain r k4 where r: "os k3 (IoctlGetRegs (vm_vcpu vm) KVM_GET_REGS) = (Inr r, k4)"
    using regs by blast
  have "serial_out demo_devices = DEMO_EXPECTED_OUTPUT" "unhandled demo_devices = 0"
    by (simp_all add: demo_devices_def)
  then have "kvm_demo os enter k0 =
    Some (Ok (\<lparr>rs_exits = 9 + of_nat j, rs_io_exits = 6, rs_mmio_exits = 2, rs_interrupted = of_nat (i + j)\<rparr>,
      demo_devices, ret_regs r), k4)"
    by (simp add: kvm_demo_def new load(1) reset(1) run(1) vm_regs_def same r)
  then show ?thesis using run(2) by blast
qed

lemma demo_succeeds:
  assumes "vm_new os k0 GUEST_RAM = (Ok vm, k1)" "64 \<le> length (vm_page vm)" "length (vm_page vm) < 2 ^ 63"
    and "kvm_faithful enter (vm_vcpu vm) R" "kvm_resets os (vm_vcpu vm) R"
    and "\<And>k. \<exists>r k'. os k (IoctlGetRegs (vm_vcpu vm) KVM_GET_REGS) = (Inr r, k')"
  shows "\<exists>regs k'. kvm_demo os enter k0 =
    Some (Ok (\<lparr>rs_exits = 9, rs_io_exits = 6, rs_mmio_exits = 2, rs_interrupted = 0\<rparr>, demo_devices, regs), k')"
  using demo_succeeds_interrupted [OF assms(1-3) kvm_faithful_documented [where ints = False, OF assms(4)] assms(5,6)]
  by auto

section \<open>The rounds of the benchmark\<close>

partial_function (option) bench_rounds ::
  "'k os \<Rightarrow> 'k enter \<Rightarrow> 'k \<Rightarrow> Vm \<Rightarrow> Devices \<Rightarrow> u64 list \<Rightarrow> u32 \<Rightarrow> u64
    \<Rightarrow> ((VmmError, u64 list \<times> u64) outcome \<times> 'k \<times> Vm \<times> Devices) option" where
  "bench_rounds os enter k vm d timings remaining interrupted =
     (if remaining = 0 then Some (Ok (timings, interrupted), k, vm, d)
      else let chunk = min remaining BENCH_MAX_PER_ROUND in
      case bench_program chunk of
        None \<Rightarrow> Some (Panic, k, vm, d)
      | Some prog \<Rightarrow>
      (case vm_load vm LOAD_ADDR prog of
        LoadRefused e \<Rightarrow> Some (Err e, k, vm, d)
      | OutOfMapping \<Rightarrow> Some (Panic, k, vm, d)
      | Loaded vm1 \<Rightarrow>
      (case set_real_mode_regs os k vm1 LOAD_ADDR of
        (Inl e, k1) \<Rightarrow> Some (Err e, k1, vm1, d)
      | (Inr _, k1) \<Rightarrow>
      (case vm_run enter k1 vm1 d (Some timings) of
        None \<Rightarrow> None
      | Some (Inl e, k2, vm2, d2, ts) \<Rightarrow> Some (Err e, k2, vm2, d2)
      | Some (Inr summary, k2, vm2, d2, ts) \<Rightarrow>
          let taken = (case ts of None \<Rightarrow> timings | Some v \<Rightarrow> butlast v) in
          bench_rounds os enter k2 vm2 d2 taken (remaining - chunk)
            (interrupted + rs_interrupted summary)))))"

lemma bench_program_some: "0 < c \<Longrightarrow> c \<le> BENCH_MAX_PER_ROUND \<Longrightarrow> \<exists>prog. bench_program c = Some prog \<and> length prog < 1024"
  by (simp add: bench_program_eq)

lemma ucast_split:
  fixes a b :: u32
  assumes "a \<le> b"
  shows "(ucast a :: u64) + ucast (b - a) = ucast b"
proof -
  have small: "unat (b - a) = unat b - unat a" "unat a \<le> unat b" "unat b < 2 ^ 32"
    using assms unat_u32_lt [of b] by (simp_all add: unat_sub word_le_nat_alt)
  have sum: "unat (ucast a :: u64) + unat (ucast (b - a) :: u64) = unat b"
    using small by simp
  have "unat ((ucast a :: u64) + ucast (b - a)) = unat (ucast a :: u64) + unat (ucast (b - a) :: u64)"
    by (rule unat_add_small) (use sum less_trans [OF unat_u32_lt [of b], of "2 ^ 64"] in simp)
  also have "\<dots> = unat (ucast b :: u64)"
    using small by (simp add: unat_ucast_u32_u64)
  finally show ?thesis by (simp add: word_unat_eq_iff)
qed

lemma bench_rounds_collect_interrupted:
  assumes faithful: "kvm_documented ints enter (vm_vcpu vm) R" and resets: "kvm_resets os (vm_vcpu vm) R"
    and "vm_mem_size vm = GUEST_RAM" "length (vm_mem vm) = GUEST_RAM"
    and "64 \<le> length (vm_page vm)" "length (vm_page vm) < 2 ^ 63"
  shows "\<exists>u n k' vm' d'. bench_rounds os enter k vm d timings remaining interrupted =
      Some (Ok (timings @ u, interrupted + of_nat n), k', vm', d') \<and> length u = unat remaining + n \<and>
      d' = d\<lparr>pio_writes := pio_writes d + ucast remaining\<rparr> \<and> (\<not> ints \<longrightarrow> n = 0)"
  using assms
proof (induction "unat remaining" arbitrary: k vm d timings remaining interrupted rule: less_induct)
  case less
  show ?case
  proof (cases "remaining = 0")
    case True
    then show ?thesis by (intro exI [of _ "[]"] exI [of _ 0]) (simp add: bench_rounds.simps)
  next
    case False
    define chunk where "chunk = min remaining BENCH_MAX_PER_ROUND"
    have c: "0 < chunk" "chunk \<le> BENCH_MAX_PER_ROUND" "chunk \<le> remaining"
      using False by (auto simp: chunk_def BENCH_MAX_PER_ROUND_def word_gt_0 min_def)
    obtain prog where prog: "bench_program chunk = Some prog" "length prog < 1024"
      using bench_program_some [OF c(1,2)] by blast
    obtain vm1 where load: "vm_load vm LOAD_ADDR prog = Loaded vm1" "holds_program (vm_mem vm1) prog"
        "vm1 = vm\<lparr>vm_mem := vm_mem vm1\<rparr>"
      by (rule vm_load_program [OF less.prems(3,4) prog(2)])
    have same: "vm_vcpu vm1 = vm_vcpu vm" "vm_page vm1 = vm_page vm" "vm_mem_size vm1 = vm_mem_size vm"
      by (subst load(3), simp)+
    obtain k1 where reset: "set_real_mode_regs os k vm1 LOAD_ADDR = (Inr (), k1)" "\<And>ram. R k1 (booted ram)"
      using less.prems(2) same(1) unfolding kvm_resets_def by blast
    let ?d1 = "d\<lparr>pio_writes := pio_writes d + ucast chunk\<rparr>"
    obtain g' where runs: "vm_runs (booted (vm_mem vm1)) d (unat chunk) 0 g' ?d1" "g_ram g' = vm_mem vm1"
      using bench_runs [OF load(2) prog(1)] by blast
    have boot: "\<not> g_loading (booted (vm_mem vm1))" "vm_mem vm1 = g_ram (booted (vm_mem vm1))"
      by (simp_all add: booted_def)
    have faithful1: "kvm_documented ints enter (vm_vcpu vm1) R" "64 \<le> length (vm_page vm1)" "length (vm_page vm1) < 2 ^ 63"
      using less.prems same by simp_all
    obtain i j k2 page' ts' where run: "vm_run enter k1 vm1 d (Some timings) =
        Some (Inr \<lparr>rs_exits = of_nat (unat chunk + 0 + 1 + j), rs_io_exits = of_nat (unat chunk),
            rs_mmio_exits = of_nat 0, rs_interrupted = of_nat (i + j)\<rparr>, k2,
          vm1\<lparr>vm_mem := g_ram g', vm_page := page'\<rparr>, ?d1, ts')" "length page' = length (vm_page vm1)"
        "timed (unat chunk + 0 + 1 + i + j) (Some timings) ts'" "\<not> ints \<longrightarrow> i = 0 \<and> j = 0"
      using run_refines_interrupted [OF faithful1(1) reset(2) boot faithful1(2,3) runs(1), of "Some timings"] by blast
    then obtain u where u: "ts' = Some (timings @ u)" "length u = Suc (unat chunk + (i + j))"
      by (auto simp: timed_def)
    then have cut: "butlast (timings @ u) = timings @ butlast u" "length (butlast u) = unat chunk + (i + j)"
      by (auto simp: butlast_append)
    let ?vm2 = "vm1\<lparr>vm_mem := g_ram g', vm_page := page'\<rparr>"
    have step: "bench_rounds os enter k vm d timings remaining interrupted =
        bench_rounds os enter k2 ?vm2 ?d1 (timings @ butlast u) (remaining - chunk) (interrupted + of_nat (i + j))"
      using False prog(1) load(1) reset(1) run(1) u(1) cut(1)
      by (simp add: bench_rounds.simps [of os enter k vm] chunk_def [symmetric])
    have rem: "unat (remaining - chunk) = unat remaining - unat chunk" "unat chunk \<le> unat remaining"
      using c(3) by (simp_all add: unat_sub word_le_nat_alt)
    have pos: "0 < unat chunk" using c(1) by (simp add: word_less_nat_alt)
    have mem: "length (vm_mem vm1) = GUEST_RAM" using load(2) by (simp add: holds_program_def)
    have prem: "unat (remaining - chunk) < unat remaining" "kvm_documented ints enter (vm_vcpu ?vm2) R"
        "kvm_resets os (vm_vcpu ?vm2) R" "vm_mem_size ?vm2 = GUEST_RAM" "length (vm_mem ?vm2) = GUEST_RAM"
        "64 \<le> length (vm_page ?vm2)" "length (vm_page ?vm2) < 2 ^ 63"
      using rem pos less.prems same run(2) runs(2) mem by simp_all
    from less.hyps [OF prem, of k2 ?d1 "timings @ butlast u" "interrupted + of_nat (i + j)"]
    obtain w n k' vm' d' where ih: "bench_rounds os enter k2 ?vm2 ?d1 (timings @ butlast u) (remaining - chunk) (interrupted + of_nat (i + j)) =
        Some (Ok ((timings @ butlast u) @ w, interrupted + of_nat (i + j) + of_nat n), k', vm', d')"
        "length w = unat (remaining - chunk) + n"
        "d' = ?d1\<lparr>pio_writes := pio_writes ?d1 + ucast (remaining - chunk)\<rparr>" "\<not> ints \<longrightarrow> n = 0"
      by (elim exE conjE) (rule that; assumption)
    have "(ucast chunk :: u64) + ucast (remaining - chunk) = ucast remaining"
      by (rule ucast_split [OF c(3)])
    then have "d' = d\<lparr>pio_writes := pio_writes d + ucast remaining\<rparr>"
      using ih(3) by (simp add: add.assoc)
    moreover have "length (butlast u @ w) = unat remaining + (i + j + n)"
      using cut(2) ih(2) rem by simp
    ultimately show ?thesis
      using step ih(1,4) run(4)
      by (intro exI [of _ "butlast u @ w"] exI [of _ "i + j + n"]) (simp add: add.assoc)
  qed
qed

lemma bench_rounds_collect:
  assumes "kvm_faithful enter (vm_vcpu vm) R" "kvm_resets os (vm_vcpu vm) R"
    and "vm_mem_size vm = GUEST_RAM" "length (vm_mem vm) = GUEST_RAM"
    and "64 \<le> length (vm_page vm)" "length (vm_page vm) < 2 ^ 63"
  shows "\<exists>u k' vm' d'. bench_rounds os enter k vm d timings remaining interrupted =
      Some (Ok (timings @ u, interrupted), k', vm', d') \<and> length u = unat remaining \<and>
      d' = d\<lparr>pio_writes := pio_writes d + ucast remaining\<rparr>"
  using bench_rounds_collect_interrupted [OF kvm_faithful_documented [where ints = False, OF assms(1)] assms(2-6),
      of k d timings remaining interrupted] by auto

section \<open>A reference kernel\<close>

text \<open>
  An interpreter of the guest behind the interface. Its state is the guest without its RAM, which is
  the VMM's mapping.
\<close>

partial_function (option) run_guest :: "Guest \<Rightarrow> (GuestExit \<times> Guest) option" where
  "run_guest g =
     (case guest_step g of
        None \<Rightarrow> None
      | Some (r, g1) \<Rightarrow> (case r of Some e \<Rightarrow> Some (e, g1) | None \<Rightarrow> run_guest g1))"

definition describe :: "u8 list \<Rightarrow> GuestExit \<Rightarrow> u8 list" where
  "describe page e =
     (case e of
        ExitIoOut port v \<Rightarrow>
          blit 56 [v] (blit 32 ([KVM_EXIT_IO_OUT, 1] @ le_bytes 2 port @ le_bytes 4 (1 :: u32) @ le_bytes 8 (56 :: u64))
            (blit 8 (le_bytes 4 KVM_EXIT_IO) page))
      | ExitMmioWrite a v \<Rightarrow>
          blit 32 (le_bytes 8 (word_of_nat a :: u64) @ (v # replicate 7 0) @ le_bytes 4 (1 :: u32) @ [1])
            (blit 8 (le_bytes 4 KVM_EXIT_MMIO) page)
      | ExitMmioRead a \<Rightarrow>
          blit 32 (le_bytes 8 (word_of_nat a :: u64) @ replicate 8 0 @ le_bytes 4 (1 :: u32) @ [0])
            (blit 8 (le_bytes 4 KVM_EXIT_MMIO) page)
      | ExitHlt \<Rightarrow> blit 8 (le_bytes 4 KVM_EXIT_HLT) page)"

definition ref_enter :: "Guest enter" where
  "ref_enter k vcpu mem page =
     (case run_guest (complete_load (load_value page) (k\<lparr>g_ram := mem\<rparr>)) of
        None \<Rightarrow> (Inl 5, 1, k, mem, page)
      | Some (e, g) \<Rightarrow> (Inr 0, 1, g, g_ram g, describe page e))"

definition same_vcpu :: "Guest \<Rightarrow> Guest \<Rightarrow> bool" where
  "same_vcpu k g \<longleftrightarrow> k\<lparr>g_ram := []\<rparr> = g\<lparr>g_ram := []\<rparr>"

lemma run_guest_exit: "guest_exit g e g' \<Longrightarrow> run_guest g = Some (e, g')"
  by (induction rule: guest_exit.induct) (simp_all add: run_guest.simps)

lemma same_vcpu_ram: "same_vcpu k g \<Longrightarrow> k\<lparr>g_ram := g_ram g\<rparr> = g"
  by (cases k; cases g) (simp add: same_vcpu_def)

lemma window_blit_inside:
  assumes "a \<le> b" "b + n \<le> a + length ys" "a + length ys \<le> length xs"
  shows "window b n (blit a ys xs) = window (b - a) n ys"
  by (rule nth_equalityI) (use assms in \<open>auto simp: length_window length_blit nth_window nth_blit\<close>)

lemma window_blit_outside:
  assumes "b + n \<le> a \<or> a + length ys \<le> b" "b + n \<le> length xs" "a + length ys \<le> length xs"
  shows "window b n (blit a ys xs) = window b n xs"
  by (rule nth_equalityI) (use assms in \<open>auto simp: length_window length_blit nth_window nth_blit\<close>)

lemma length_describe: "64 \<le> length page \<Longrightarrow> length (describe page e) = length page"
  by (simp add: describe_def length_blit split: GuestExit.split)

lemma reason_of:
  "hdr_exit_reason (read_header page) = of_le_bytes (window 8 4 page)"
  by (simp add: read_header_def Let_def page_field_def round_up_def kvm_run_header_fields_def c_array_def)

lemma io_of:
  "io_direction (read_io page) = of_le_bytes (window 32 1 page)" "io_size (read_io page) = of_le_bytes (window 33 1 page)"
  "io_port (read_io page) = of_le_bytes (window 34 2 page)" "io_count (read_io page) = of_le_bytes (window 36 4 page)"
  "io_data_offset (read_io page) = of_le_bytes (window 40 8 page)"
  by (simp_all add: read_io_def Let_def page_field_def round_up_def kvm_run_io_fields_def KVM_RUN_UNION_OFFSET_def)

lemma mmio_of:
  "mmio_phys_addr (read_mmio page) = of_le_bytes (window 32 8 page)" "mmio_data (read_mmio page) = window 40 8 page"
  "mmio_len (read_mmio page) = of_le_bytes (window 48 4 page)" "mmio_is_write (read_mmio page) = of_le_bytes (window 52 1 page)"
  by (simp_all add: read_mmio_def Let_def page_field_def round_up_def kvm_run_mmio_fields_def
      KVM_RUN_UNION_OFFSET_def c_array_def)

lemma of_le_bytes_1: "of_le_bytes [b] = (b :: u8)" "of_le_bytes [1] = (1 :: u8)"
  by (simp_all add: of_le_bytes_def)

lemma window_parts:
  "window 0 n ys = take n ys" "window b n ys = take n (drop b ys)"
  by (simp_all add: window_def)

lemmas page_windows = reason_of io_of mmio_of length_blit window_blit_inside window_blit_outside of_le_bytes_1

lemma describe_describes:
  assumes "64 \<le> length page"
  shows "describes (describe page e) e"
proof (cases e)
  case (ExitIoOut port v)
  then show ?thesis
    using assms by (simp add: describe_def describes_def page_windows nth_blit KVM_EXIT_IO_OUT_def)
      (simp add: window_def of_le_bytes_1 nth_blit length_blit)
next
  case (ExitMmioWrite a v)
  then show ?thesis using assms by (simp add: describe_def describes_def page_windows) (simp add: window_def of_le_bytes_1)
next
  case (ExitMmioRead a)
  then show ?thesis using assms by (simp add: describe_def describes_def page_windows) (simp add: window_def of_le_bytes_1)
next
  case ExitHlt
  then show ?thesis using assms by (simp add: describe_def describes_def page_windows) (simp add: window_def of_le_bytes_1)
qed

lemma ref_enter_faithful: "kvm_faithful ref_enter vcpu same_vcpu"
  unfolding kvm_faithful_def
proof (intro allI impI)
  fix k g page e g'
  assume "same_vcpu k g" "64 \<le> length page" and ex: "guest_exit (complete_load (load_value page) g) e g'"
  then have "ref_enter k vcpu (g_ram g) page = (Inr 0, 1, g', g_ram g', describe page e)"
    by (simp add: ref_enter_def same_vcpu_ram run_guest_exit [OF ex])
  then show "\<exists>rc t k' page'. ref_enter k vcpu (g_ram g) page = (Inr rc, t, k', g_ram g', page') \<and>
      same_vcpu k' g' \<and> length page' = length page \<and> describes page' e"
    using \<open>64 \<le> length page\<close> by (auto simp: same_vcpu_def length_describe describe_describes)
qed

text \<open>The same with a signal before every entry.\<close>

definition signalled_enter :: "(Guest \<times> bool) enter" where
  "signalled_enter k vcpu ram page =
     (case k of (g, pending) \<Rightarrow>
        if pending then (Inl EINTR, 0, (g, False), ram, page)
        else (case ref_enter g vcpu ram page of (r, t, g', ram', page') \<Rightarrow> (r, t, (g', True), ram', page')))"

lemma signalled_enter_documented:
  "kvm_documented True signalled_enter vcpu (\<lambda>k g. same_vcpu (fst k) g \<and> snd k)"
  unfolding kvm_documented_def
proof (intro allI impI)
  fix k :: "Guest \<times> bool" and g page e g'
  assume k: "same_vcpu (fst k) g \<and> snd k" and page: "64 \<le> length page" "length page < 2 ^ 63"
    and ex: "guest_exit (complete_load (load_value page) g) e g'"
  obtain h where h: "k = (h, True)" "same_vcpu h g" using k by (cases k) simp
  obtain rc t h' page' where en: "ref_enter h vcpu (g_ram g) page = (Inr rc, t, h', g_ram g', page')"
      "same_vcpu h' g'" "length page' = length page" "describes page' e"
    using ref_enter_faithful [unfolded kvm_faithful_def] h(2) page ex by blast
  have sig: "signalled_enter (h, False) vcpu (g_ram g) page = (Inr rc, t, (h', True), g_ram g', page')"
    using en(1) by (simp add: signalled_enter_def)
  have "reaches True signalled_enter vcpu (h, False) (g_ram g) page 0 0 (h', True) (g_ram g') page'"
    by (rule reaches.exited, rule sig)
  then have "reaches True signalled_enter vcpu k (g_ram g) page (Suc 0) 0 (h', True) (g_ram g') page'"
    by (intro reaches.eintr [OF TrueI]) (simp_all add: signalled_enter_def h(1))
  then show "\<exists>i j k' page'. reaches True signalled_enter vcpu k (g_ram g) page i j k' (g_ram g') page' \<and>
      (same_vcpu (fst k') g' \<and> snd k') \<and> length page' = length page \<and> describes page' e"
    using en(2-4) by (intro exI [of _ "Suc 0"] exI [of _ 0] exI [of _ "(h', True)"] exI [of _ page']) simp
qed

definition zero_segment :: kvm_segment where
  "zero_segment = \<lparr>seg_base = 0, seg_limit = 0, seg_selector = 0, seg_type = 0, seg_present = 0,
     seg_dpl = 0, seg_db = 0, seg_s = 0, seg_l = 0, seg_g = 0, seg_avl = 0, seg_unusable = 0, seg_padding = 0\<rparr>"

definition zero_dtable :: kvm_dtable where
  "zero_dtable = \<lparr>dt_base = 0, dt_limit = 0, dt_padding = [0, 0, 0]\<rparr>"

definition zero_sregs :: kvm_sregs where
  "zero_sregs = \<lparr>sr_cs = zero_segment, sr_ds = zero_segment, sr_es = zero_segment, sr_fs = zero_segment,
     sr_gs = zero_segment, sr_ss = zero_segment, sr_tr = zero_segment, sr_ldt = zero_segment,
     sr_gdt = zero_dtable, sr_idt = zero_dtable, sr_cr0 = 0, sr_cr2 = 0, sr_cr3 = 0, sr_cr4 = 0,
     sr_cr8 = 0, sr_efer = 0, sr_apic_base = 0, sr_interrupt_bitmap = [0, 0, 0, 0]\<rparr>"

definition ref_ret :: "int \<Rightarrow> Ret" where
  "ref_ret v = \<lparr>ret_val = v, ret_sregs = zero_sregs, ret_regs = kvm_regs_default\<rparr>"

text \<open>Answers by request: the API version, the capability, fresh descriptors, a page of 4096 bytes.\<close>

fun ref_os :: "Guest os" where
  "ref_os k OpenKvm = (Inr (ref_ret 3), k)"
| "ref_os k (IoctlVal fd req arg) =
     ((if req = KVM_GET_API_VERSION then Inr (ref_ret 12)
       else if req = KVM_CHECK_EXTENSION then Inr (ref_ret 1)
       else if req = KVM_CREATE_VM then Inr (ref_ret 4)
       else if req = KVM_CREATE_VCPU then Inr (ref_ret 5)
       else if req = KVM_GET_VCPU_MMAP_SIZE then Inr (ref_ret 4096)
       else if req = KVM_SET_TSS_ADDR then Inr (ref_ret 0)
       else Inl 25), k)"
| "ref_os k (IoctlSetRegs fd req regs) =
     (Inr (ref_ret 0), \<lparr>g_al = ucast (r_rax regs), g_dx = ucast (r_rdx regs), g_cx = ucast (r_rcx regs),
        g_rip = unat (r_rip regs), g_ram = [], g_loading = False\<rparr>)"
| "ref_os k (IoctlGetRegs fd req) =
     (Inr ((ref_ret 0)\<lparr>ret_regs := kvm_regs_default\<lparr>r_rax := ucast (g_al k), r_rcx := ucast (g_cx k),
        r_rdx := ucast (g_dx k), r_rip := word_of_nat (g_rip k)\<rparr>\<rparr>), k)"
| "ref_os k (MmapAnonymous n) = (Inr (ref_ret 65536), k)"
| "ref_os k (MmapShared fd n) = (Inr (ref_ret 131072), k)"
| "ref_os k c = (Inr (ref_ret 0), k)"

lemma ref_os_resets: "kvm_resets ref_os vcpu same_vcpu"
  by (simp add: kvm_resets_def set_real_mode_regs_def same_vcpu_def booted_def entry_regs_def kvm_regs_default_def)

definition ref_vm :: Vm where
  "ref_vm = \<lparr>vm_page = replicate 4096 0, vm_mem = replicate GUEST_RAM 0, vm_vcpu = 5, vm_vm = 4, vm_kvm = 3,
     vm_mem_size = GUEST_RAM\<rparr>"

lemma kvm_request_numbers:
  "KVM_GET_API_VERSION = 0xAE00" "KVM_CREATE_VM = 0xAE01" "KVM_CHECK_EXTENSION = 0xAE03"
  "KVM_GET_VCPU_MMAP_SIZE = 0xAE04" "KVM_CREATE_VCPU = 0xAE41" "KVM_SET_TSS_ADDR = 0xAE47" "KVM_RUN = 0xAE80"
  "KVM_SET_USER_MEMORY_REGION = 0x4020AE46" "KVM_GET_REGS = 0x8090AE81" "KVM_SET_REGS = 0x4090AE82"
  "KVM_GET_SREGS = 0x8138AE83" "KVM_SET_SREGS = 0x4138AE84"
  unfolding KVM_GET_API_VERSION_def KVM_CREATE_VM_def KVM_CHECK_EXTENSION_def KVM_GET_VCPU_MMAP_SIZE_def
    KVM_CREATE_VCPU_def KVM_SET_TSS_ADDR_def KVM_RUN_def KVM_SET_USER_MEMORY_REGION_def KVM_GET_REGS_def
    KVM_SET_REGS_def KVM_GET_SREGS_def KVM_SET_SREGS_def
  by (simp_all add: ioc_none_def iow_def ior_def ioc_consts layout_sizes word_unat_eq_iff unat_ioc)

lemma ref_vm_new: "vm_new ref_os k GUEST_RAM = (Ok ref_vm, k)"
  by (simp add: vm_new_def ref_vm_def kvm_request_numbers ref_ret_def EXPECTED_API_VERSION_def GUEST_RAM_def
      layout_sizes KVM_RUN_UNION_OFFSET_def)

end
