(* ===== verification/KvmBench.thy ===== *)
theory KvmBench
  imports KvmMain Samples
begin

text \<open>
  The benchmark of \<^verbatim>\<open>rung-01-kvm/toy-kvm-raw/src/main.rs\<close> around its rounds: the calibration of the timer,
  the percentiles, the file of samples and the command line. The clock is a parameter: \<open>clock i\<close> is
  the elapsed time that the calibration reads in its \<open>i\<close>-th iteration, and the samples of the run are
  those of \<open>enter\<close>. A file is its text; that it cannot be written is not modelled. What is printed of
  a run is in its report.
\<close>

section \<open>Statistics\<close>

definition calibrate_timer :: "(nat \<Rightarrow> u64) \<Rightarrow> nat \<Rightarrow> (DemoError, u64) outcome" where
  "calibrate_timer clock iters =
     (let v = sort (map clock [0 ..< iters])
      in if length v div 2 < length v then Ok (v ! (length v div 2)) else Panic)"

record Stats =
  sm_n :: nat
  sm_min :: u64
  sm_p50 :: u64
  sm_p90 :: u64
  sm_p99 :: u64
  sm_p999 :: u64
  sm_max :: u64

text \<open>\<^verbatim>\<open>Stats::from\<close> sorts the samples in place: the vector it was given is returned sorted.\<close>

definition stats_from :: "u64 list \<Rightarrow> (DemoError, Stats \<times> u64 list) outcome" where
  "stats_from samples =
     (if samples = [] then Panic
      else let v = sort samples
        in Ok (\<lparr>sm_n = length v, sm_min = v ! 0, sm_p50 = quantile P50 v, sm_p90 = quantile P90 v,
                sm_p99 = quantile P99 v, sm_p999 = quantile P999 v, sm_max = v ! (length v - 1)\<rparr>, v))"

section \<open>The file of samples\<close>

definition write_csv :: "u64 \<Rightarrow> u64 list \<Rightarrow> string" where
  "write_csv timer_ns timings =
     unlines (''kind,index,ns'' # csv_row ''timer_overhead_median'' 0 timer_ns # csv_rows ''vmexit_io'' timings)"

section \<open>The benchmark\<close>

record BenchReport =
  br_timer_ns :: u64
  br_interrupted :: u64
  br_stats :: Stats
  br_file :: "(string \<times> string) option"

definition run_bench :: "'k os \<Rightarrow> 'k enter \<Rightarrow> (nat \<Rightarrow> u64) \<Rightarrow> 'k \<Rightarrow> u32 \<Rightarrow> string option
    \<Rightarrow> ((DemoError, BenchReport) outcome \<times> 'k) option" where
  "run_bench os enter clock k0 samples out_path =
     (case calibrate_timer clock 10000 of
        Err e \<Rightarrow> Some (Err e, k0)
      | Panic \<Rightarrow> Some (Panic, k0)
      | Ok timer_ns \<Rightarrow>
     (case vm_new os k0 GUEST_RAM of
        (Err e, k) \<Rightarrow> Some (Err (VmmFailed e), k)
      | (Panic, k) \<Rightarrow> Some (Panic, k)
      | (Ok vm, k1) \<Rightarrow>
     (case bench_rounds os enter k1 vm devices_default [] samples 0 of
        None \<Rightarrow> None
      | Some (Err e, k, vm2, d) \<Rightarrow> Some (Err (VmmFailed e), k)
      | Some (Panic, k, vm2, d) \<Rightarrow> Some (Panic, k)
      | Some (Ok (timings, interrupted), k2, vm2, d) \<Rightarrow>
     (case stats_from timings of
        Err e \<Rightarrow> Some (Err e, k2)
      | Panic \<Rightarrow> Some (Panic, k2)
      | Ok (stats, sorted_timings) \<Rightarrow>
          Some (Ok \<lparr>br_timer_ns = timer_ns, br_interrupted = interrupted, br_stats = stats,
              br_file = (case out_path of
                 None \<Rightarrow> None
               | Some path \<Rightarrow> Some (path, write_csv timer_ns sorted_timings))\<rparr>, k2)))))"

section \<open>The command line\<close>

definition DEFAULT_SAMPLES :: u32 where "DEFAULT_SAMPLES = 200000"

record KvmArgs =
  ka_bench :: bool
  ka_samples :: u32
  ka_out_path :: "string option"

definition kvm_args_default :: KvmArgs where
  "kvm_args_default = \<lparr>ka_bench = False, ka_samples = DEFAULT_SAMPLES, ka_out_path = None\<rparr>"

text \<open>The loop over the arguments; \<^verbatim>\<open>--bench\<close> takes the next one when it is a number.\<close>

function (sequential) kvm_args :: "KvmArgs \<Rightarrow> string list \<Rightarrow> KvmArgs command_line" where
  "kvm_args a [] = Run a"
| "kvm_args a (arg # rest) =
     (if arg = ''--bench'' then
        (case (case rest of [] \<Rightarrow> None | s # _ \<Rightarrow> parse_below (2 ^ 32) s) of
           Some n \<Rightarrow> kvm_args (a\<lparr>ka_bench := True, ka_samples := word_of_nat n\<rparr>) (tl rest)
         | None \<Rightarrow> kvm_args (a\<lparr>ka_bench := True\<rparr>) rest)
      else if arg = ''--out'' then
        kvm_args (a\<lparr>ka_out_path := (case rest of [] \<Rightarrow> None | s # _ \<Rightarrow> Some s)\<rparr>) (tl rest)
      else if arg = ''-h'' \<or> arg = ''--help'' then Usage
      else UnknownArgument arg)"
  by pat_completeness auto

termination kvm_args
  by (relation "measure (length \<circ> snd)") auto

text \<open>\<^verbatim>\<open>main\<close>: the demo always, then the benchmark when asked for.\<close>

definition kvm_main :: "'k os \<Rightarrow> 'k enter \<Rightarrow> (nat \<Rightarrow> u64) \<Rightarrow> 'k \<Rightarrow> string list
    \<Rightarrow> ((DemoError, BenchReport option) outcome command_line \<times> 'k) option" where
  "kvm_main os enter clock k0 argv =
     (case kvm_args kvm_args_default argv of
        Usage \<Rightarrow> Some (Usage, k0)
      | UnknownArgument arg \<Rightarrow> Some (UnknownArgument arg, k0)
      | Run a \<Rightarrow>
     (case kvm_demo os enter k0 of
        None \<Rightarrow> None
      | Some (Err e, k1) \<Rightarrow> Some (Run (Err e), k1)
      | Some (Panic, k1) \<Rightarrow> Some (Run Panic, k1)
      | Some (Ok _, k1) \<Rightarrow>
          if \<not> ka_bench a then Some (Run (Ok None), k1)
          else (case run_bench os enter clock k1 (ka_samples a) (ka_out_path a) of
             None \<Rightarrow> None
           | Some (Err e, k2) \<Rightarrow> Some (Run (Err e), k2)
           | Some (Panic, k2) \<Rightarrow> Some (Run Panic, k2)
           | Some (Ok report, k2) \<Rightarrow> Some (Run (Ok (Some report)), k2))))"

section \<open>Percentiles of a run\<close>

lemma calibrate_timer_ok: "0 < iters \<Longrightarrow> \<exists>t. calibrate_timer clock iters = Ok t"
  by (simp add: calibrate_timer_def Let_def)

text \<open>What the percentiles of a sample set promise.\<close>

definition summarises :: "Stats \<Rightarrow> u64 list \<Rightarrow> bool" where
  "summarises st xs \<longleftrightarrow> sm_n st = length xs \<and>
     sm_min st \<le> sm_p50 st \<and> sm_p50 st \<le> sm_p90 st \<and> sm_p90 st \<le> sm_p99 st \<and> sm_p99 st \<le> sm_p999 st \<and>
     sm_p999 st \<le> sm_max st \<and> {sm_min st, sm_p50 st, sm_p90 st, sm_p99 st, sm_p999 st, sm_max st} \<subseteq> set xs \<and>
     (\<forall>x \<in> set xs. sm_min st \<le> x \<and> x \<le> sm_max st) \<and> sm_p50 st = sort xs ! (length xs div 2)"

lemma stats_from_summarises:
  assumes "xs \<noteq> []" "length xs \<le> 2 ^ 53"
  obtains st where "stats_from xs = Ok (st, sort xs)" "summarises st xs"
proof -
  let ?v = "sort xs"
  let ?st = "\<lparr>sm_n = length ?v, sm_min = ?v ! 0, sm_p50 = quantile P50 ?v, sm_p90 = quantile P90 ?v,
    sm_p99 = quantile P99 ?v, sm_p999 = quantile P999 ?v, sm_max = ?v ! (length ?v - 1)\<rparr>"
  have "stats_from xs = Ok (?st, ?v)" using assms(1) by (simp add: stats_from_def Let_def)
  moreover have "summarises ?st xs"
    using percentiles_ordered [OF assms] unfolding summarises_def by simp
  ultimately show thesis by (rule that)
qed

section \<open>A run of the benchmark\<close>

text \<open>The file of samples reads back: the median of the calibration, then the samples.\<close>

lemma read_write_csv:
  assumes "length timings < 2 ^ 64"
  shows "read_samples (write_csv timer_ns timings) =
    Some (''timer_overhead_median'', 0, unat timer_ns) #
      map (\<lambda>(i, ns). Some (''vmexit_io'', i, unat ns)) (enumerate 0 timings)"
proof -
  have keys: "plain_key ''timer_overhead_median''" "plain_key ''vmexit_io''"
    by (simp_all add: plain_key_def newline_def char_of_def)
  have "newline \<notin> set ''kind,index,ns''" by (simp add: newline_def char_of_def)
  then show ?thesis
    using keys csv_rows_one_line [OF keys(2)] csv_row_one_line [OF keys(1)] assms
    by (simp add: write_csv_def read_samples_unlines read_csv_row read_csv_rows)
qed

lemma run_bench_empty: "calibrate_timer clock 10000 = Ok t \<Longrightarrow> vm_new os k0 GUEST_RAM = (Ok vm, k1) \<Longrightarrow>
    run_bench os enter clock k0 0 out = Some (Panic, k1)"
  by (simp add: run_bench_def bench_rounds.simps stats_from_def)

lemma run_bench_ok:
  assumes new: "vm_new os k0 GUEST_RAM = (Ok vm, k1)"
    and page: "64 \<le> length (vm_page vm)" "length (vm_page vm) < 2 ^ 63"
    and faithful: "kvm_faithful enter (vm_vcpu vm) R" and resets: "kvm_resets os (vm_vcpu vm) R"
    and n: "0 < samples"
  shows "\<exists>report timings k2. run_bench os enter clock k0 samples out = Some (Ok report, k2) \<and>
    length timings = unat samples \<and> br_interrupted report = 0 \<and> summarises (br_stats report) timings \<and>
    br_file report = map_option (\<lambda>path. (path, write_csv (br_timer_ns report) (sort timings))) out"
proof -
  note shape = vm_new_shape [OF new]
  obtain t where t: "calibrate_timer clock 10000 = Ok t"
    using calibrate_timer_ok [of 10000 clock] by auto
  obtain timings k2 vm2 d where rounds: "bench_rounds os enter k1 vm devices_default [] samples 0 =
      Some (Ok (timings, 0), k2, vm2, d)" "length timings = unat samples"
    using bench_rounds_collect [OF faithful resets _ _ page, of k1 devices_default "[]" samples 0] shape by auto
  have "timings \<noteq> []" using rounds(2) n by (auto simp: word_less_nat_alt)
  moreover have "length timings \<le> 2 ^ 53"
    using rounds(2) less_imp_le [OF unat_u32_lt [of samples]] by simp
  ultimately obtain st where st: "stats_from timings = Ok (st, sort timings)" "summarises st timings"
    by (rule stats_from_summarises)
  show ?thesis
    using rounds(2) st(2)
    by (intro exI [of _ "\<lparr>br_timer_ns = t, br_interrupted = 0, br_stats = st,
          br_file = map_option (\<lambda>path. (path, write_csv t (sort timings))) out\<rparr>"] exI [of _ timings] exI [of _ k2])
       (simp add: run_bench_def t new rounds(1) st(1) option.case_eq_if map_option_case split: option.split)
qed

text \<open>The command line that asks for \<open>n\<close> samples and a file.\<close>

lemma kvm_args_bench:
  assumes "n < 2 ^ 32"
  shows "kvm_args a [''--bench'', decimal n, ''--out'', path] =
    Run (a\<lparr>ka_bench := True, ka_samples := word_of_nat n, ka_out_path := Some path\<rparr>)"
  using assms by (simp add: parse_decimal)

section \<open>A run of the program\<close>

text \<open>A kernel on which machines can be made and behave as documented, whatever happened before.\<close>

definition kvm_ready :: "'k os \<Rightarrow> 'k enter \<Rightarrow> bool" where
  "kvm_ready os enter \<longleftrightarrow>
     (\<forall>k0. \<exists>vm k1 R. vm_new os k0 GUEST_RAM = (Ok vm, k1) \<and> 64 \<le> length (vm_page vm) \<and> length (vm_page vm) < 2 ^ 63 \<and>
        kvm_faithful enter (vm_vcpu vm) R \<and> kvm_resets os (vm_vcpu vm) R \<and>
        (\<forall>k. \<exists>r k'. os k (IoctlGetRegs (vm_vcpu vm) KVM_GET_REGS) = (Inr r, k')))"

lemma kvm_readyE:
  assumes "kvm_ready os enter"
  obtains vm k1 R where "vm_new os k0 GUEST_RAM = (Ok vm, k1)" "64 \<le> length (vm_page vm)" "length (vm_page vm) < 2 ^ 63"
    "kvm_faithful enter (vm_vcpu vm) R" "kvm_resets os (vm_vcpu vm) R"
    "\<And>k. \<exists>r k'. os k (IoctlGetRegs (vm_vcpu vm) KVM_GET_REGS) = (Inr r, k')"
  using assms unfolding kvm_ready_def by meson

lemma kvm_demo_ready:
  assumes "kvm_ready os enter"
  obtains r k1 where "kvm_demo os enter k0 = Some (Ok r, k1)"
proof -
  obtain vm k1 R where v: "vm_new os k0 GUEST_RAM = (Ok vm, k1)" "64 \<le> length (vm_page vm)" "length (vm_page vm) < 2 ^ 63"
      "kvm_faithful enter (vm_vcpu vm) R" "kvm_resets os (vm_vcpu vm) R"
      "\<And>k. \<exists>r k'. os k (IoctlGetRegs (vm_vcpu vm) KVM_GET_REGS) = (Inr r, k')"
    using kvm_readyE [OF assms, where ?k0.0 = k0] by metis
  then show thesis using demo_succeeds [OF v] that by blast
qed

lemma kvm_main_bench:
  assumes "kvm_ready os enter" "0 < n" "n < 2 ^ 32"
  shows "\<exists>report timings k. kvm_main os enter clock k0 [''--bench'', decimal n, ''--out'', path] =
      Some (Run (Ok (Some report)), k) \<and>
    length timings = n \<and> br_interrupted report = 0 \<and> summarises (br_stats report) timings \<and>
    br_file report = Some (path, write_csv (br_timer_ns report) (sort timings))"
proof -
  obtain r k1 where demo: "kvm_demo os enter k0 = Some (Ok r, k1)" by (rule kvm_demo_ready [OF assms(1)])
  obtain vm k2 R where v: "vm_new os k1 GUEST_RAM = (Ok vm, k2)" "64 \<le> length (vm_page vm)" "length (vm_page vm) < 2 ^ 63"
      "kvm_faithful enter (vm_vcpu vm) R" "kvm_resets os (vm_vcpu vm) R"
    using kvm_readyE [OF assms(1), where ?k0.0 = k1] by metis
  have n: "unat (word_of_nat n :: u32) = n" using assms(3) by (intro unat_of_nat_u32) simp
  then have "0 < (word_of_nat n :: u32)" using assms(2) by (simp add: word_less_nat_alt)
  from run_bench_ok [OF v this, of clock "Some path"]
  obtain report timings k3 where b: "run_bench os enter clock k1 (word_of_nat n) (Some path) = Some (Ok report, k3)"
      "length timings = n" "br_interrupted report = 0" "summarises (br_stats report) timings"
      "br_file report = Some (path, write_csv (br_timer_ns report) (sort timings))"
    unfolding n by auto
  have "kvm_main os enter clock k0 [''--bench'', decimal n, ''--out'', path] = Some (Run (Ok (Some report)), k3)"
    using demo b(1) kvm_args_bench [OF assms(3)] by (simp add: kvm_main_def del: kvm_args.simps)
  then show ?thesis using b(2-5) by blast
qed

text \<open>No samples: the statistics panic.\<close>

lemma kvm_main_no_samples:
  assumes "kvm_ready os enter"
  shows "\<exists>k. kvm_main os enter clock k0 [''--bench'', ''0''] = Some (Run Panic, k)"
proof -
  obtain r k1 where demo: "kvm_demo os enter k0 = Some (Ok r, k1)" by (rule kvm_demo_ready [OF assms])
  obtain vm k2 R where v: "vm_new os k1 GUEST_RAM = (Ok vm, k2)"
    using kvm_readyE [OF assms, where ?k0.0 = k1] by metis
  obtain t where t: "calibrate_timer clock 10000 = Ok t" using calibrate_timer_ok [of 10000 clock] by auto
  have "parse_below (2 ^ 32) ''0'' = Some 0"
    by (simp add: parse_below_def Let_def is_digit_def digits_value_def)
  then have "kvm_args kvm_args_default [''--bench'', ''0''] = Run (kvm_args_default\<lparr>ka_bench := True, ka_samples := 0\<rparr>)"
    by simp
  then show ?thesis
    using demo run_bench_empty [OF t v] by (simp add: kvm_main_def del: kvm_args.simps)
qed

lemma ref_kvm_ready: "kvm_ready ref_os ref_enter"
  unfolding kvm_ready_def
proof (intro allI)
  fix k0
  have "64 \<le> length (vm_page ref_vm)" "length (vm_page ref_vm) < 2 ^ 63" by (simp_all add: ref_vm_def)
  then show "\<exists>vm k1 R. vm_new ref_os k0 GUEST_RAM = (Ok vm, k1) \<and> 64 \<le> length (vm_page vm) \<and> length (vm_page vm) < 2 ^ 63 \<and>
      kvm_faithful ref_enter (vm_vcpu vm) R \<and> kvm_resets ref_os (vm_vcpu vm) R \<and>
      (\<forall>k. \<exists>r k'. ref_os k (IoctlGetRegs (vm_vcpu vm) KVM_GET_REGS) = (Inr r, k'))"
    by (intro exI [of _ ref_vm] exI [of _ k0] exI [of _ same_vcpu])
       (simp add: ref_vm_new ref_enter_faithful ref_os_resets)
qed

end
