(* ===== verification/KvmCrates.thy ===== *)
theory KvmCrates
  imports KvmMain
begin

text \<open>
  The monitor of \<^verbatim>\<open>rung-01-kvm/toy-kvm-crates/src/main.rs\<close>, which boots the same guest through
  \<^verbatim>\<open>kvm-ioctls\<close> and \<^verbatim>\<open>vm-memory\<close>. The crates are a parameter, one function per call the program makes, on a
  state that holds the kernel and the guest's memory; the program has one machine, one memory and
  one vCPU, so the calls name no handles. \<open>crate_documented\<close> states what the program uses of the crates'
  documentation, and under it the port and the raw monitor end with the same devices after the same
  number of exits. The guest programs and the devices are the raw crate's own.
\<close>

section \<open>The crates\<close>

datatype VcpuExit =
    VcpuIoOut u16 "u8 list"
  | VcpuIoIn u16 "u8 list"
  | VcpuMmioWrite u64 "u8 list"
  | VcpuMmioRead u64 "u8 list"
  | VcpuHlt
  | VcpuOther string

text \<open>
  \<open>kc_answer\<close> is the store through the mutable slice that an exit of the two reading kinds carries.
\<close>

record 'c KvmCrate =
  kc_kvm_new :: "'c \<Rightarrow> (int + unit) \<times> 'c"
  kc_create_vm :: "'c \<Rightarrow> (int + unit) \<times> 'c"
  kc_set_tss_address :: "u64 \<Rightarrow> 'c \<Rightarrow> (int + unit) \<times> 'c"
  kc_from_ranges :: "(u64 \<times> nat) list \<Rightarrow> 'c \<Rightarrow> (int + unit) \<times> 'c"
  kc_regions :: "'c \<Rightarrow> (u64 \<times> u64) list"
  kc_host_address :: "u64 \<Rightarrow> 'c \<Rightarrow> int + u64"
  kc_set_user_memory_region :: "kvm_userspace_memory_region \<Rightarrow> 'c \<Rightarrow> (int + unit) \<times> 'c"
  kc_write_slice :: "u8 list \<Rightarrow> u64 \<Rightarrow> 'c \<Rightarrow> (int + unit) \<times> 'c"
  kc_create_vcpu :: "u64 \<Rightarrow> 'c \<Rightarrow> (int + unit) \<times> 'c"
  kc_get_sregs :: "'c \<Rightarrow> (int + kvm_sregs) \<times> 'c"
  kc_set_sregs :: "kvm_sregs \<Rightarrow> 'c \<Rightarrow> (int + unit) \<times> 'c"
  kc_get_regs :: "'c \<Rightarrow> (int + kvm_regs) \<times> 'c"
  kc_set_regs :: "kvm_regs \<Rightarrow> 'c \<Rightarrow> (int + unit) \<times> 'c"
  kc_run :: "'c \<Rightarrow> (int + VcpuExit) \<times> 'c"
  kc_answer :: "u8 list \<Rightarrow> 'c \<Rightarrow> 'c"

datatype PortError =
    CrateError int
  | UnhandledVcpuExit string
  | PortOutputDiffers
  | PortUndescribedAccesses

section \<open>Bringing the machine up\<close>

text \<open>Every region is handed to KVM, numbered by slot.\<close>

fun set_regions :: "'c KvmCrate \<Rightarrow> nat \<Rightarrow> (u64 \<times> u64) list \<Rightarrow> 'c \<Rightarrow> (int + unit) \<times> 'c" where
  "set_regions cr slot [] c = (Inr (), c)"
| "set_regions cr slot ((start, len) # regions) c =
     (case kc_host_address cr start c of
        Inl e \<Rightarrow> (Inl e, c)
      | Inr host \<Rightarrow>
        (case kc_set_user_memory_region cr
            \<lparr>mr_slot = word_of_nat slot, mr_flags = 0, mr_guest_phys_addr = start, mr_memory_size = len,
             mr_userspace_addr = host\<rparr> c of
           (Inl e, c1) \<Rightarrow> (Inl e, c1)
         | (Inr _, c1) \<Rightarrow> set_regions cr (Suc slot) regions c1))"

definition port_setup :: "'c KvmCrate \<Rightarrow> 'c \<Rightarrow> (int + unit) \<times> 'c" where
  "port_setup cr c0 =
     (case kc_kvm_new cr c0 of (Inl e, c) \<Rightarrow> (Inl e, c) | (Inr _, c1) \<Rightarrow>
     (case kc_create_vm cr c1 of (Inl e, c) \<Rightarrow> (Inl e, c) | (Inr _, c2) \<Rightarrow>
     (case kc_set_tss_address cr TSS_ADDR c2 of (Inl e, c) \<Rightarrow> (Inl e, c) | (Inr _, c3) \<Rightarrow>
     (case kc_from_ranges cr [(0, GUEST_RAM)] c3 of (Inl e, c) \<Rightarrow> (Inl e, c) | (Inr _, c4) \<Rightarrow>
     (case set_regions cr 0 (kc_regions cr c4) c4 of (Inl e, c) \<Rightarrow> (Inl e, c) | (Inr _, c5) \<Rightarrow>
      kc_write_slice cr DEMO_PROGRAM LOAD_ADDR c5)))))"

definition port_registers :: "'c KvmCrate \<Rightarrow> 'c \<Rightarrow> (int + unit) \<times> 'c" where
  "port_registers cr c0 =
     (case kc_create_vcpu cr 0 c0 of (Inl e, c) \<Rightarrow> (Inl e, c) | (Inr _, c1) \<Rightarrow>
     (case kc_get_sregs cr c1 of (Inl e, c) \<Rightarrow> (Inl e, c) | (Inr sregs, c2) \<Rightarrow>
     (case kc_set_sregs cr (flatten_segments sregs) c2 of (Inl e, c) \<Rightarrow> (Inl e, c) | (Inr _, c3) \<Rightarrow>
     (case kc_get_regs cr c3 of (Inl e, c) \<Rightarrow> (Inl e, c) | (Inr regs, c4) \<Rightarrow>
      kc_set_regs cr (regs\<lparr>r_rip := LOAD_ADDR, r_rflags := 0x2\<rparr>) c4))))"

section \<open>The run loop\<close>

partial_function (option) port_loop :: "'c KvmCrate \<Rightarrow> 'c \<Rightarrow> Devices \<Rightarrow> u64
    \<Rightarrow> ((PortError, u64 \<times> Devices) outcome \<times> 'c) option" where
  "port_loop cr c d exits =
     (case kc_run cr c of
        (Inl e, c1) \<Rightarrow> Some (Err (CrateError e), c1)
      | (Inr x, c1) \<Rightarrow>
        (case x of
           VcpuIoOut port data \<Rightarrow> port_loop cr c1 (pio_write d port data) (exits + 1)
         | VcpuIoIn port data \<Rightarrow>
             (case pio_read d port data of
                (d1, data1) \<Rightarrow> port_loop cr (kc_answer cr data1 c1) d1 (exits + 1))
         | VcpuMmioWrite addr data \<Rightarrow>
             if \<not> owns_mmio addr then Some (Panic, c1)
             else port_loop cr c1 (mmio_write d addr data) (exits + 1)
         | VcpuMmioRead addr data \<Rightarrow>
             if \<not> owns_mmio addr then Some (Panic, c1)
             else (case mmio_read d addr data of
                (d1, data1) \<Rightarrow> port_loop cr (kc_answer cr data1 c1) d1 (exits + 1))
         | VcpuHlt \<Rightarrow> Some (Ok (exits + 1, d), c1)
         | VcpuOther name \<Rightarrow> Some (Err (UnhandledVcpuExit name), c1)))"

definition port_main :: "'c KvmCrate \<Rightarrow> 'c \<Rightarrow> ((PortError, u64 \<times> Devices) outcome \<times> 'c) option" where
  "port_main cr c0 =
     (case port_setup cr c0 of
        (Inl e, c) \<Rightarrow> Some (Err (CrateError e), c)
      | (Inr _, c1) \<Rightarrow>
     (case port_registers cr c1 of
        (Inl e, c) \<Rightarrow> Some (Err (CrateError e), c)
      | (Inr _, c2) \<Rightarrow>
     (case port_loop cr c2 devices_default 0 of
        Some (Ok (exits, devices), c3) \<Rightarrow>
          if serial_out devices \<noteq> DEMO_EXPECTED_OUTPUT then Some (Err PortOutputDiffers, c3)
          else if unhandled devices \<noteq> 0 then Some (Err PortUndescribedAccesses, c3)
          else Some (Ok (exits, devices), c3)
      | r \<Rightarrow> r)))"

section \<open>What the crates document\<close>

text \<open>
  What a state of the crates holds: the guest's memory, whether it is registered with KVM, the
  segment registers, and the guest that the next entry resumes.
\<close>

record 'c CrateView =
  cv_ram :: "'c \<Rightarrow> u8 list"
  cv_mapped :: "'c \<Rightarrow> bool"
  cv_segments :: "'c \<Rightarrow> kvm_sregs"
  cv_runs :: "'c \<Rightarrow> Guest \<Rightarrow> bool"

definition same_machine :: "'c CrateView \<Rightarrow> 'c \<Rightarrow> 'c \<Rightarrow> bool" where
  "same_machine v c c' \<longleftrightarrow> cv_ram v c' = cv_ram v c \<and> cv_mapped v c' = cv_mapped v c \<and> cv_segments v c' = cv_segments v c"

definition entry_guest :: "kvm_regs \<Rightarrow> u8 list \<Rightarrow> Guest" where
  "entry_guest r ram = started (ucast (r_rax r)) (ucast (r_rdx r)) (ucast (r_rcx r)) ram"

definition setup_documented :: "'c KvmCrate \<Rightarrow> 'c CrateView \<Rightarrow> bool" where
  "setup_documented cr v \<longleftrightarrow>
     (\<forall>c. \<exists>c'. kc_kvm_new cr c = (Inr (), c')) \<and> (\<forall>c. \<exists>c'. kc_create_vm cr c = (Inr (), c')) \<and>
     (\<forall>a c. \<exists>c'. kc_set_tss_address cr a c = (Inr (), c')) \<and>
     (\<forall>n c. \<exists>c'. kc_from_ranges cr [(0, n)] c = (Inr (), c') \<and> kc_regions cr c' = [(0, word_of_nat n)] \<and>
        cv_ram v c' = replicate n 0 \<and> (\<exists>h. kc_host_address cr 0 c' = Inr h)) \<and>
     (\<forall>mr c. \<exists>c'. kc_set_user_memory_region cr mr c = (Inr (), c') \<and> cv_ram v c' = cv_ram v c \<and>
        (mr_guest_phys_addr mr = 0 \<and> mr_memory_size mr = word_of_nat (length (cv_ram v c)) \<and>
         kc_host_address cr 0 c = Inr (mr_userspace_addr mr) \<longrightarrow> cv_mapped v c')) \<and>
     (\<forall>bytes a c. unat a + length bytes \<le> length (cv_ram v c) \<longrightarrow>
        (\<exists>c'. kc_write_slice cr bytes a c = (Inr (), c') \<and> cv_ram v c' = blit (unat a) bytes (cv_ram v c) \<and>
          cv_mapped v c' = cv_mapped v c))"

definition registers_documented :: "'c KvmCrate \<Rightarrow> 'c CrateView \<Rightarrow> bool" where
  "registers_documented cr v \<longleftrightarrow>
     (\<forall>i c. \<exists>c'. kc_create_vcpu cr i c = (Inr (), c') \<and> cv_ram v c' = cv_ram v c \<and> cv_mapped v c' = cv_mapped v c) \<and>
     (\<forall>c. \<exists>c'. kc_get_sregs cr c = (Inr (cv_segments v c), c') \<and> same_machine v c c') \<and>
     (\<forall>s c. \<exists>c'. kc_set_sregs cr s c = (Inr (), c') \<and> cv_ram v c' = cv_ram v c \<and> cv_mapped v c' = cv_mapped v c \<and>
        cv_segments v c' = s) \<and>
     (\<forall>c. \<exists>r c'. kc_get_regs cr c = (Inr r, c') \<and> same_machine v c c') \<and>
     (\<forall>r c. \<exists>c'. kc_set_regs cr r c = (Inr (), c') \<and>
        (cv_mapped v c \<and> flatten_segments (cv_segments v c) = cv_segments v c \<and> r_rip r = LOAD_ADDR \<and> r_rflags r = 2 \<longrightarrow>
          cv_runs v c' (entry_guest r (cv_ram v c))))"

text \<open>An exit of the guest as \<^verbatim>\<open>kvm-ioctls\<close> decodes it; the byte that a load will be given is arbitrary.\<close>

definition decodes :: "GuestExit \<Rightarrow> VcpuExit \<Rightarrow> bool" where
  "decodes e x \<longleftrightarrow>
     (case e of
        ExitIoOut port v \<Rightarrow> x = VcpuIoOut port [v]
      | ExitMmioWrite a v \<Rightarrow> x = VcpuMmioWrite (word_of_nat a) [v]
      | ExitMmioRead a \<Rightarrow> (\<exists>b. x = VcpuMmioRead (word_of_nat a) [b])
      | ExitHlt \<Rightarrow> x = VcpuHlt)"

definition runs_documented :: "'c KvmCrate \<Rightarrow> 'c CrateView \<Rightarrow> bool" where
  "runs_documented cr v \<longleftrightarrow>
     (\<forall>c g e g'. cv_runs v c g \<longrightarrow> guest_exit g e g' \<longrightarrow>
        (\<exists>x c'. kc_run cr c = (Inr x, c') \<and> decodes e x \<and>
           (if \<exists>a. e = ExitMmioRead a then \<forall>b. cv_runs v (kc_answer cr [b] c') (complete_load b g')
            else cv_runs v c' g')))"

definition crate_documented :: "'c KvmCrate \<Rightarrow> 'c CrateView \<Rightarrow> bool" where
  "crate_documented cr v \<longleftrightarrow> setup_documented cr v \<and> registers_documented cr v \<and> runs_documented cr v"

section \<open>The loop of the port\<close>

lemma mmio_read_one: "\<exists>w. mmio_read d a [b] = (fst (mmio_read d a [0]), [w]) \<and> w = snd (mmio_read d a [0]) ! 0"
  by (simp add: mmio_read_def Let_def)

text \<open>One exit: the port answers as the device does and resumes the guest that the answer gives.\<close>

lemma port_loop_exit:
  assumes "guest_exit g e g1" "\<not> g_loading g" "answer e d = Some (d1, w)" "cv_runs v c g" "runs_documented cr v"
  obtains c1 where "port_loop cr c d n = port_loop cr c1 d1 (n + 1)" "cv_runs v c1 (complete_load w g1)"
proof -
  obtain x c' where r: "kc_run cr c = (Inr x, c')" "decodes e x"
      "if \<exists>a. e = ExitMmioRead a then \<forall>b. cv_runs v (kc_answer cr [b] c') (complete_load b g1) else cv_runs v c' g1"
    using assms(1,4,5) unfolding runs_documented_def by blast
  have load: "g_loading g1 \<longleftrightarrow> (\<exists>a. e = ExitMmioRead a)" by (rule guest_exit_loading [OF assms(1,2)])
  show thesis
  proof (cases e)
    case (ExitMmioRead a)
    then obtain b where x: "x = VcpuMmioRead (word_of_nat a) [b]" using r(2) by (auto simp: decodes_def)
    have own: "owns_mmio (word_of_nat a)" and d1: "d1 = fst (mmio_read d (word_of_nat a) [0])"
        "w = snd (mmio_read d (word_of_nat a) [0]) ! 0"
      using assms(3) ExitMmioRead by (auto simp: answer_def split: if_splits prod.splits)
    have "mmio_read d (word_of_nat a) [b] = (d1, [w])"
      using mmio_read_one [of d "word_of_nat a" b] d1 by simp
    then have "port_loop cr c d n = port_loop cr (kc_answer cr [w] c') d1 (n + 1)"
      using r(1) x own by (simp add: port_loop.simps [of cr c])
    then show thesis using that r(3) ExitMmioRead by simp
  next
    case (ExitIoOut port b)
    then have "port_loop cr c d n = port_loop cr c' d1 (n + 1)" "cv_runs v c' (complete_load w g1)"
      using r load assms(3) by (simp_all add: decodes_def answer_def not_loading port_loop.simps [of cr c])
    then show thesis by (rule that)
  next
    case (ExitMmioWrite a b)
    then have "port_loop cr c d n = port_loop cr c' d1 (n + 1)" "cv_runs v c' (complete_load w g1)"
      using r load assms(3) by (auto simp: decodes_def answer_def not_loading port_loop.simps [of cr c] split: if_splits)
    then show thesis by (rule that)
  qed (use assms(3) in \<open>simp add: answer_def\<close>)
qed

lemma port_loop_runs:
  assumes "vm_runs g d ios mmios g' d'" "runs_documented cr v"
  shows "cv_runs v c g \<Longrightarrow> \<not> g_loading g \<Longrightarrow>
    \<exists>c'. port_loop cr c d n = Some (Ok (n + of_nat (ios + mmios + 1), d'), c')"
  using assms(1)
proof (induction arbitrary: c n rule: vm_runs.induct)
  case (halt g g' d)
  obtain x c' where "kc_run cr c = (Inr x, c')" "decodes ExitHlt x"
    using halt assms(2) unfolding runs_documented_def by blast
  then show ?case by (simp add: decodes_def port_loop.simps [of cr c])
next
  case (exit g e g1 d d1 w ios mmios g' d')
  obtain c1 where c1: "port_loop cr c d n = port_loop cr c1 d1 (n + 1)" "cv_runs v c1 (complete_load w g1)"
    by (rule port_loop_exit [OF exit.hyps(1) exit.prems(2) exit.hyps(2) exit.prems(1) assms(2)])
  have one: "is_io e + ios + (1 - is_io e + mmios) + 1 = Suc (ios + mmios + 1)"
    by (simp add: is_io_def split: GuestExit.split)
  obtain c' where "port_loop cr c1 d1 (n + 1) = Some (Ok (n + 1 + of_nat (ios + mmios + 1), d'), c')"
    using exit.IH [OF c1(2) complete_load_idle] by blast
  then show ?case unfolding c1(1) one by (simp add: add_ac)
qed

section \<open>The port boots the demo\<close>

lemma flatten_twice: "flatten_segments (flatten_segments s) = flatten_segments s"
  by (simp add: flatten_segments_def flat_def)

lemma port_setup_ok:
  assumes "setup_documented cr v"
  obtains c1 where "port_setup cr c0 = (Inr (), c1)" "holds_program (cv_ram v c1) DEMO_PROGRAM" "cv_mapped v c1"
proof -
  note law = assms [unfolded setup_documented_def]
  obtain a1 a2 a3 where a: "kc_kvm_new cr c0 = (Inr (), a1)" "kc_create_vm cr a1 = (Inr (), a2)"
      "kc_set_tss_address cr TSS_ADDR a2 = (Inr (), a3)"
    using law by meson
  obtain a4 h where a4: "kc_from_ranges cr [(0, GUEST_RAM)] a3 = (Inr (), a4)" "kc_regions cr a4 = [(0, word_of_nat GUEST_RAM)]"
      "cv_ram v a4 = replicate GUEST_RAM 0" "kc_host_address cr 0 a4 = Inr h"
    using law by meson
  let ?mr = "\<lparr>mr_slot = word_of_nat 0, mr_flags = 0, mr_guest_phys_addr = 0, mr_memory_size = word_of_nat GUEST_RAM,
    mr_userspace_addr = h\<rparr>"
  have "mr_guest_phys_addr ?mr = 0" "mr_memory_size ?mr = word_of_nat (length (cv_ram v a4))"
    "kc_host_address cr 0 a4 = Inr (mr_userspace_addr ?mr)"
    using a4(3,4) by simp_all
  then obtain a5 where a5: "kc_set_user_memory_region cr ?mr a4 = (Inr (), a5)" "cv_ram v a5 = cv_ram v a4" "cv_mapped v a5"
    using law by meson
  have fits: "unat LOAD_ADDR + length DEMO_PROGRAM \<le> length (cv_ram v a5)"
    using demo_program_length a5(2) a4(3) by (simp add: LOAD_ADDR_def GUEST_RAM_def)
  then obtain a6 where a6: "kc_write_slice cr DEMO_PROGRAM LOAD_ADDR a5 = (Inr (), a6)"
      "cv_ram v a6 = blit (unat LOAD_ADDR) DEMO_PROGRAM (cv_ram v a5)" "cv_mapped v a6 = cv_mapped v a5"
    using law by meson
  have "set_regions cr 0 (kc_regions cr a4) a4 = (Inr (), a5)" using a4(2,4) a5(1) by simp
  then have "port_setup cr c0 = (Inr (), a6)"
    using a a4(1) a6(1) by (simp add: port_setup_def)
  moreover have "holds_program (cv_ram v a6) DEMO_PROGRAM"
    using fits a6(2) a5(2) a4(3) by (simp add: holds_program_def length_blit window_blit_same)
  ultimately show thesis using that a6(3) a5(3) by simp
qed

lemma port_registers_ok:
  assumes "registers_documented cr v" "cv_mapped v c1"
  obtains c2 r where "port_registers cr c1 = (Inr (), c2)" "cv_runs v c2 (entry_guest r (cv_ram v c1))"
proof -
  note law = assms(1) [unfolded registers_documented_def]
  obtain a1 where a1: "kc_create_vcpu cr 0 c1 = (Inr (), a1)" "cv_ram v a1 = cv_ram v c1" "cv_mapped v a1 = cv_mapped v c1"
    using law by meson
  obtain a2 where a2: "kc_get_sregs cr a1 = (Inr (cv_segments v a1), a2)" "same_machine v a1 a2"
    using law by meson
  obtain a3 where a3: "kc_set_sregs cr (flatten_segments (cv_segments v a1)) a2 = (Inr (), a3)" "cv_ram v a3 = cv_ram v a2"
      "cv_mapped v a3 = cv_mapped v a2" "cv_segments v a3 = flatten_segments (cv_segments v a1)"
    using law by meson
  obtain r a4 where a4: "kc_get_regs cr a3 = (Inr r, a4)" "same_machine v a3 a4"
    using law by meson
  let ?r = "r\<lparr>r_rip := LOAD_ADDR, r_rflags := 2\<rparr>"
  have st: "cv_mapped v a4" "flatten_segments (cv_segments v a4) = cv_segments v a4" "r_rip ?r = LOAD_ADDR" "r_rflags ?r = 2"
    using a1 a2 a3 a4 assms(2) by (simp_all add: same_machine_def flatten_twice)
  have ram: "cv_ram v a4 = cv_ram v c1" using a1 a2 a3 a4 by (simp add: same_machine_def)
  obtain a5 where a5: "kc_set_regs cr ?r a4 = (Inr (), a5)" "cv_runs v a5 (entry_guest ?r (cv_ram v a4))"
    using law st by meson
  have "port_registers cr c1 = (Inr (), a5)"
    using a1(1) a2(1) a3(1) a4(1) a5(1) by (simp add: port_registers_def)
  then show thesis using a5(2) unfolding ram by (rule that)
qed

lemma port_main_ok:
  assumes "crate_documented cr v"
  shows "\<exists>c. port_main cr c0 = Some (Ok (9, demo_devices), c)"
proof -
  have docs: "setup_documented cr v" "registers_documented cr v" "runs_documented cr v"
    using assms by (simp_all add: crate_documented_def)
  obtain c1 where c1: "port_setup cr c0 = (Inr (), c1)" "holds_program (cv_ram v c1) DEMO_PROGRAM" "cv_mapped v c1"
    by (rule port_setup_ok [OF docs(1)])
  obtain c2 r where c2: "port_registers cr c1 = (Inr (), c2)" "cv_runs v c2 (entry_guest r (cv_ram v c1))"
    by (rule port_registers_ok [OF docs(2) c1(3)])
  obtain g' where runs: "vm_runs (entry_guest r (cv_ram v c1)) devices_default 6 2 g' demo_devices"
    using demo_runs_from [OF c1(2)] unfolding entry_guest_def by blast
  have idle: "\<not> g_loading (entry_guest r (cv_ram v c1))" by (simp add: entry_guest_def started_def)
  obtain c3 where "port_loop cr c2 devices_default 0 = Some (Ok (9, demo_devices), c3)"
    using port_loop_runs [OF runs docs(3) c2(2) idle, of 0] by auto
  then show ?thesis
    using c1(1) c2(1) by (simp add: port_main_def demo_devices_def)
qed

section \<open>Reference crates\<close>

text \<open>
  The crates over the interpreter of \<open>KvmMain\<close>. The state is the guest with its RAM, and what has been
  set up.
\<close>

record RefCrate =
  rc_guest :: Guest
  rc_mapped :: bool
  rc_segments :: kvm_sregs

definition vcpu_exit :: "GuestExit \<Rightarrow> VcpuExit" where
  "vcpu_exit e =
     (case e of ExitIoOut port v \<Rightarrow> VcpuIoOut port [v] | ExitMmioWrite a v \<Rightarrow> VcpuMmioWrite (word_of_nat a) [v]
      | ExitMmioRead a \<Rightarrow> VcpuMmioRead (word_of_nat a) [0] | ExitHlt \<Rightarrow> VcpuHlt)"

definition ref_crate :: "RefCrate KvmCrate" where
  "ref_crate =
     \<lparr>kc_kvm_new = (\<lambda>c. (Inr (), c)), kc_create_vm = (\<lambda>c. (Inr (), c)), kc_set_tss_address = (\<lambda>a c. (Inr (), c)),
      kc_from_ranges = (\<lambda>rs c. (Inr (), c\<lparr>rc_guest := (rc_guest c)\<lparr>g_ram := replicate (snd (hd rs)) 0\<rparr>\<rparr>)),
      kc_regions = (\<lambda>c. [(0, word_of_nat (length (g_ram (rc_guest c))))]),
      kc_host_address = (\<lambda>a c. Inr (a + 0x10000)),
      kc_set_user_memory_region = (\<lambda>mr c. (Inr (), c\<lparr>rc_mapped := True\<rparr>)),
      kc_write_slice = (\<lambda>bytes a c.
        if unat a + length bytes \<le> length (g_ram (rc_guest c)) then
          (Inr (), c\<lparr>rc_guest := (rc_guest c)\<lparr>g_ram := blit (unat a) bytes (g_ram (rc_guest c))\<rparr>\<rparr>)
        else (Inl 14, c)),
      kc_create_vcpu = (\<lambda>i c. (Inr (), c)),
      kc_get_sregs = (\<lambda>c. (Inr (rc_segments c), c)),
      kc_set_sregs = (\<lambda>s c. (Inr (), c\<lparr>rc_segments := s\<rparr>)),
      kc_get_regs = (\<lambda>c. (Inr kvm_regs_default, c)),
      kc_set_regs = (\<lambda>r c. (Inr (), c\<lparr>rc_guest := entry_guest r (g_ram (rc_guest c))\<rparr>)),
      kc_run = (\<lambda>c. case run_guest (rc_guest c) of
          None \<Rightarrow> (Inl 5, c)
        | Some (e, g) \<Rightarrow> (Inr (vcpu_exit e), c\<lparr>rc_guest := g\<rparr>)),
      kc_answer = (\<lambda>data c. c\<lparr>rc_guest := complete_load (data ! 0) (rc_guest c)\<rparr>)\<rparr>"

definition ref_view :: "RefCrate CrateView" where
  "ref_view = \<lparr>cv_ram = (\<lambda>c. g_ram (rc_guest c)), cv_mapped = rc_mapped, cv_segments = rc_segments,
     cv_runs = (\<lambda>c g. rc_guest c = g)\<rparr>"

lemma ref_crate_documented: "crate_documented ref_crate ref_view"
proof -
  have "decodes e (vcpu_exit e)" for e by (simp add: decodes_def vcpu_exit_def split: GuestExit.split)
  then have "runs_documented ref_crate ref_view"
    unfolding runs_documented_def
    by (auto simp: ref_crate_def ref_view_def run_guest_exit)
  moreover have "setup_documented ref_crate ref_view" "registers_documented ref_crate ref_view"
    by (simp_all add: setup_documented_def registers_documented_def same_machine_def ref_crate_def ref_view_def)
  ultimately show ?thesis by (simp add: crate_documented_def)
qed

end
