(* ===== verification/KvmTeardown.thy ===== *)
theory KvmTeardown
  imports KvmVmm
begin

text \<open>
  The lifetime of what \<^verbatim>\<open>Vm::new\<close> of \<^verbatim>\<open>rung-01-kvm/toy-kvm-raw/src/vmm.rs\<close> acquires: three descriptors and two
  mappings. A \<open>Vm\<close> that is dropped releases its fields in the order of their declaration; an early return of
  \<^verbatim>\<open>Vm::new\<close> releases the locals that exist by then, the last one first. What the kernel handed out is
  recorded independently, by a wrapper around the system calls.
\<close>

section \<open>Releasing\<close>

datatype Resource = Fd fd | RamMapping nat | RunMapping fd nat

definition vm_drop :: "Vm \<Rightarrow> Resource list" where
  "vm_drop vm =
     [RunMapping (vm_vcpu vm) (length (vm_page vm)), RamMapping (vm_mem_size vm), Fd (vm_vcpu vm), Fd (vm_vm vm), Fd (vm_kvm vm)]"

text \<open>What a call of \<open>vm_new\<close> releases before it returns; nothing when it succeeds or panics.\<close>

definition vm_new_drops :: "'k os \<Rightarrow> 'k \<Rightarrow> nat \<Rightarrow> Resource list" where
  "vm_new_drops os k0 mem_size =
     (if \<not> (mem_size mod 4096 = 0 \<and> 0 < mem_size) then []
      else case os k0 OpenKvm of (Inl e, k) \<Rightarrow> [] | (Inr r, k1) \<Rightarrow>
      let kvm = ret_val r in
      (case os k1 (IoctlVal kvm KVM_GET_API_VERSION 0) of
        (Inl e, k) \<Rightarrow> [Fd kvm] | (Inr version, k2) \<Rightarrow>
      if ret_val version \<noteq> EXPECTED_API_VERSION then [Fd kvm]
      else case os k2 (IoctlVal kvm KVM_CHECK_EXTENSION KVM_CAP_USER_MEMORY) of
        (Inl e, k) \<Rightarrow> [Fd kvm] | (Inr has_user_mem, k3) \<Rightarrow>
      if ret_val has_user_mem = 0 then [Fd kvm]
      else case os k3 (IoctlVal kvm KVM_CREATE_VM 0) of
        (Inl e, k) \<Rightarrow> [Fd kvm] | (Inr vm_raw, k4) \<Rightarrow>
      let vm = ret_val vm_raw;
          (_, k5) = os k4 (IoctlVal vm KVM_SET_TSS_ADDR TSS_ADDR) in
      (case os k5 (MmapAnonymous mem_size) of
        (Inl e, k) \<Rightarrow> [Fd vm, Fd kvm] | (Inr mem, k6) \<Rightarrow>
      let region = \<lparr>mr_slot = 0, mr_flags = 0, mr_guest_phys_addr = 0,
                    mr_memory_size = word_of_nat mem_size, mr_userspace_addr = word_of_int (ret_val mem)\<rparr> in
      (case os k6 (IoctlRegion vm KVM_SET_USER_MEMORY_REGION region) of
        (Inl e, k) \<Rightarrow> [RamMapping mem_size, Fd vm, Fd kvm] | (Inr _, k7) \<Rightarrow>
      (case os k7 (IoctlVal vm KVM_CREATE_VCPU 0) of
        (Inl e, k) \<Rightarrow> [RamMapping mem_size, Fd vm, Fd kvm] | (Inr vcpu_raw, k8) \<Rightarrow>
      let vcpu = ret_val vcpu_raw in
      (case os k8 (IoctlVal kvm KVM_GET_VCPU_MMAP_SIZE 0) of
        (Inl e, k) \<Rightarrow> [Fd vcpu, RamMapping mem_size, Fd vm, Fd kvm] | (Inr run_size, k9) \<Rightarrow>
      if nat (ret_val run_size) < struct_size kvm_run_header_fields then
        [Fd vcpu, RamMapping mem_size, Fd vm, Fd kvm]
      else case os k9 (MmapShared vcpu (nat (ret_val run_size))) of
        (Inl e, k) \<Rightarrow> [Fd vcpu, RamMapping mem_size, Fd vm, Fd kvm] | (Inr _, k10) \<Rightarrow> []))))))"

section \<open>What the kernel handed out\<close>

fun acquired :: "Call \<Rightarrow> Ret \<Rightarrow> Resource list" where
  "acquired OpenKvm r = [Fd (ret_val r)]"
| "acquired (IoctlVal fd req arg) r = (if req = KVM_CREATE_VM \<or> req = KVM_CREATE_VCPU then [Fd (ret_val r)] else [])"
| "acquired (MmapAnonymous n) r = [RamMapping n]"
| "acquired (MmapShared fd n) r = [RunMapping fd n]"
| "acquired _ r = []"

text \<open>The system calls with a log of what they hand out.\<close>

definition logged :: "'k os \<Rightarrow> ('k \<times> Resource list) os" where
  "logged os s c =
     (case os (fst s) c of
        (Inl e, k) \<Rightarrow> (Inl e, k, snd s)
      | (Inr r, k) \<Rightarrow> (Inr r, k, snd s @ acquired c r))"

lemma create_requests:
  "KVM_GET_API_VERSION \<noteq> KVM_CREATE_VM" "KVM_GET_API_VERSION \<noteq> KVM_CREATE_VCPU"
  "KVM_CHECK_EXTENSION \<noteq> KVM_CREATE_VM" "KVM_CHECK_EXTENSION \<noteq> KVM_CREATE_VCPU"
  "KVM_SET_TSS_ADDR \<noteq> KVM_CREATE_VM" "KVM_SET_TSS_ADDR \<noteq> KVM_CREATE_VCPU"
  "KVM_GET_VCPU_MMAP_SIZE \<noteq> KVM_CREATE_VM" "KVM_GET_VCPU_MMAP_SIZE \<noteq> KVM_CREATE_VCPU"
  by code_simp+

text \<open>Nothing is lost and nothing is released twice. A machine that is dropped gives its RAM back before the vCPU.\<close>

lemma vm_new_resources:
  "case vm_new (logged os) (k0, []) mem_size of (res, k, got) \<Rightarrow>
     (case res of
        Ok vm \<Rightarrow> got = [Fd (vm_kvm vm), Fd (vm_vm vm), RamMapping mem_size, Fd (vm_vcpu vm),
            RunMapping (vm_vcpu vm) (length (vm_page vm))] \<and>
          vm_drop vm = [got ! 4, got ! 2, got ! 3, got ! 1, got ! 0] \<and> vm_new_drops os k0 mem_size = []
      | Err e \<Rightarrow> vm_new_drops os k0 mem_size = rev got
      | Panic \<Rightarrow> got = [] \<and> vm_new_drops os k0 mem_size = [])"
  unfolding vm_new_def vm_new_drops_def
  by (auto simp: Let_def logged_def create_requests vm_drop_def split: if_splits sum.splits prod.splits)

end
