(* ===== verification/KvmProperties.thy ===== *)
theory KvmProperties
  imports KvmBench KvmCrates KvmTeardown
begin

text \<open>
  The properties of the KVM rung (\<^verbatim>\<open>rung-01-kvm/toy-kvm-raw\<close>), each with a concrete application. Where a
  property relies on KVM, its application runs on the reference kernel of \<open>KvmMain\<close>.
\<close>

section \<open>Running a guest\<close>

text \<open>C21: With a kernel that behaves as KVM documents, \<^verbatim>\<open>Vm::run\<close> is the guest attached directly to the
  devices, however often signals interrupt its entries: it returns when the guest halts, with the
  guest's RAM, the devices and the port and memory exits of that run; the interruptions are counted
  apart, and every entry has its timing when timings are recorded.\<close>

theorem interrupted_run_implements_machine:
  assumes "kvm_documented ints enter (vm_vcpu vm) R" "R k g" "\<not> g_loading g" "vm_mem vm = g_ram g"
    and "64 \<le> length (vm_page vm)" "length (vm_page vm) < 2 ^ 63" "vm_runs g d ios mmios g' d'"
  shows "\<exists>i j k' page' ts'. vm_run enter k vm d ts =
      Some (Inr \<lparr>rs_exits = of_nat (ios + mmios + 1 + j), rs_io_exits = of_nat ios,
          rs_mmio_exits = of_nat mmios, rs_interrupted = of_nat (i + j)\<rparr>,
        k', vm\<lparr>vm_mem := g_ram g', vm_page := page'\<rparr>, d', ts') \<and> R k' g' \<and>
      timed (ios + mmios + 1 + i + j) ts ts' \<and> (\<not> ints \<longrightarrow> i = 0 \<and> j = 0)"
  using run_refines_interrupted [OF assms, of ts] by blast

lemma interrupted_run_implements_machine_witness:
  "\<exists>vm s k' vm' ts'. vm_load ref_vm LOAD_ADDR DEMO_PROGRAM = Loaded vm \<and>
    vm_run signalled_enter (booted [], True) vm devices_default None = Some (Inr s, k', vm', demo_devices, ts') \<and>
    rs_io_exits s = 6 \<and> rs_mmio_exits s = 2"
proof -
  obtain vm where vm: "vm_load ref_vm LOAD_ADDR DEMO_PROGRAM = Loaded vm" "holds_program (vm_mem vm) DEMO_PROGRAM"
      "vm = ref_vm\<lparr>vm_mem := vm_mem vm\<rparr>"
    by (rule vm_load_program [of ref_vm DEMO_PROGRAM]) (simp_all add: ref_vm_def demo_program_length)
  have page: "64 \<le> length (vm_page vm)" "length (vm_page vm) < 2 ^ 63" by (subst vm(3), simp add: ref_vm_def)+
  obtain g' where runs: "vm_runs (booted (vm_mem vm)) devices_default 6 2 g' demo_devices"
    using demo_runs [OF vm(2)] by blast
  have st: "same_vcpu (fst (booted [], True)) (booted (vm_mem vm)) \<and> snd (booted [], True)"
    "\<not> g_loading (booted (vm_mem vm))" "vm_mem vm = g_ram (booted (vm_mem vm))"
    by (simp_all add: same_vcpu_def booted_def)
  obtain i j k' page' ts' where r: "vm_run signalled_enter (booted [], True) vm devices_default None =
      Some (Inr \<lparr>rs_exits = of_nat (6 + 2 + 1 + j), rs_io_exits = of_nat 6, rs_mmio_exits = of_nat 2,
          rs_interrupted = of_nat (i + j)\<rparr>, k', vm\<lparr>vm_mem := g_ram g', vm_page := page'\<rparr>, demo_devices, ts')"
    using interrupted_run_implements_machine [OF signalled_enter_documented st page runs, of None] by blast
  show ?thesis by (intro exI conjI, rule vm(1), rule r) simp_all
qed

text \<open>Without interruptions the counts are exact.\<close>

lemma run_implements_machine:
  assumes "kvm_faithful enter (vm_vcpu vm) R" "R k g" "\<not> g_loading g" "vm_mem vm = g_ram g"
    and "64 \<le> length (vm_page vm)" "length (vm_page vm) < 2 ^ 63" "vm_runs g d ios mmios g' d'"
  shows "\<exists>k' page' ts'. vm_run enter k vm d ts =
      Some (Inr \<lparr>rs_exits = of_nat (ios + mmios + 1), rs_io_exits = of_nat ios,
          rs_mmio_exits = of_nat mmios, rs_interrupted = 0\<rparr>,
        k', vm\<lparr>vm_mem := g_ram g', vm_page := page'\<rparr>, d', ts') \<and> R k' g' \<and>
      timed (ios + mmios + 1) ts ts'"
  using run_refines [OF assms, of ts] by blast



text \<open>The benchmark collects exactly the samples asked for: over all its rounds it appends one timing
  per requested exit, drops the timing of each round's final halt, and its guest writes the port that
  many times.\<close>

lemma bench_collects:
  assumes "kvm_faithful enter (vm_vcpu vm) R" "kvm_resets os (vm_vcpu vm) R"
    and "vm_mem_size vm = GUEST_RAM" "length (vm_mem vm) = GUEST_RAM"
    and "64 \<le> length (vm_page vm)" "length (vm_page vm) < 2 ^ 63"
  shows "\<exists>u k' vm' d'. bench_rounds os enter k vm d timings remaining interrupted =
      Some (Ok (timings @ u, interrupted), k', vm', d') \<and> length u = unat remaining \<and>
      d' = d\<lparr>pio_writes := pio_writes d + ucast remaining\<rparr>"
  by (rule bench_rounds_collect [OF assms])





section \<open>The port\<close>



section \<open>One exit\<close>

text \<open>C26: An exit is refused exactly when its port payload would leave the shared page or has an unknown
  direction, when its address belongs to no device, or when its reason is not one the loop handles;
  and a refused exit touches neither the devices nor the page.\<close>

theorem dispatch_refuses:
  assumes "dispatch page d s = (nxt, d', s', page')"
  defines "reason \<equiv> hdr_exit_reason (read_header page)" and "io \<equiv> read_io page"
  shows "((\<exists>e. nxt = Failed e) \<longleftrightarrow>
      reason = KVM_EXIT_IO \<and>
        (length page < min (unat (io_data_offset io) + unat (io_size io) * unat (io_count io)) (2 ^ 64 - 1) \<or>
         io_direction io \<notin> {KVM_EXIT_IO_IN, KVM_EXIT_IO_OUT}) \<or>
      reason = KVM_EXIT_MMIO \<and> \<not> owns_mmio (mmio_phys_addr (read_mmio page)) \<or>
      reason \<notin> {KVM_EXIT_IO, KVM_EXIT_MMIO, KVM_EXIT_HLT, KVM_EXIT_INTR}) \<and>
    ((\<exists>e. nxt = Failed e) \<longrightarrow> d' = d \<and> page' = page)"
  using assms(1) unfolding reason_def io_def
  by (auto simp: dispatch_def dispatch_io_def dispatch_mmio_def Let_def kvm_exits
      split: if_splits prod.splits)

lemma dispatch_refuses_witness:
  "fst (dispatch (replicate 64 0) devices_default summary_default) =
    Failed (UnhandledExit ''KVM_EXIT_UNKNOWN'' 0)"
proof -
  let ?p = "replicate 64 0 :: u8 list"
  have r: "hdr_exit_reason (read_header ?p) = 0"
    by (simp add: reason_of window_def of_le_bytes_def numeral_eq_Suc)
  obtain nxt d' s' page' where e: "dispatch ?p devices_default summary_default = (nxt, d', s', page')"
    by (metis prod_cases4)
  have "\<exists>x. nxt = Failed x"
    using dispatch_refuses [OF e] r by (simp add: kvm_exits)
  then show ?thesis
    using e r by (auto simp: dispatch_def Let_def kvm_exits exit_reason_name_def)
qed

text \<open>C27: A port access that is served lies inside the shared page as a whole, and serving it changes no
  byte of the page outside its payload.\<close>

theorem port_access_confined:
  assumes "dispatch_io page d = (Reenter, d', page')" "length page < 2 ^ 64 - 1"
  defines "io \<equiv> read_io page"
  defines "len \<equiv> unat (io_size io) * unat (io_count io)" and "off \<equiv> unat (io_data_offset io)"
  shows "off + len \<le> length page \<and> length page' = length page \<and>
    (\<forall>i < length page. i < off \<or> off + len \<le> i \<longrightarrow> page' ! i = page ! i)"
proof -
  have fits: "off + len \<le> length page"
    using assms(1,2) unfolding io_def len_def off_def
    by (auto simp: dispatch_io_def Let_def min_def split: if_splits)
  have "page' = page \<or> page' = blit off (replicate len 0xff) page"
    using assms(1) fits unfolding io_def len_def off_def
    by (auto simp: dispatch_io_def Let_def pio_read_def length_window split: if_splits)
  then show ?thesis
    using fits by (auto simp: length_blit nth_blit)
qed

lemma port_access_confined_witness:
  "\<exists>d'. dispatch_io (describe (replicate 64 0) (ExitIoOut 0x3f8 65)) devices_default =
      (Reenter, d', describe (replicate 64 0) (ExitIoOut 0x3f8 65)) \<and>
    unat (io_data_offset (read_io (describe (replicate 64 0) (ExitIoOut 0x3f8 65)))) + 1 \<le> 64"
proof -
  let ?p = "describe (replicate 64 0) (ExitIoOut 0x3f8 65)"
  have len: "length ?p = 64" by (simp add: length_describe)
  have d: "describes ?p (ExitIoOut 0x3f8 65)" by (rule describe_describes) simp
  then have s: "dispatch_io ?p devices_default =
      (Reenter, pio_write devices_default 0x3f8 (window (unat (io_data_offset (read_io ?p))) 1 ?p), ?p)"
    using len by (simp add: describes_def dispatch_io_def Let_def)
  show ?thesis
    using port_access_confined [OF s] s d len by (simp add: describes_def)
qed

section \<open>Loading and the devices\<close>

text \<open>Loading bytes below the top of the address space either writes exactly those bytes inside the
  guest's RAM, when they fit, or is refused.\<close>

theorem load_within_ram:
  assumes "unat gpa + length bytes < 2 ^ 64" "vm_mem_size vm = length (vm_mem vm)"
  shows "vm_load vm gpa bytes =
    (if unat gpa + length bytes \<le> length (vm_mem vm) then
       Loaded (vm\<lparr>vm_mem := blit (unat gpa) bytes (vm_mem vm)\<rparr>)
     else LoadRefused (LoadExceedsRam (length bytes) gpa (length (vm_mem vm))))"
  by (rule vm_load_exact [OF assms])

lemma load_within_ram_witness:
  "vm_load ref_vm 0x9000 [1] = LoadRefused (LoadExceedsRam 1 0x9000 32768)"
  using load_within_ram [of "0x9000" "[1]" ref_vm] by (simp add: ref_vm_def GUEST_RAM_def)

text \<open>C28: The bound check of \<^verbatim>\<open>Vm::load\<close> adds without checking: at the top of the address space the sum
  wraps to zero, the check passes, and the copy leaves the mapping.\<close>

theorem load_bound_wraps:
  assumes "unat gpa + length bytes = 2 ^ 64" "0 < length bytes" "length bytes < 2 ^ 63" "length (vm_mem vm) < 2 ^ 63"
  shows "vm_load vm gpa bytes = OutOfMapping"
  by (rule vm_load_wraps [OF assms])

lemma load_bound_wraps_witness: "vm_load ref_vm (- 1) [0x90] = OutOfMapping"
  by (rule load_bound_wraps)
     (simp_all add: ref_vm_def GUEST_RAM_def unsigned_minus_1_eq_mask mask_eq_exp_minus_1)

text \<open>The device's latch returns the byte last written to it at the base of its window, padded with
  zeros to the access width, and such accesses are not counted as unhandled.\<close>

lemma latch_returns_last_byte:
  assumes "wdata \<noteq> []" "rdata \<noteq> []"
  shows "snd (mmio_read (mmio_write d MMIO_BASE wdata) MMIO_BASE rdata) =
      wdata ! 0 # replicate (length rdata - 1) 0 \<and>
    unhandled (fst (mmio_read (mmio_write d MMIO_BASE wdata) MMIO_BASE rdata)) = unhandled d"
  using latch_round_trip [OF assms] by simp

lemma latch_returns_last_byte_witness:
  "snd (mmio_read (mmio_write devices_default MMIO_BASE [7]) MMIO_BASE [1, 1]) = [7, 0]"
  using latch_returns_last_byte [of "[7]" "[1, 1]" devices_default] by simp

section \<open>Teardown\<close>

text \<open>C29: Whatever the kernel answers, \<^verbatim>\<open>Vm::new\<close> loses nothing that it acquired: when it fails it releases
  exactly what the kernel had handed out by then, the last one first, and when it succeeds the \<open>Vm\<close>
  holds all of it and releases each resource once when it is dropped: the shared page, the guest's
  RAM, then the vCPU, the machine and the control device. The RAM goes before the vCPU.\<close>

theorem teardown_complete:
  "case vm_new (logged os) (k0, []) mem_size of (res, k, got) \<Rightarrow>
     (case res of
        Ok vm \<Rightarrow> got = [Fd (vm_kvm vm), Fd (vm_vm vm), RamMapping mem_size, Fd (vm_vcpu vm),
            RunMapping (vm_vcpu vm) (length (vm_page vm))] \<and>
          vm_drop vm = [got ! 4, got ! 2, got ! 3, got ! 1, got ! 0] \<and> vm_new_drops os k0 mem_size = []
      | Err e \<Rightarrow> vm_new_drops os k0 mem_size = rev got
      | Panic \<Rightarrow> got = [] \<and> vm_new_drops os k0 mem_size = [])"
  by (rule vm_new_resources)

section \<open>The binary interface\<close>

text \<open>A request number packs its four fields without overlap: direction, size, type and number are read
  back from their bit positions.\<close>

theorem request_number_fields:
  assumes "unat dir < 4" "unat sz < 16384" "unat ty < 256" "unat nr < 256"
  shows "unat (ioc dir ty nr sz) div 2 ^ 30 = unat dir \<and>
    unat (ioc dir ty nr sz) div 2 ^ 16 mod 2 ^ 14 = unat sz \<and>
    unat (ioc dir ty nr sz) div 2 ^ 8 mod 2 ^ 8 = unat ty \<and> unat (ioc dir ty nr sz) mod 2 ^ 8 = unat nr"
proof -
  have packed: "unat (ioc dir ty nr sz) = unat nr + 256 * (unat ty + 256 * (unat sz + 16384 * unat dir))"
    using assms by (simp add: unat_ioc)
  have "unat (ioc dir ty nr sz) div 256 = unat ty + 256 * (unat sz + 16384 * unat dir)"
    unfolding packed using assms by simp
  moreover have "unat (ioc dir ty nr sz) div (256 * 256) = unat sz + 16384 * unat dir"
    unfolding packed div_mult2_eq using assms by simp
  moreover have "unat (ioc dir ty nr sz) div (256 * 256 * 16384) = unat dir"
    unfolding packed div_mult2_eq using assms by simp
  moreover have "unat (ioc dir ty nr sz) mod 256 = unat nr"
    unfolding packed mod_mult_self2 using assms(4) by simp
  moreover have "(unat ty + 256 * (unat sz + 16384 * unat dir)) mod 256 = unat ty"
    unfolding mod_mult_self2 using assms(3) by simp
  ultimately show ?thesis using assms by simp
qed

lemma request_number_fields_witness: "unat (ioc 2 0xAE 0x81 144) div 2 ^ 30 = 2"
  using request_number_fields [where dir = 2 and ty = "0xAE" and nr = "0x81" and sz = 144] by simp


end
