(* ===== verification/UffdSys.thy ===== *)
theory UffdSys
  imports CLayout
begin

text \<open>
  The raw \<^verbatim>\<open>userfaultfd\<close> interface of \<^verbatim>\<open>rung-03-uffd/toy-uffd-raw/src/uffd_sys.rs\<close>: the request numbers and
  the structures they carry, laid out by \<open>CLayout\<close>, and the decoding of a message read from the
  descriptor. Names that the KVM interface uses too carry the prefix \<open>UFFD_\<close> or \<open>uffd_\<close>.
\<close>

unbundle bit_operations_syntax

section \<open>Request numbers\<close>

definition UFFD_IOC_NRSHIFT :: nat where "UFFD_IOC_NRSHIFT = 0"
definition UFFD_IOC_TYPESHIFT :: nat where "UFFD_IOC_TYPESHIFT = 8"
definition UFFD_IOC_SIZESHIFT :: nat where "UFFD_IOC_SIZESHIFT = 16"
definition UFFD_IOC_DIRSHIFT :: nat where "UFFD_IOC_DIRSHIFT = 30"
definition UFFD_IOC_READ :: u32 where "UFFD_IOC_READ = 2"
definition UFFD_IOC_WRITE :: u32 where "UFFD_IOC_WRITE = 1"
definition UFFDIO :: u32 where "UFFDIO = 0xAA"

lemmas uffd_ioc_consts = UFFD_IOC_NRSHIFT_def UFFD_IOC_TYPESHIFT_def UFFD_IOC_SIZESHIFT_def
  UFFD_IOC_DIRSHIFT_def UFFD_IOC_READ_def UFFD_IOC_WRITE_def UFFDIO_def

definition uffd_ioc :: "u32 \<Rightarrow> u32 \<Rightarrow> nat \<Rightarrow> u64" where
  "uffd_ioc dir nr sz =
     ucast (push_bit UFFD_IOC_DIRSHIFT dir OR push_bit UFFD_IOC_SIZESHIFT (word_of_nat sz :: u32) OR
       push_bit UFFD_IOC_TYPESHIFT UFFDIO OR push_bit UFFD_IOC_NRSHIFT nr)"

definition uffd_iowr :: "u32 \<Rightarrow> nat \<Rightarrow> u64" where
  "uffd_iowr nr sz = uffd_ioc (UFFD_IOC_READ OR UFFD_IOC_WRITE) nr sz"

definition uffd_ior :: "u32 \<Rightarrow> nat \<Rightarrow> u64" where
  "uffd_ior nr sz = uffd_ioc UFFD_IOC_READ nr sz"

section \<open>Structures\<close>

record uffdio_api =
  api_api :: u64
  api_features :: u64
  api_ioctls :: u64

definition uffdio_api_fields :: "c_field list" where
  "uffdio_api_fields = [c_u64, c_u64, c_u64]"

record uffdio_range =
  rng_start :: u64
  rng_len :: u64

definition uffdio_range_fields :: "c_field list" where
  "uffdio_range_fields = [c_u64, c_u64]"

record uffdio_register =
  reg_range :: uffdio_range
  reg_mode :: u64
  reg_ioctls :: u64

definition uffdio_register_fields :: "c_field list" where
  "uffdio_register_fields = [c_struct uffdio_range_fields, c_u64, c_u64]"

text \<open>The field \<^verbatim>\<open>copy: i64\<close> is a word read with \<open>sint\<close>.\<close>

record uffdio_copy =
  cp_dst :: u64
  cp_src :: u64
  cp_len :: u64
  cp_mode :: u64
  cp_copy :: u64

definition uffdio_copy_fields :: "c_field list" where
  "uffdio_copy_fields = [c_u64, c_u64, c_u64, c_u64, c_u64]"

record uffdio_zeropage =
  zp_range :: uffdio_range
  zp_mode :: u64
  zp_zeropage :: u64

definition uffdio_zeropage_fields :: "c_field list" where
  "uffdio_zeropage_fields = [c_struct uffdio_range_fields, c_u64, c_u64]"

record uffd_msg =
  msg_event :: u8
  msg_reserved1 :: u8
  msg_reserved2 :: u16
  msg_reserved3 :: u32
  msg_pagefault_flags :: u64
  msg_pagefault_address :: u64
  msg_pagefault_ptid :: u32
  msg_pad :: u32

definition uffd_msg_fields :: "c_field list" where
  "uffd_msg_fields = [c_u8, c_u8, c_u16, c_u32, c_u64, c_u64, c_u32, c_u32]"

lemmas uffd_layouts = uffdio_api_fields_def uffdio_range_fields_def uffdio_register_fields_def
  uffdio_copy_fields_def uffdio_zeropage_fields_def uffd_msg_fields_def

text \<open>Reading a message into the structure: each field at its offset.\<close>

definition uffd_msg_of_bytes :: "u8 list \<Rightarrow> uffd_msg" where
  "uffd_msg_of_bytes bs =
     (let f = (\<lambda>i. window (field_offsets 0 uffd_msg_fields ! i) (fst (uffd_msg_fields ! i)) bs) in
      \<lparr>msg_event = of_le_bytes (f 0), msg_reserved1 = of_le_bytes (f 1), msg_reserved2 = of_le_bytes (f 2),
       msg_reserved3 = of_le_bytes (f 3), msg_pagefault_flags = of_le_bytes (f 4),
       msg_pagefault_address = of_le_bytes (f 5), msg_pagefault_ptid = of_le_bytes (f 6),
       msg_pad = of_le_bytes (f 7)\<rparr>)"

section \<open>The requests and their constants\<close>

definition UFFD_USER_MODE_ONLY :: u32 where "UFFD_USER_MODE_ONLY = 1"
definition UFFDIO_API :: u64 where "UFFDIO_API = uffd_iowr 0x3F (struct_size uffdio_api_fields)"
definition UFFDIO_REGISTER :: u64 where "UFFDIO_REGISTER = uffd_iowr 0x00 (struct_size uffdio_register_fields)"
definition UFFDIO_UNREGISTER :: u64 where "UFFDIO_UNREGISTER = uffd_ior 0x01 (struct_size uffdio_range_fields)"
definition UFFDIO_WAKE :: u64 where "UFFDIO_WAKE = uffd_ior 0x02 (struct_size uffdio_range_fields)"
definition UFFDIO_COPY :: u64 where "UFFDIO_COPY = uffd_iowr 0x03 (struct_size uffdio_copy_fields)"
definition UFFDIO_ZEROPAGE :: u64 where "UFFDIO_ZEROPAGE = uffd_iowr 0x04 (struct_size uffdio_zeropage_fields)"
definition UFFD_API :: u64 where "UFFD_API = 0xAA"
definition UFFDIO_REGISTER_MODE_MISSING :: u64 where "UFFDIO_REGISTER_MODE_MISSING = push_bit 0 1"
definition UFFDIO_REGISTER_MODE_WP :: u64 where "UFFDIO_REGISTER_MODE_WP = push_bit 1 1"
definition UFFDIO_COPY_MODE_DONTWAKE :: u64 where "UFFDIO_COPY_MODE_DONTWAKE = push_bit 0 1"
definition UFFD_EVENT_PAGEFAULT :: u8 where "UFFD_EVENT_PAGEFAULT = 0x12"
definition UFFD_PAGEFAULT_FLAG_WRITE :: u64 where "UFFD_PAGEFAULT_FLAG_WRITE = push_bit 0 1"

section \<open>The encoding is the kernel's\<close>

lemma uffd_struct_sizes:
  "struct_size uffdio_api_fields = 24" "struct_size uffdio_range_fields = 16"
  "struct_size uffdio_register_fields = 32" "struct_size uffdio_copy_fields = 40"
  "struct_size uffdio_zeropage_fields = 32" "struct_size uffd_msg_fields = 32"
  by (simp_all add: struct_size_def struct_align_def uffd_layouts round_up_def c_struct_def)

lemma uffd_msg_offsets: "field_offsets 0 uffd_msg_fields = [0, 1, 2, 4, 8, 16, 24, 28]"
  by (simp add: uffd_msg_fields_def round_up_def)

lemma unat_uffd_ioc:
  assumes "unat dir < 4" "sz < 16384" "unat nr < 256"
  shows "unat (uffd_ioc dir nr sz) = 1073741824 * unat dir + (65536 * sz + (43520 + unat nr))"
proof -
  have s: "unat (word_of_nat sz :: u32) = sz"
    using assms(2) by (intro unat_of_nat_u32) simp
  have "unat (uffd_ioc dir nr sz) =
      push_bit 30 (unat dir) OR (push_bit 16 sz OR (push_bit 8 170 OR unat nr))"
    using assms s by (simp add: uffd_ioc_def uffd_ioc_consts unsigned_or_eq unat_push_bit_small or.assoc)
  also have "push_bit 8 170 OR unat nr = 43520 + unat nr"
    using or_above [of "unat nr" 8 170] assms(3) by simp
  also have "push_bit 16 sz OR (43520 + unat nr) = 65536 * sz + (43520 + unat nr)"
    using or_above [of "43520 + unat nr" 16 sz] assms(3) by simp
  also have "push_bit 30 (unat dir) OR (65536 * sz + (43520 + unat nr)) =
      1073741824 * unat dir + (65536 * sz + (43520 + unat nr))"
    using or_above [of "65536 * sz + (43520 + unat nr)" 30 "unat dir"] assms by simp
  finally show ?thesis .
qed

lemma uffd_request_numbers:
  "UFFDIO_API = 0xC018AA3F" "UFFDIO_REGISTER = 0xC020AA00" "UFFDIO_UNREGISTER = 0x8010AA01"
  "UFFDIO_WAKE = 0x8010AA02" "UFFDIO_COPY = 0xC028AA03" "UFFDIO_ZEROPAGE = 0xC020AA04"
  unfolding UFFDIO_API_def UFFDIO_REGISTER_def UFFDIO_UNREGISTER_def UFFDIO_WAKE_def UFFDIO_COPY_def
    UFFDIO_ZEROPAGE_def uffd_iowr_def uffd_ior_def
  by (simp_all add: uffd_struct_sizes word_unat_eq_iff unat_uffd_ioc uffd_ioc_consts)

end
