(* ===== verification/Uffd.thy ===== *)
theory Uffd
  imports UffdSys
begin

text \<open>
  The owned descriptor and the region it watches, from \<^verbatim>\<open>rung-03-uffd/toy-uffd-raw/src/uffd.rs\<close>. The
  operating system is a parameter: \<open>uos\<close> answers each call with an error number or with a value
  and the structures and bytes the call fills, and may change its own state. A system call that
  returns a negative value is the error number it set. The stop flag that another thread sets is
  read through the operating system's state, so it may be set between any two calls.
  Closing and unmapping on drop, and handing the raw descriptor on, are not modelled.
\<close>

unbundle bit_operations_syntax

section \<open>System calls\<close>

type_synonym ufd = int

definition O_CLOEXEC :: u32 where "O_CLOEXEC = 0x80000"
definition O_NONBLOCK :: u32 where "O_NONBLOCK = 0x800"
definition U_EPERM :: int where "U_EPERM = 1"
definition U_EINTR :: int where "U_EINTR = 4"
definition U_EAGAIN :: int where "U_EAGAIN = 11"
definition U_EEXIST :: int where "U_EEXIST = 17"

lemmas errnos = U_EPERM_def U_EINTR_def U_EAGAIN_def U_EEXIST_def

datatype UCall =
    Userfaultfd u32
  | IoctlApi ufd u64 uffdio_api
  | IoctlRegister ufd u64 uffdio_register
  | IoctlCopy ufd u64 uffdio_copy
  | IoctlWake ufd u64 uffdio_range
  | PollIn ufd int
  | ReadFd ufd nat
  | SysconfPageSize
  | MmapPrivate u64
  | MadviseDontneed u64 u64
  | SchedSetaffinity "nat list"
  | LoadStop

record URet =
  ur_val :: int
  ur_api :: uffdio_api
  ur_register :: uffdio_register
  ur_copy :: uffdio_copy
  ur_bytes :: "u8 list"

type_synonym 'k uos = "'k \<Rightarrow> UCall \<Rightarrow> (int + URet) \<times> 'k"

datatype UError = UOs int | ShortRead int

section \<open>The descriptor\<close>

record Uffd =
  uf_fd :: ufd
  supported_ioctls :: u64

text \<open>The handshake: the unrestricted descriptor first, the restricted one when that is not permitted.\<close>

definition uffd_open :: "'k uos \<Rightarrow> 'k \<Rightarrow> bool \<Rightarrow> (int + ufd \<times> bool) \<times> 'k" where
  "uffd_open os k0 non_blocking =
     (let base = (if non_blocking then O_CLOEXEC OR O_NONBLOCK else O_CLOEXEC) in
      case os k0 (Userfaultfd base) of
        (Inr r, k1) \<Rightarrow> (Inr (ur_val r, False), k1)
      | (Inl e, k1) \<Rightarrow>
          if e = U_EPERM then
            (case os k1 (Userfaultfd (base OR UFFD_USER_MODE_ONLY)) of
               (Inr r, k2) \<Rightarrow> (Inr (ur_val r, True), k2)
             | (Inl e2, k2) \<Rightarrow> (Inl e2, k2))
          else (Inl e, k1))"

definition uffd_new :: "'k uos \<Rightarrow> 'k \<Rightarrow> bool \<Rightarrow> (UError + Uffd \<times> bool) \<times> 'k" where
  "uffd_new os k0 non_blocking =
     (case uffd_open os k0 non_blocking of
        (Inl e, k1) \<Rightarrow> (Inl (UOs e), k1)
      | (Inr (fd, restricted), k1) \<Rightarrow>
          (case os k1 (IoctlApi fd UFFDIO_API \<lparr>api_api = UFFD_API, api_features = 0, api_ioctls = 0\<rparr>) of
             (Inl e, k2) \<Rightarrow> (Inl (UOs e), k2)
           | (Inr r, k2) \<Rightarrow>
               (Inr (\<lparr>uf_fd = fd, supported_ioctls = api_ioctls (ur_api r)\<rparr>, restricted), k2)))"

definition register_missing :: "'k uos \<Rightarrow> 'k \<Rightarrow> Uffd \<Rightarrow> u64 \<Rightarrow> u64 \<Rightarrow> (UError + u64) \<times> 'k" where
  "register_missing os k u start len =
     (case os k (IoctlRegister (uf_fd u) UFFDIO_REGISTER
         \<lparr>reg_range = \<lparr>rng_start = start, rng_len = len\<rparr>, reg_mode = UFFDIO_REGISTER_MODE_MISSING, reg_ioctls = 0\<rparr>) of
        (Inl e, k') \<Rightarrow> (Inl (UOs e), k')
      | (Inr r, k') \<Rightarrow> (Inr (reg_ioctls (ur_register r)), k'))"

definition read_event :: "'k uos \<Rightarrow> 'k \<Rightarrow> Uffd \<Rightarrow> int \<Rightarrow> (UError + uffd_msg option) \<times> 'k" where
  "read_event os k u timeout_ms =
     (case os k (PollIn (uf_fd u) timeout_ms) of
        (Inl e, k1) \<Rightarrow> if e = U_EINTR then (Inr None, k1) else (Inl (UOs e), k1)
      | (Inr n, k1) \<Rightarrow>
          if ur_val n = 0 then (Inr None, k1)
          else (case os k1 (ReadFd (uf_fd u) (struct_size uffd_msg_fields)) of
             (Inl e, k2) \<Rightarrow> if e = U_EAGAIN then (Inr None, k2) else (Inl (UOs e), k2)
           | (Inr got, k2) \<Rightarrow>
               if ur_val got \<noteq> int (struct_size uffd_msg_fields) then (Inl (ShortRead (ur_val got)), k2)
               else (Inr (Some (uffd_msg_of_bytes (ur_bytes got))), k2)))"

definition load_stop :: "'k uos \<Rightarrow> 'k \<Rightarrow> bool \<times> 'k" where
  "load_stop os k =
     (case os k LoadStop of (Inl e, k') \<Rightarrow> (True, k') | (Inr r, k') \<Rightarrow> (ur_val r \<noteq> 0, k'))"

text \<open>The spinning variant need not return: it retries while nothing is there and nobody stops it.\<close>

partial_function (option) read_event_spin ::
  "'k uos \<Rightarrow> 'k \<Rightarrow> Uffd \<Rightarrow> ((UError + uffd_msg option) \<times> 'k) option" where
  "read_event_spin os k u =
     (case load_stop os k of
        (stopped, k1) \<Rightarrow>
          if stopped then Some (Inr None, k1)
          else (case os k1 (ReadFd (uf_fd u) (struct_size uffd_msg_fields)) of
             (Inr got, k2) \<Rightarrow>
               if ur_val got = int (struct_size uffd_msg_fields) then
                 Some (Inr (Some (uffd_msg_of_bytes (ur_bytes got))), k2)
               else read_event_spin os k2 u
           | (Inl e, k2) \<Rightarrow>
               if e = U_EAGAIN \<or> e = U_EINTR then read_event_spin os k2 u
               else Some (Inl (UOs e), k2)))"

text \<open>Installing pages. A present page is reported as nothing copied, in either of the kernel's ways.\<close>

definition uffd_copy :: "'k uos \<Rightarrow> 'k \<Rightarrow> Uffd \<Rightarrow> u64 \<Rightarrow> u64 \<Rightarrow> u64 \<Rightarrow> bool \<Rightarrow> (UError + u64) \<times> 'k" where
  "uffd_copy os k u dst src len wake =
     (case os k (IoctlCopy (uf_fd u) UFFDIO_COPY
         \<lparr>cp_dst = dst, cp_src = src, cp_len = len,
          cp_mode = (if wake then 0 else UFFDIO_COPY_MODE_DONTWAKE), cp_copy = 0\<rparr>) of
        (Inl e, k') \<Rightarrow> if e = U_EEXIST then (Inr 0, k') else (Inl (UOs e), k')
      | (Inr r, k') \<Rightarrow>
          let c = cp_copy (ur_copy r) in
          if sint c < 0 then
            if sint c = - U_EEXIST then (Inr 0, k')
            else (Inl (UOs (sint (ucast (- c) :: u32))), k')
          else (Inr c, k'))"

definition uffd_wake :: "'k uos \<Rightarrow> 'k \<Rightarrow> Uffd \<Rightarrow> u64 \<Rightarrow> u64 \<Rightarrow> (UError + unit) \<times> 'k" where
  "uffd_wake os k u start len =
     (case os k (IoctlWake (uf_fd u) UFFDIO_WAKE \<lparr>rng_start = start, rng_len = len\<rparr>) of
        (Inl e, k') \<Rightarrow> (Inl (UOs e), k')
      | (Inr _, k') \<Rightarrow> (Inr (), k'))"

section \<open>The region\<close>

definition PAGE :: u64 where "PAGE = 4096"

record Region =
  rgn_ptr :: u64
  rgn_len :: u64

definition region_new :: "'k uos \<Rightarrow> 'k \<Rightarrow> u64 \<Rightarrow> (UError, Region) outcome \<times> 'k" where
  "region_new os k pages =
     (case os k SysconfPageSize of
        (Inl e, k1) \<Rightarrow> (Panic, k1)
      | (Inr sys, k1) \<Rightarrow>
          if word_of_int (ur_val sys) \<noteq> PAGE then (Panic, k1)
          else let len = pages * PAGE in
          (case os k1 (MmapPrivate len) of
             (Inl e, k2) \<Rightarrow> (Err (UOs e), k2)
           | (Inr r, k2) \<Rightarrow> (Ok \<lparr>rgn_ptr = word_of_int (ur_val r), rgn_len = len\<rparr>, k2)))"

definition region_is_empty :: "Region \<Rightarrow> bool" where
  "region_is_empty r \<longleftrightarrow> rgn_len r = 0"

definition region_pages :: "Region \<Rightarrow> u64" where
  "region_pages r = rgn_len r div PAGE"

definition region_reset :: "'k uos \<Rightarrow> 'k \<Rightarrow> Region \<Rightarrow> (UError + unit) \<times> 'k" where
  "region_reset os k r =
     (case os k (MadviseDontneed (rgn_ptr r) (rgn_len r)) of
        (Inl e, k') \<Rightarrow> (Inl (UOs e), k')
      | (Inr _, k') \<Rightarrow> (Inr (), k'))"

text \<open>The address that \<^verbatim>\<open>touch\<close> reads.\<close>

definition touch_addr :: "Region \<Rightarrow> u64 \<Rightarrow> u64" where
  "touch_addr r page = rgn_ptr r + page * PAGE"

section \<open>What each call makes of the kernel's answers\<close>

lemma read_event_None_iff:
  "fst (read_event os k u t) = Inr None \<longleftrightarrow>
    (\<exists>k1. os k (PollIn (uf_fd u) t) = (Inl U_EINTR, k1)) \<or>
    (\<exists>n k1. os k (PollIn (uf_fd u) t) = (Inr n, k1) \<and>
      (ur_val n = 0 \<or> fst (os k1 (ReadFd (uf_fd u) 32)) = Inl U_EAGAIN))"
  by (auto simp: read_event_def uffd_struct_sizes split: sum.splits prod.splits if_splits)

lemma uffd_copy_outcome:
  "fst (uffd_copy os k u dst src len wake) =
    (case fst (os k (IoctlCopy (uf_fd u) UFFDIO_COPY
         \<lparr>cp_dst = dst, cp_src = src, cp_len = len,
          cp_mode = (if wake then 0 else UFFDIO_COPY_MODE_DONTWAKE), cp_copy = 0\<rparr>)) of
       Inl e \<Rightarrow> if e = U_EEXIST then Inr 0 else Inl (UOs e)
     | Inr r \<Rightarrow>
         if sint (cp_copy (ur_copy r)) < 0 then
           if sint (cp_copy (ur_copy r)) = - U_EEXIST then Inr 0
           else Inl (UOs (sint (ucast (- cp_copy (ur_copy r)) :: u32)))
         else Inr (cp_copy (ur_copy r)))"
  by (auto simp: uffd_copy_def Let_def split: sum.splits prod.splits)

end
