(* ===== verification/UffdHandler.thy ===== *)
theory UffdHandler
  imports Uffd
begin

text \<open>
  The fault handler of \<^verbatim>\<open>rung-03-uffd/toy-uffd-raw/src/main.rs\<close>: one iteration of its loop, the loop, and
  the restore it implements. Addresses are words with Rust's wrapping arithmetic; the counters are
  the handler's own (they are shared only to be read after it has ended).

  \<open>pager_faithful\<close> states what userfaultfd documents: a thread that touches an absent page is parked
  and a message names its page; \<^verbatim>\<open>UFFDIO_COPY\<close> installs pages from process memory up to the first one
  that is present, and reports a shorter copy as EAGAIN or EEXIST. Under it the handler restores
  exactly the image.
\<close>

unbundle bit_operations_syntax

section \<open>The handler\<close>

record HandlerStats =
  hs_faults :: u64
  hs_pages_installed :: u64
  hs_write_faults :: u64

definition handler_stats_default :: HandlerStats where
  "handler_stats_default = \<lparr>hs_faults = 0, hs_pages_installed = 0, hs_write_faults = 0\<rparr>"

text \<open>\<open>h_src\<close> is the address of the image buffer.\<close>

record Handler =
  h_uffd :: Uffd
  h_region_start :: u64
  h_region_pages :: u64
  h_src :: u64
  h_batch_pages :: u64
  h_spin :: bool

definition fault_addr :: "uffd_msg \<Rightarrow> u64" where
  "fault_addr msg = msg_pagefault_address msg AND NOT (PAGE - 1)"

definition fault_page :: "Handler \<Rightarrow> uffd_msg \<Rightarrow> u64" where
  "fault_page h msg = (fault_addr msg - h_region_start h) div PAGE"

definition fault_run :: "Handler \<Rightarrow> uffd_msg \<Rightarrow> u64" where
  "fault_run h msg = min (h_batch_pages h) (h_region_pages h - fault_page h msg)"

text \<open>What the loop does with one message; the first component says whether it goes on.\<close>

definition handle_msg :: "'k uos \<Rightarrow> 'k \<Rightarrow> Handler \<Rightarrow> HandlerStats \<Rightarrow> uffd_msg \<Rightarrow> bool \<times> HandlerStats \<times> 'k" where
  "handle_msg os k h st msg =
     (if msg_event msg \<noteq> UFFD_EVENT_PAGEFAULT then (True, st, k)
      else
        let st1 = st\<lparr>hs_faults := hs_faults st + 1\<rparr>;
            st2 = (if msg_pagefault_flags msg AND UFFD_PAGEFAULT_FLAG_WRITE \<noteq> 0
                   then st1\<lparr>hs_write_faults := hs_write_faults st1 + 1\<rparr> else st1);
            len = fault_run h msg * PAGE
        in case uffd_copy os k (h_uffd h) (fault_addr msg) (h_src h + fault_page h msg * PAGE) len True of
             (Inr n, k') \<Rightarrow> (True, st2\<lparr>hs_pages_installed := hs_pages_installed st2 + n div PAGE\<rparr>, k')
           | (Inl e, k') \<Rightarrow> (False, st2, k'))"

definition next_event :: "'k uos \<Rightarrow> 'k \<Rightarrow> Handler \<Rightarrow> ((UError + uffd_msg option) \<times> 'k) option" where
  "next_event os k h =
     (if h_spin h then read_event_spin os k (h_uffd h) else Some (read_event os k (h_uffd h) 50))"

text \<open>One iteration; \<open>None\<close> when the spinning read does not return.\<close>

definition handler_step :: "'k uos \<Rightarrow> 'k \<Rightarrow> Handler \<Rightarrow> HandlerStats \<Rightarrow> (bool \<times> HandlerStats \<times> 'k) option" where
  "handler_step os k h st =
     (case load_stop os k of
        (stopped, k1) \<Rightarrow>
          if stopped then Some (False, st, k1)
          else (case next_event os k1 h of
             None \<Rightarrow> None
           | Some (Inl e, k2) \<Rightarrow> Some (False, st, k2)
           | Some (Inr None, k2) \<Rightarrow> Some (True, st, k2)
           | Some (Inr (Some msg), k2) \<Rightarrow> Some (handle_msg os k2 h st msg)))"

partial_function (option) handler_loop :: "'k uos \<Rightarrow> 'k \<Rightarrow> Handler \<Rightarrow> HandlerStats \<Rightarrow> (HandlerStats \<times> 'k) option" where
  "handler_loop os k h st =
     (case handler_step os k h st of
        None \<Rightarrow> None
      | Some (go_on, st', k') \<Rightarrow> if go_on then handler_loop os k' h st' else Some (st', k'))"

section \<open>Addresses and pages\<close>

definition handler_ok :: "Handler \<Rightarrow> bool" where
  "handler_ok h \<longleftrightarrow> unat (h_region_start h) mod 4096 = 0 \<and> 0 < h_batch_pages h \<and>
     unat (h_region_start h) + 4096 * unat (h_region_pages h) < 2 ^ 64 \<and>
     unat (h_src h) + 4096 * unat (h_region_pages h) < 2 ^ 64"

text \<open>The message names an address on page \<open>p\<close> of the region.\<close>

definition on_page :: "Handler \<Rightarrow> uffd_msg \<Rightarrow> nat \<Rightarrow> bool" where
  "on_page h msg p \<longleftrightarrow> p < unat (h_region_pages h) \<and>
     (\<exists>i < 4096. unat (msg_pagefault_address msg) = unat (h_region_start h) + 4096 * p + i)"

lemma unat_round_down: "unat (a AND NOT (PAGE - 1)) = unat a - unat a mod 4096"
proof -
  have m: "PAGE - 1 = mask 12" by (simp add: PAGE_def mask_eq_exp_minus_1)
  have "a AND NOT (PAGE - 1) = push_bit 12 (drop_bit 12 a)"
    unfolding m by (rule bit_word_eqI) (auto simp: bit_and_iff bit_not_iff bit_mask_iff bit_push_bit_iff bit_drop_bit_eq)
  moreover have u: "unat (drop_bit 12 a) = unat a div 4096"
    by (simp only: unat_drop_bit_eq) (simp add: drop_bit_eq_div)
  have "unat a div 4096 * 4096 \<le> unat a" by (rule div_times_less_eq_dividend)
  then have "unat a div 4096 * 4096 < 2 ^ LENGTH(64)"
    using unat_less_exp [of a] by (rule le_less_trans)
  then have "unat (drop_bit 12 a) * 2 ^ 12 < 2 ^ LENGTH(64)"
    unfolding u by simp
  then have "unat (push_bit 12 (drop_bit 12 a)) = push_bit 12 (unat (drop_bit 12 a))"
    by (rule unat_push_bit_small)
  ultimately have "unat (a AND NOT (PAGE - 1)) = unat a div 4096 * 4096"
    by (simp add: u push_bit_eq_mult)
  then show ?thesis by (simp add: minus_mod_eq_div_mult)
qed

lemma fault_position:
  assumes "handler_ok h" "on_page h msg p"
  shows "unat (fault_addr msg) = unat (h_region_start h) + 4096 * p"
    "unat (fault_page h msg) = p"
    "unat (h_src h + fault_page h msg * PAGE) = unat (h_src h) + 4096 * p"
    "unat (fault_run h msg) = min (unat (h_batch_pages h)) (unat (h_region_pages h) - p)"
    "unat (fault_run h msg * PAGE) = 4096 * unat (fault_run h msg)"
proof -
  obtain i where p: "p < unat (h_region_pages h)" and i: "i < 4096"
      "unat (msg_pagefault_address msg) = unat (h_region_start h) + 4096 * p + i"
    using assms(2) by (auto simp: on_page_def)
  have s: "unat (h_region_start h) mod 4096 = 0" "unat (h_region_start h) + 4096 * unat (h_region_pages h) < 2 ^ 64"
    "unat (h_src h) + 4096 * unat (h_region_pages h) < 2 ^ 64"
    using assms(1) by (simp_all add: handler_ok_def)
  have "unat (msg_pagefault_address msg) mod 4096 = i"
  proof -
    obtain q where "unat (h_region_start h) = 4096 * q" using s(1) by (auto simp: mod_eq_0_iff_dvd)
    then have "unat (msg_pagefault_address msg) = i + 4096 * (q + p)" using i(2) by simp
    then show ?thesis using i(1) by (simp only: mod_mult_self2 mod_less)
  qed
  then show addr: "unat (fault_addr msg) = unat (h_region_start h) + 4096 * p"
    using i(2) by (simp add: fault_addr_def unat_round_down)
  then have "unat (fault_addr msg - h_region_start h) = 4096 * p"
    by (subst unat_sub) (simp_all add: word_le_nat_alt)
  then show page: "unat (fault_page h msg) = p"
    by (simp add: fault_page_def unat_div PAGE_def)
  have "unat (fault_page h msg * PAGE) = 4096 * p"
    using page p s(2) by (subst unat_mult_small_u64) (simp_all add: PAGE_def)
  then show "unat (h_src h + fault_page h msg * PAGE) = unat (h_src h) + 4096 * p"
    using p s(3) by (subst unat_add_small) simp_all
  have "unat (h_region_pages h - fault_page h msg) = unat (h_region_pages h) - p"
    using page p by (subst unat_sub) (simp_all add: word_le_nat_alt)
  then show run: "unat (fault_run h msg) = min (unat (h_batch_pages h)) (unat (h_region_pages h) - p)"
    by (simp add: fault_run_def min_def word_le_nat_alt)
  show "unat (fault_run h msg * PAGE) = 4096 * unat (fault_run h msg)"
    using run s(2) by (subst unat_mult_small_u64) (simp_all add: PAGE_def)
qed

section \<open>What userfaultfd documents\<close>

type_synonym pages = "nat \<rightharpoonup> u8 list"

text \<open>The pages from \<open>p\<close> on that a copy of \<open>n\<close> pages reaches: up to the first present one.\<close>

fun absent_run :: "pages \<Rightarrow> nat \<Rightarrow> nat \<Rightarrow> nat" where
  "absent_run M p 0 = 0"
| "absent_run M p (Suc n) = (if M p = None then Suc (absent_run M (Suc p) n) else 0)"

definition installed :: "(nat \<Rightarrow> u8 list) \<Rightarrow> pages \<Rightarrow> nat \<Rightarrow> nat \<Rightarrow> pages" where
  "installed img M p n = (\<lambda>q. if p \<le> q \<and> q < p + n then Some (img q) else M q)"

text \<open>
  \<open>img p\<close> is what process memory holds at the image's address of page \<open>p\<close>. \<open>live\<close> are the states of
  the kernel in which the region is mapped and registered and the buffer of the image exists.
\<close>

definition copies_documented :: "'k uos \<Rightarrow> Handler \<Rightarrow> ('k \<Rightarrow> bool) \<Rightarrow> ('k \<Rightarrow> pages) \<Rightarrow> (nat \<Rightarrow> u8 list) \<Rightarrow> bool" where
  "copies_documented os h live resident img \<longleftrightarrow>
     (\<forall>k c p n. live k \<longrightarrow> unat (cp_dst c) = unat (h_region_start h) + 4096 * p \<longrightarrow>
        unat (cp_src c) = unat (h_src h) + 4096 * p \<longrightarrow> unat (cp_len c) = 4096 * n \<longrightarrow>
        0 < n \<longrightarrow> p + n \<le> unat (h_region_pages h) \<longrightarrow> cp_mode c = 0 \<longrightarrow>
        (let j = absent_run (resident k) p n;
             (r, k') = os k (IoctlCopy (uf_fd (h_uffd h)) UFFDIO_COPY c)
         in live k' \<and> resident k' = installed img (resident k) p j \<and>
            (if j = n then (\<exists>x. r = Inr x \<and> cp_copy (ur_copy x) = cp_len c)
             else if j = 0 then r = Inl U_EEXIST else r = Inl U_EAGAIN)))"

text \<open>
  \<open>waiting k p\<close>: a thread is parked on page \<open>p\<close>, the descriptor is readable with a message that names
  the page, and nobody has asked the handler to stop.
\<close>

definition events_documented :: "'k uos \<Rightarrow> Handler \<Rightarrow> ('k \<Rightarrow> bool) \<Rightarrow> ('k \<Rightarrow> pages) \<Rightarrow> ('k \<Rightarrow> nat \<Rightarrow> bool) \<Rightarrow> bool" where
  "events_documented os h live resident waiting \<longleftrightarrow>
     (\<forall>k p. waiting k p \<longrightarrow>
        (\<exists>r k'. os k LoadStop = (Inr r, k') \<and> ur_val r = 0 \<and> waiting k' p \<and> resident k' = resident k) \<and>
        (\<exists>r k'. os k (PollIn (uf_fd (h_uffd h)) 50) = (Inr r, k') \<and> ur_val r \<noteq> 0 \<and> waiting k' p \<and> resident k' = resident k) \<and>
        (\<exists>r k'. os k (ReadFd (uf_fd (h_uffd h)) 32) = (Inr r, k') \<and> ur_val r = 32 \<and> live k' \<and> resident k' = resident k \<and>
           msg_event (uffd_msg_of_bytes (ur_bytes r)) = UFFD_EVENT_PAGEFAULT \<and>
           on_page h (uffd_msg_of_bytes (ur_bytes r)) p))"

lemma absent_run_le: "absent_run M p n \<le> n"
  by (induction n arbitrary: p) auto

lemma absent_run_pos: "M p = None \<Longrightarrow> 0 < n \<Longrightarrow> 0 < absent_run M p n"
  by (cases n) auto

lemma absent_run_full: "absent_run M p n = n \<longleftrightarrow> (\<forall>q. p \<le> q \<and> q < p + n \<longrightarrow> M q = None)"
proof (induction n arbitrary: p)
  case 0
  then show ?case by auto
next
  case (Suc n)
  have c: "p \<le> q \<longleftrightarrow> q = p \<or> Suc p \<le> q" for q by auto
  have "(\<forall>q. p \<le> q \<and> q < p + Suc n \<longrightarrow> M q = None) \<longleftrightarrow>
      M p = None \<and> (\<forall>q. Suc p \<le> q \<and> q < Suc p + n \<longrightarrow> M q = None)"
    unfolding c by auto
  then show ?case using Suc.IH [of "Suc p"] by simp
qed

section \<open>One fault\<close>

text \<open>The copy that the handler issues for a fault.\<close>

definition fault_copy :: "Handler \<Rightarrow> uffd_msg \<Rightarrow> uffdio_copy" where
  "fault_copy h msg = \<lparr>cp_dst = fault_addr msg, cp_src = h_src h + fault_page h msg * PAGE,
     cp_len = fault_run h msg * PAGE, cp_mode = 0, cp_copy = 0\<rparr>"

definition run_length :: "Handler \<Rightarrow> nat \<Rightarrow> nat" where
  "run_length h p = min (unat (h_batch_pages h)) (unat (h_region_pages h) - p)"

lemma run_length_pos: "handler_ok h \<Longrightarrow> p < unat (h_region_pages h) \<Longrightarrow> 0 < run_length h p"
  by (simp add: run_length_def handler_ok_def word_less_nat_alt)

lemma sint_small: "unat w < 2 ^ 63 \<Longrightarrow> sint w = int (unat w)" for w :: u64
proof -
  assume "unat w < 2 ^ 63"
  then have "int (unat w) < int (2 ^ 63)" by (simp only: of_nat_less_iff)
  then have "int (unat w) < 2 ^ 63" by (simp only: of_nat_power of_nat_numeral)
  then have "signed_take_bit 63 (int (unat w)) = int (unat w)"
    by (intro signed_take_bit_int_eq_self) (linarith, assumption)
  then show ?thesis by (simp add: sint_uint)
qed

lemma handle_msg_copy:
  assumes "msg_event msg = UFFD_EVENT_PAGEFAULT"
  shows "handle_msg os k h st msg =
    (let st1 = st\<lparr>hs_faults := hs_faults st + 1\<rparr>;
         st2 = (if msg_pagefault_flags msg AND UFFD_PAGEFAULT_FLAG_WRITE \<noteq> 0
                then st1\<lparr>hs_write_faults := hs_write_faults st1 + 1\<rparr> else st1);
         (r, k') = os k (IoctlCopy (uf_fd (h_uffd h)) UFFDIO_COPY (fault_copy h msg))
     in case r of
          Inl e \<Rightarrow> if e = U_EEXIST then (True, st2, k') else (False, st2, k')
        | Inr x \<Rightarrow>
            let c = cp_copy (ur_copy x) in
            if sint c < 0 then (if sint c = - U_EEXIST then (True, st2, k') else (False, st2, k'))
            else (True, st2\<lparr>hs_pages_installed := hs_pages_installed st2 + c div PAGE\<rparr>, k'))"
  using assms
  by (simp add: handle_msg_def uffd_copy_def fault_copy_def Let_def split: sum.split prod.split)

text \<open>A run that starts at a present page is reported as EEXIST, which the handler takes for nothing to do.\<close>

lemma fault_handled:
  assumes h: "handler_ok h" "4096 * run_length h p < 2 ^ 63"
    and msg: "msg_event msg = UFFD_EVENT_PAGEFAULT" "on_page h msg p"
    and doc: "copies_documented os h live resident img" and live: "live k"
  defines "n \<equiv> run_length h p" and "j \<equiv> absent_run (resident k) p (run_length h p)"
  shows "\<exists>st' k'. handle_msg os k h st msg = (j = n \<or> j = 0, st', k') \<and> live k' \<and>
    resident k' = installed img (resident k) p j \<and> hs_faults st' = hs_faults st + 1 \<and>
    hs_pages_installed st' = hs_pages_installed st + (if j = n then of_nat n else 0)"
proof -
  note pos = fault_position [OF h(1) msg(2)]
  have p: "p < unat (h_region_pages h)" using msg(2) by (simp add: on_page_def)
  have n: "0 < n" using run_length_pos [OF h(1) p] by (simp add: n_def)
  have run: "unat (fault_run h msg) = n" using pos(4) by (simp add: n_def run_length_def)
  have len: "unat (cp_len (fault_copy h msg)) = 4096 * n" using pos(5) run by (simp add: fault_copy_def)
  have fits: "p + n \<le> unat (h_region_pages h)" using p by (auto simp: n_def run_length_def min_def)
  obtain r k' where call: "os k (IoctlCopy (uf_fd (h_uffd h)) UFFDIO_COPY (fault_copy h msg)) = (r, k')"
    by (cases "os k (IoctlCopy (uf_fd (h_uffd h)) UFFDIO_COPY (fault_copy h msg))")
  have "unat (cp_dst (fault_copy h msg)) = unat (h_region_start h) + 4096 * p"
    "unat (cp_src (fault_copy h msg)) = unat (h_src h) + 4096 * p" "cp_mode (fault_copy h msg) = 0"
    using pos(1,3) by (simp_all add: fault_copy_def)
  with doc [unfolded copies_documented_def, rule_format, of k "fault_copy h msg" p n] live len n fits call
  have res: "live k'" "resident k' = installed img (resident k) p j"
    and r: "if j = n then (\<exists>x. r = Inr x \<and> cp_copy (ur_copy x) = cp_len (fault_copy h msg))
      else if j = 0 then r = Inl U_EEXIST else r = Inl U_EAGAIN"
    by (simp_all add: j_def n_def Let_def)
  have sint: "sint (cp_len (fault_copy h msg)) = int (4096 * n)"
    using sint_small [of "cp_len (fault_copy h msg)"] len h(2) by (simp add: n_def)
  have "cp_len (fault_copy h msg) div PAGE = of_nat n"
    using len h(2) by (simp add: word_unat_eq_iff unat_div PAGE_def n_def unat_of_nat_u64)
  then show ?thesis
    using r n res sint by (cases "j = n"; cases "j = 0") (auto simp: handle_msg_copy [OF msg(1)] call Let_def errnos)
qed

section \<open>One iteration of the loop\<close>

lemma handler_step_waiting:
  assumes doc: "events_documented os h live resident waiting" and w: "waiting k p"
  obtains msg k' where "handler_step os k h st = Some (handle_msg os k' h st msg)" "live k'" "resident k' = resident k"
    "msg_event msg = UFFD_EVENT_PAGEFAULT" "on_page h msg p"
proof -
  let ?u = "uf_fd (h_uffd h)"
  note law = doc [unfolded events_documented_def, rule_format]
  obtain r1 k1 where s1: "os k LoadStop = (Inr r1, k1)" "ur_val r1 = 0" "waiting k1 p" "resident k1 = resident k"
    using law [OF w] by blast
  show ?thesis
  proof (cases "h_spin h")
    case True
    obtain r2 k2 where s2: "os k1 LoadStop = (Inr r2, k2)" "ur_val r2 = 0" "waiting k2 p" "resident k2 = resident k1"
      using law [OF s1(3)] by blast
    obtain r3 k3 where s3: "os k2 (ReadFd ?u 32) = (Inr r3, k3)" "ur_val r3 = 32" "live k3" "resident k3 = resident k2"
        "msg_event (uffd_msg_of_bytes (ur_bytes r3)) = UFFD_EVENT_PAGEFAULT"
        "on_page h (uffd_msg_of_bytes (ur_bytes r3)) p"
      using law [OF s2(3)] by blast
    have "read_event_spin os k1 (h_uffd h) = Some (Inr (Some (uffd_msg_of_bytes (ur_bytes r3))), k3)"
      by (subst read_event_spin.simps) (simp add: load_stop_def s2 s3 uffd_struct_sizes)
    then have "handler_step os k h st = Some (handle_msg os k3 h st (uffd_msg_of_bytes (ur_bytes r3)))"
      using True by (simp add: handler_step_def load_stop_def s1 next_event_def)
    then show ?thesis using that s1 s2 s3 by simp
  next
    case False
    obtain r2 k2 where s2: "os k1 (PollIn ?u 50) = (Inr r2, k2)" "ur_val r2 \<noteq> 0" "waiting k2 p" "resident k2 = resident k1"
      using law [OF s1(3)] by blast
    obtain r3 k3 where s3: "os k2 (ReadFd ?u 32) = (Inr r3, k3)" "ur_val r3 = 32" "live k3" "resident k3 = resident k2"
        "msg_event (uffd_msg_of_bytes (ur_bytes r3)) = UFFD_EVENT_PAGEFAULT"
        "on_page h (uffd_msg_of_bytes (ur_bytes r3)) p"
      using law [OF s2(3)] by blast
    have "read_event os k1 (h_uffd h) 50 = (Inr (Some (uffd_msg_of_bytes (ur_bytes r3))), k3)"
      by (simp add: read_event_def s2 s3 uffd_struct_sizes)
    then have "handler_step os k h st = Some (handle_msg os k3 h st (uffd_msg_of_bytes (ur_bytes r3)))"
      using False by (simp add: handler_step_def load_stop_def s1 next_event_def)
    then show ?thesis using that s1 s2 s3 by simp
  qed
qed

lemma fault_served:
  assumes "handler_ok h" "4096 * run_length h p < 2 ^ 63" "copies_documented os h live resident img"
    and "events_documented os h live resident waiting" "waiting k p" "resident k p = None"
  defines "n \<equiv> run_length h p" and "j \<equiv> absent_run (resident k) p (run_length h p)"
  shows "\<exists>st' k'. handler_step os k h st = Some (j = n, st', k') \<and> live k' \<and> resident k' = installed img (resident k) p j \<and>
    0 < j \<and> hs_faults st' = hs_faults st + 1 \<and>
    hs_pages_installed st' = hs_pages_installed st + (if j = n then of_nat n else 0)"
proof -
  obtain msg k1 where s: "handler_step os k h st = Some (handle_msg os k1 h st msg)" "live k1" "resident k1 = resident k"
      "msg_event msg = UFFD_EVENT_PAGEFAULT" "on_page h msg p"
    by (rule handler_step_waiting [OF assms(4,5)])
  have "p < unat (h_region_pages h)" using s(5) by (simp add: on_page_def)
  then have "0 < absent_run (resident k) p (run_length h p)"
    using absent_run_pos [of "resident k" p "run_length h p"] run_length_pos [OF assms(1), of p] assms(6) by simp
  then show ?thesis
    using fault_handled [where st = st, OF assms(1,2) s(4,5) assms(3) s(2)] unfolding n_def j_def s(1,3) by auto
qed

end
