(* ===== verification/UffdDemo.thy ===== *)
theory UffdDemo
  imports UffdHandler
begin

text \<open>
  The restore of \<^verbatim>\<open>rung-03-uffd/toy-uffd-raw/src/main.rs\<close>: a thread touches pages while the handler serves
  its faults, a walk with prefaulting, and the demo that verifies every byte.

  The two threads alternate: a thread that touches an absent page is parked (\<open>raise\<close>, the kernel's
  doing) and the handler iterates until the page is there. \<open>None\<close> is a thread parked for ever. \<open>resident\<close> reads the page table of the region that was
  mapped last; the program has one region at a time.
\<close>

section \<open>Touching pages\<close>

type_synonym 'k run_state = "bool \<times> HandlerStats \<times> 'k"

text \<open>A parked thread waits until its page is there; when the handler has ended, nobody installs it.\<close>

partial_function (option) serve_page ::
  "'k uos \<Rightarrow> ('k \<Rightarrow> pages) \<Rightarrow> Handler \<Rightarrow> nat \<Rightarrow> HandlerStats \<Rightarrow> 'k \<Rightarrow> (u8 \<times> 'k run_state) option" where
  "serve_page os resident h p st k =
     (case handler_step os k h st of
        None \<Rightarrow> None
      | Some (alive, st', k') \<Rightarrow>
          (case resident k' p of
             Some c \<Rightarrow> Some (c ! 0, alive, st', k')
           | None \<Rightarrow> if alive then serve_page os resident h p st' k' else None))"

definition touch_page :: "'k uos \<Rightarrow> ('k \<Rightarrow> nat \<Rightarrow> 'k) \<Rightarrow> ('k \<Rightarrow> pages) \<Rightarrow> Handler \<Rightarrow> nat \<Rightarrow> 'k run_state
    \<Rightarrow> (u8 \<times> 'k run_state) option" where
  "touch_page os raise resident h p s =
     (case s of (alive, st, k) \<Rightarrow>
      (case resident k p of
         Some c \<Rightarrow> Some (c ! 0, alive, st, k)
       | None \<Rightarrow> if alive then serve_page os resident h p st (raise k p) else None))"

text \<open>A thread that touches pages in order, over any way of touching one.\<close>

fun touch_list :: "(nat \<Rightarrow> 's \<Rightarrow> (u8 \<times> 's) option) \<Rightarrow> nat list \<Rightarrow> 's \<Rightarrow> (u8 list \<times> 's) option" where
  "touch_list touch [] s = Some ([], s)"
| "touch_list touch (p # ps) s =
     (case touch p s of
        None \<Rightarrow> None
      | Some (v, s') \<Rightarrow>
          (case touch_list touch ps s' of
             None \<Rightarrow> None
           | Some (vs, s'') \<Rightarrow> Some (v # vs, s'')))"

abbreviation touch_all :: "'k uos \<Rightarrow> ('k \<Rightarrow> nat \<Rightarrow> 'k) \<Rightarrow> ('k \<Rightarrow> pages) \<Rightarrow> Handler \<Rightarrow> nat list \<Rightarrow> 'k run_state
    \<Rightarrow> (u8 list \<times> 'k run_state) option" where
  "touch_all os raise resident h \<equiv> touch_list (touch_page os raise resident h)"

definition pager_faithful :: "'k uos \<Rightarrow> ('k \<Rightarrow> nat \<Rightarrow> 'k) \<Rightarrow> ('k \<Rightarrow> pages) \<Rightarrow> ('k \<Rightarrow> bool) \<Rightarrow> ('k \<Rightarrow> nat \<Rightarrow> bool)
    \<Rightarrow> Handler \<Rightarrow> (nat \<Rightarrow> u8 list) \<Rightarrow> bool" where
  "pager_faithful os raise resident live waiting h img \<longleftrightarrow>
     copies_documented os h live resident img \<and> events_documented os h live resident waiting \<and>
     (\<forall>k p. live k \<longrightarrow> resident k p = None \<longrightarrow> p < unat (h_region_pages h) \<longrightarrow>
        waiting (raise k p) p \<and> resident (raise k p) = resident k)"

text \<open>Every resident page is the image's.\<close>

definition shows_image :: "(nat \<Rightarrow> u8 list) \<Rightarrow> pages \<Rightarrow> bool" where
  "shows_image img M \<longleftrightarrow> (\<forall>p c. M p = Some c \<longrightarrow> c = img p)"

lemma shows_image_installed: "shows_image img M \<Longrightarrow> shows_image img (installed img M p j)"
  by (simp add: shows_image_def installed_def)

lemma dom_installed: "dom (installed img M p j) = dom M \<union> {p ..< p + j}"
  by (auto simp: installed_def dom_def)

lemma touch_resident:
  assumes "shows_image img (resident k)" "p \<in> dom (resident k)"
  shows "touch_page os raise resident h p (alive, st, k) = Some (img p ! 0, alive, st, k)"
  using assms by (auto simp: touch_page_def shows_image_def)

text \<open>A touch of an absent page: one fault, the run installed, the image's byte read.\<close>

lemma touch_absent:
  assumes "handler_ok h" "4096 * run_length h p < 2 ^ 63" "pager_faithful os raise resident live waiting h img"
    and "live k" "resident k p = None" "p < unat (h_region_pages h)"
  defines "n \<equiv> run_length h p" and "j \<equiv> absent_run (resident k) p (run_length h p)"
  shows "\<exists>st' k'. touch_page os raise resident h p (True, st, k) = Some (img p ! 0, j = n, st', k') \<and>
    live k' \<and> resident k' = installed img (resident k) p j \<and> 0 < j \<and> hs_faults st' = hs_faults st + 1 \<and>
    hs_pages_installed st' = hs_pages_installed st + (if j = n then of_nat n else 0)"
proof -
  have r: "waiting (raise k p) p" "resident (raise k p) = resident k"
    and docs: "copies_documented os h live resident img" "events_documented os h live resident waiting"
    using assms(3-6) by (simp_all add: pager_faithful_def)
  have "resident (raise k p) p = None" using r(2) assms(5) by simp
  then obtain st' k' where s: "handler_step os (raise k p) h st = Some (j = n, st', k')"
      "live k'" "resident k' = installed img (resident k) p j" "0 < j" "hs_faults st' = hs_faults st + 1"
      "hs_pages_installed st' = hs_pages_installed st + (if j = n then of_nat n else 0)"
    using fault_served [where st = st, OF assms(1,2) docs r(1)] unfolding r(2) j_def n_def by blast
  then have "resident k' p = Some (img p)" by (simp add: installed_def)
  then have "serve_page os resident h p st (raise k p) = Some (img p ! 0, j = n, st', k')"
    using s(1) by (subst serve_page.simps) simp
  then have "touch_page os raise resident h p (True, st, k) = Some (img p ! 0, j = n, st', k')"
    using assms(5) by (simp add: touch_page_def)
  then show ?thesis using s(2-6) by blast
qed

section \<open>Pure demand paging\<close>

text \<open>
  What a thread relies on when one page is installed per fault, for the raw handler and for the port: a
  page that is there is read, and a missing one is installed at the cost of one fault.
\<close>

locale demand_pager =
  fixes touch :: "nat \<Rightarrow> 's \<Rightarrow> (u8 \<times> 's) option"
    and resident :: "'s \<Rightarrow> pages"
    and faults :: "'s \<Rightarrow> u64"
    and live :: "'s \<Rightarrow> bool"
    and region_size :: nat
    and img :: "nat \<Rightarrow> u8 list"
  assumes touch_present: "live s \<Longrightarrow> resident s p = Some c \<Longrightarrow> touch p s = Some (c ! 0, s)"
    and touch_missing: "live s \<Longrightarrow> resident s p = None \<Longrightarrow> p < region_size \<Longrightarrow>
      \<exists>s'. touch p s = Some (img p ! 0, s') \<and> live s' \<and> resident s' = (resident s)(p \<mapsto> img p) \<and> faults s' = faults s + 1"
begin

lemma restores:
  "live s \<Longrightarrow> shows_image img (resident s) \<Longrightarrow> set ps \<subseteq> {..< region_size} \<Longrightarrow> finite (dom (resident s)) \<Longrightarrow>
    \<exists>s'. touch_list touch ps s = Some (map (\<lambda>p. img p ! 0) ps, s') \<and> live s' \<and> shows_image img (resident s') \<and>
      dom (resident s') = dom (resident s) \<union> set ps \<and> faults s' = faults s + of_nat (card (set ps - dom (resident s)))"
proof (induction ps arbitrary: s)
  case (Cons p ps)
  have p: "p < region_size" using Cons.prems(3) by simp
  show ?case
  proof (cases "resident s p")
    case (Some c)
    then have c: "c = img p" using Cons.prems(2) by (simp add: shows_image_def)
    have "set (p # ps) - dom (resident s) = set ps - dom (resident s)" using Some by auto
    moreover obtain s' where "touch_list touch ps s = Some (map (\<lambda>p. img p ! 0) ps, s')" "live s'" "shows_image img (resident s')"
        "dom (resident s') = dom (resident s) \<union> set ps" "faults s' = faults s + of_nat (card (set ps - dom (resident s)))"
      using Cons.IH [OF Cons.prems(1,2) _ Cons.prems(4)] Cons.prems(3) by auto
    ultimately show ?thesis
      using touch_present [OF Cons.prems(1) Some] Some c by (auto simp: insert_absorb)
  next
    case None
    obtain s1 where t: "touch p s = Some (img p ! 0, s1)" "live s1" "resident s1 = (resident s)(p \<mapsto> img p)" "faults s1 = faults s + 1"
      using touch_missing [OF Cons.prems(1) None p] by blast
    have pre: "shows_image img (resident s1)" "set ps \<subseteq> {..< region_size}" "finite (dom (resident s1))"
      using Cons.prems(2-4) by (auto simp: t(3) shows_image_def split: if_splits)
    obtain s' where ih: "touch_list touch ps s1 = Some (map (\<lambda>p. img p ! 0) ps, s')" "live s'" "shows_image img (resident s')"
        "dom (resident s') = dom (resident s1) \<union> set ps" "faults s' = faults s1 + of_nat (card (set ps - dom (resident s1)))"
      using Cons.IH [OF t(2) pre] by blast
    have "set (p # ps) - dom (resident s) = insert p (set ps - dom (resident s1))"
      using None by (auto simp: t(3) domIff)
    then have "card (set (p # ps) - dom (resident s)) = Suc (card (set ps - dom (resident s1)))"
      by (simp add: t(3))
    then show ?thesis using t(1,3,4) ih by (simp add: add_ac insert_commute)
  qed
qed simp

end

lemma run_length_one: "h_batch_pages h = 1 \<Longrightarrow> p < unat (h_region_pages h) \<Longrightarrow> run_length h p = 1"
  by (simp add: run_length_def)

text \<open>The handler without prefaulting is such a pager, whichever of its two counters counts.\<close>

definition serving :: "('k \<Rightarrow> bool) \<Rightarrow> 'k run_state \<Rightarrow> bool" where
  "serving live s \<longleftrightarrow> fst s \<and> live (snd (snd s))"

lemma installed_one: "installed img M p 1 = M(p \<mapsto> img p)"
  by (auto simp: installed_def)

lemma handler_pages_on_demand:
  assumes h: "handler_ok h" "h_batch_pages h = 1" "pager_faithful os raise resident live waiting h img"
    and count: "count = hs_faults \<or> count = hs_pages_installed"
  shows "demand_pager (touch_page os raise resident h) (\<lambda>s. resident (snd (snd s))) (\<lambda>s. count (fst (snd s)))
    (serving live) (unat (h_region_pages h)) img"
proof
  fix s :: "'a run_state" and p c
  obtain alive st k where s: "s = (alive, st, k)" by (cases s)
  show "resident (snd (snd s)) p = Some c \<Longrightarrow> touch_page os raise resident h p s = Some (c ! 0, s)"
    by (simp add: s touch_page_def)
  assume "serving live s" "resident (snd (snd s)) p = None" and p: "p < unat (h_region_pages h)"
  then have a: "alive" "live k" "resident k p = None" by (simp_all add: s serving_def)
  have one: "run_length h p = 1" "absent_run (resident k) p 1 = 1"
    using run_length_one [OF h(2) p] a(3) by simp_all
  have "4096 * run_length h p < 2 ^ 63" using one(1) by simp
  from touch_absent [OF h(1) this h(3) a(2,3) p, of st]
  obtain st' k' where t: "touch_page os raise resident h p (True, st, k) = Some (img p ! 0, True, st', k')"
      "live k'" "resident k' = (resident k)(p \<mapsto> img p)" "hs_faults st' = hs_faults st + 1"
      "hs_pages_installed st' = hs_pages_installed st + 1"
    unfolding one installed_one by auto
  have "touch_page os raise resident h p s = Some (img p ! 0, True, st', k')" using t(1) a(1) by (simp add: s)
  moreover have "serving live (True, st', k')" using t(2) by (simp add: serving_def)
  moreover have "count st' = count st + 1" using count t(4,5) by auto
  ultimately show "\<exists>s'. touch_page os raise resident h p s = Some (img p ! 0, s') \<and> serving live s' \<and>
      resident (snd (snd s')) = (resident (snd (snd s)))(p \<mapsto> img p) \<and> count (fst (snd s')) = count (fst (snd s)) + 1"
    using t(3) by (intro exI [of _ "(True, st', k')"]) (simp add: s)
qed

lemma touches_restore_aux:
  assumes h: "handler_ok h" "h_batch_pages h = 1" "pager_faithful os raise resident live waiting h img"
    and k: "live k" "shows_image img (resident k)" "set ps \<subseteq> {..< unat (h_region_pages h)}" "finite (dom (resident k))"
  shows "\<exists>st' k'. touch_all os raise resident h ps (True, st, k) = Some (map (\<lambda>p. img p ! 0) ps, True, st', k') \<and>
      live k' \<and> shows_image img (resident k') \<and> dom (resident k') = dom (resident k) \<union> set ps \<and>
      hs_faults st' = hs_faults st + of_nat (card (set ps - dom (resident k))) \<and>
      hs_pages_installed st' = hs_pages_installed st + of_nat (card (set ps - dom (resident k)))"
proof -
  have s: "serving live (True, st, k)" "shows_image img (resident (snd (snd (True, st, k))))"
    "finite (dom (resident (snd (snd (True, st, k)))))"
    using k by (simp_all add: serving_def)
  show ?thesis
    using demand_pager.restores [OF handler_pages_on_demand [where count = hs_faults, OF h disjI1 [OF refl]] s(1,2) k(3) s(3)]
      demand_pager.restores [OF handler_pages_on_demand [where count = hs_pages_installed, OF h disjI2 [OF refl]] s(1,2) k(3) s(3)]
    by (auto simp: serving_def)
qed

section \<open>A walk with prefaulting\<close>

text \<open>Walking a region in order with batches: one fault per batch, and no page is copied twice.\<close>

definition batches :: "Handler \<Rightarrow> nat \<Rightarrow> nat" where
  "batches h m = (unat (h_region_pages h) - m + unat (h_batch_pages h) - 1) div unat (h_batch_pages h)"

lemma ceiling_step: "0 < b \<Longrightarrow> 0 < r \<Longrightarrow> (r + b - 1) div b = Suc ((r - min b r + b - 1) div b)" for b r :: nat
proof (cases "r \<le> b")
  case True
  assume pos: "0 < b" "0 < r"
  then have "(r + b - 1) div b = Suc ((r - 1) div b)"
    by (metis Nat.add_diff_assoc2 One_nat_def Suc_leI add.commute div_add_self1 less_not_refl plus_1_eq_Suc)
  then show ?thesis using True pos by (simp add: min_absorb2)
next
  case False
  assume pos: "0 < b" "0 < r"
  obtain c where c: "r = b + c" "0 < c" using False by (metis less_imp_add_positive not_le)
  have "r + b - 1 = (c + b - 1) + b" "r - min b r = c" using pos c by simp_all
  then have "(r + b - 1) div b = ((c + b - 1) + b) div b" "r - min b r + b - 1 = c + b - 1" by simp_all
  then show ?thesis using pos(1) by (simp only: div_add_self2)
qed

lemma batches_step:
  assumes "0 < unat (h_batch_pages h)" "m < unat (h_region_pages h)"
  shows "batches h m = Suc (batches h (m + run_length h m))"
  using ceiling_step [of "unat (h_batch_pages h)" "unat (h_region_pages h) - m"] assms
  by (simp add: batches_def run_length_def)

lemma walk_aux:
  assumes h: "handler_ok h" "\<forall>p. 4096 * run_length h p < 2 ^ 63" "pager_faithful os raise resident live waiting h img"
  shows "i \<le> m \<Longrightarrow> m \<le> unat (h_region_pages h) \<Longrightarrow> live k \<Longrightarrow> shows_image img (resident k) \<Longrightarrow> dom (resident k) = {..< m} \<Longrightarrow>
    \<exists>st' k'. touch_all os raise resident h [i ..< unat (h_region_pages h)] (True, st, k) =
        Some (map (\<lambda>p. img p ! 0) [i ..< unat (h_region_pages h)], True, st', k') \<and>
      live k' \<and> shows_image img (resident k') \<and> dom (resident k') = {..< unat (h_region_pages h)} \<and>
      hs_faults st' = hs_faults st + of_nat (batches h m) \<and>
      hs_pages_installed st' = hs_pages_installed st + of_nat (unat (h_region_pages h) - m)"
proof (induction "unat (h_region_pages h) - i" arbitrary: i m st k)
  case 0
  have b: "0 < unat (h_batch_pages h)" using h(1) by (simp add: handler_ok_def word_less_nat_alt)
  have "i = m" "m = unat (h_region_pages h)" using 0 by simp_all
  then show ?case using 0 b by (simp add: batches_def)
next
  case (Suc d)
  let ?N = "unat (h_region_pages h)"
  have i: "i < ?N" "d = ?N - Suc i" using Suc.hyps(2) by simp_all
  have list: "[i ..< ?N] = i # [Suc i ..< ?N]" using i(1) by (rule upt_conv_Cons)
  have b: "0 < unat (h_batch_pages h)" using h(1) by (simp add: handler_ok_def word_less_nat_alt)
  show ?case
  proof (cases "i < m")
    case True
    then have "i \<in> dom (resident k)" using Suc.prems(5) by simp
    then have t: "touch_page os raise resident h i (True, st, k) = Some (img i ! 0, True, st, k)"
      using touch_resident [of img resident k i os raise h True st] Suc.prems(4) by simp
    show ?thesis
      using Suc.hyps(1) [OF i(2) _ Suc.prems(2-5), of st] True t list by auto
  next
    case False
    then have m: "m = i" using Suc.prems(1) by simp
    define n where "n = run_length h i"
    have absent: "resident k i = None" using Suc.prems(5) m by (auto simp: domIff)
    have "\<And>q. i \<le> q \<Longrightarrow> resident k q = None" using Suc.prems(5) m by (metis domIff lessThan_iff not_le)
    then have full: "absent_run (resident k) i (run_length h i) = n"
      unfolding n_def by (subst absent_run_full) auto
    have n: "0 < n" "i + n \<le> ?N"
      using run_length_pos [OF h(1) i(1)] i(1) by (auto simp: n_def run_length_def min_def)
    obtain st1 k1 where t: "touch_page os raise resident h i (True, st, k) = Some (img i ! 0, True, st1, k1)"
        "live k1" "resident k1 = installed img (resident k) i n" "hs_faults st1 = hs_faults st + 1"
        "hs_pages_installed st1 = hs_pages_installed st + of_nat n"
      using touch_absent [where st = st, OF h(1) _ h(3) Suc.prems(3) absent i(1)] h(2) full n_def by auto
    have dom1: "dom (resident k1) = {..< i + n}" "shows_image img (resident k1)"
      unfolding t(3) using Suc.prems(4,5) m by (auto simp: dom_installed shows_image_installed)
    obtain st' k' where ih: "touch_all os raise resident h [Suc i ..< ?N] (True, st1, k1) =
          Some (map (\<lambda>p. img p ! 0) [Suc i ..< ?N], True, st', k')"
        "live k'" "shows_image img (resident k')" "dom (resident k') = {..< ?N}"
        "hs_faults st' = hs_faults st1 + of_nat (batches h (i + n))"
        "hs_pages_installed st' = hs_pages_installed st1 + of_nat (?N - (i + n))"
      using Suc.hyps(1) [OF i(2) _ n(2) t(2) dom1(2,1), of st1] n(1) by auto
    have "batches h m = Suc (batches h (i + n))"
      using batches_step [OF b, of m] m i(1) by (simp add: n_def)
    moreover have "?N - m = n + (?N - (i + n))" using m n(2) by simp
    then have "(of_nat (?N - m) :: u64) = of_nat n + of_nat (?N - (i + n))" by (metis of_nat_add)
    ultimately show ?thesis
      using t(1,4,5) ih list by (simp add: add_ac)
  qed
qed

section \<open>The demo\<close>

definition DEMO_PAGES :: u64 where "DEMO_PAGES = 64"

text \<open>The image: page \<open>p\<close> filled with byte \<open>p\<close>. The buffer is the concatenation of its pages.\<close>

definition demo_page :: "nat \<Rightarrow> u8 list" where
  "demo_page p = replicate (unat PAGE) (word_of_nat p)"

definition demo_image :: "u8 list" where
  "demo_image = concat (map demo_page [0 ..< unat DEMO_PAGES])"

text \<open>Page \<open>p\<close> of a buffer.\<close>

definition page_of :: "u8 list \<Rightarrow> nat \<Rightarrow> u8 list" where
  "page_of buf p = window (unat PAGE * p) (unat PAGE) buf"

definition demo_order :: "nat list" where
  "demo_order = [7, 0, 63, 31, 7, 32, 1, 31]"

definition demo_handler :: "Uffd \<Rightarrow> Region \<Rightarrow> u64 \<Rightarrow> Handler" where
  "demo_handler u r src =
     \<lparr>h_uffd = u, h_region_start = rgn_ptr r, h_region_pages = region_pages r, h_src = src,
      h_batch_pages = 1, h_spin = False\<rparr>"

datatype UDemoError = UDemoOs UError | WrongPage | WrongFaults nat u64

fun demo_touches :: "'k uos \<Rightarrow> ('k \<Rightarrow> nat \<Rightarrow> 'k) \<Rightarrow> ('k \<Rightarrow> pages) \<Rightarrow> Handler \<Rightarrow> nat list \<Rightarrow> 'k run_state
    \<Rightarrow> (bool \<times> 'k run_state) option" where
  "demo_touches os raise resident h [] s = Some (True, s)"
| "demo_touches os raise resident h (p # ps) s =
     (case touch_page os raise resident h p s of
        None \<Rightarrow> None
      | Some (got, s') \<Rightarrow>
          if got \<noteq> word_of_nat p then Some (False, s') else demo_touches os raise resident h ps s')"

text \<open>\<open>place k buf\<close> is the address that the allocator gives a buffer with these contents.\<close>

definition uffd_demo :: "'k uos \<Rightarrow> ('k \<Rightarrow> nat \<Rightarrow> 'k) \<Rightarrow> ('k \<Rightarrow> pages) \<Rightarrow> ('k \<Rightarrow> u8 list \<Rightarrow> u64) \<Rightarrow> 'k
    \<Rightarrow> ((UDemoError, HandlerStats) outcome \<times> 'k) option" where
  "uffd_demo os raise resident place k0 =
     (case uffd_new os k0 True of
        (Inl e, k1) \<Rightarrow> Some (Err (UDemoOs e), k1)
      | (Inr (u, restricted), k1) \<Rightarrow>
     (case region_new os k1 DEMO_PAGES of
        (Err e, k2) \<Rightarrow> Some (Err (UDemoOs e), k2)
      | (Panic, k2) \<Rightarrow> Some (Panic, k2)
      | (Ok r, k2) \<Rightarrow>
     (case register_missing os k2 u (rgn_ptr r) (rgn_len r) of
        (Inl e, k3) \<Rightarrow> Some (Err (UDemoOs e), k3)
      | (Inr ioctls, k3) \<Rightarrow>
     (case demo_touches os raise resident (demo_handler u r (place k2 demo_image)) demo_order (True, handler_stats_default, k3) of
        None \<Rightarrow> None
      | Some (ok, alive, st, k4) \<Rightarrow>
          if \<not> ok then Some (Err WrongPage, k4)
          else let distinct_pages = length (remdups demo_order) in
            if hs_faults st \<noteq> word_of_nat distinct_pages then
              Some (Err (WrongFaults distinct_pages (hs_faults st)), k4)
            else Some (Ok st, k4)))))"

lemma demo_touches_all:
  assumes "touch_all os raise resident h ps s = Some (map word_of_nat ps, s')"
  shows "demo_touches os raise resident h ps s = Some (True, s')"
  using assms
  by (induction ps arbitrary: s) (auto split: option.splits)

lemma demo_page_first: "demo_page p ! 0 = word_of_nat p"
  by (simp add: demo_page_def PAGE_def)

lemma window_concat:
  assumes "list_all (\<lambda>x. length x = n) xs" "p < length xs"
  shows "window (n * p) n (concat xs) = xs ! p"
  using assms
proof (induction xs arbitrary: p)
  case (Cons x xs)
  then show ?case by (cases p) (simp_all add: window_def)
qed simp

lemma demo_image_page: "p < 64 \<Longrightarrow> page_of demo_image p = demo_page p"
  using window_concat [of "unat PAGE" "map demo_page [0 ..< unat DEMO_PAGES]" p]
  by (simp add: page_of_def demo_image_def demo_page_def list_all_iff DEMO_PAGES_def)

lemma demo_restores:
  fixes os :: "'k uos" and place :: "'k \<Rightarrow> u8 list \<Rightarrow> u64"
  assumes new: "uffd_new os k0 True = (Inr (u, restricted), k1)" "region_new os k1 DEMO_PAGES = (Ok r, k2)"
      "register_missing os k2 u (rgn_ptr r) (rgn_len r) = (Inr i, k3)"
  defines "h \<equiv> demo_handler u r (place k2 demo_image)"
  assumes h: "handler_ok h" "region_pages r = DEMO_PAGES"
    and pager: "pager_faithful os raise resident live waiting h (page_of demo_image)"
    and start: "live k3" "resident k3 = Map.empty"
  shows "\<exists>st k'. uffd_demo os raise resident place k0 = Some (Ok st, k') \<and> hs_faults st = 6 \<and> hs_pages_installed st = 6"
proof -
  have pages: "h_batch_pages h = 1" "unat (h_region_pages h) = 64"
    using h(2) by (simp_all add: h_def demo_handler_def DEMO_PAGES_def)
  have pre: "shows_image (page_of demo_image) (resident k3)" "set demo_order \<subseteq> {..< unat (h_region_pages h)}"
    "finite (dom (resident k3))"
    using start(2) pages(2) by (simp_all add: shows_image_def demo_order_def)
  have six: "length (remdups demo_order) = 6" by (simp add: demo_order_def)
  then have six': "card (set demo_order) = 6" by (simp only: length_remdups_card_conv)
  obtain st k' where t: "touch_all os raise resident h demo_order (True, handler_stats_default, k3) =
        Some (map (\<lambda>p. page_of demo_image p ! 0) demo_order, True, st, k')"
      "hs_faults st = hs_faults handler_stats_default + of_nat (card (set demo_order - dom (resident k3)))"
      "hs_pages_installed st = hs_pages_installed handler_stats_default + of_nat (card (set demo_order - dom (resident k3)))"
    using touches_restore_aux [where st = handler_stats_default, OF h(1) pages(1) pager start(1) pre] by blast
  have "map (\<lambda>p. page_of demo_image p ! 0) demo_order = map word_of_nat demo_order"
    by (simp add: demo_order_def demo_image_page demo_page_first)
  then have "demo_touches os raise resident h demo_order (True, handler_stats_default, k3) = Some (True, True, st, k')"
    using t(1) by (intro demo_touches_all) simp
  then have "uffd_demo os raise resident place k0 = Some (Ok st, k')"
    using t(2) six six' start(2) by (simp add: uffd_demo_def new Let_def handler_stats_default_def h_def [symmetric])
  then show ?thesis
    using t(2,3) six six' start(2) by (simp add: handler_stats_default_def)
qed

end
