(* ===== verification/Topology.thy ===== *)
theory Topology
  imports Strings
begin

text \<open>
  CPU topology from \<^verbatim>\<open>rung-03-uffd/toy-uffd-raw/src/topology.rs\<close>: the parser of sysfs CPU lists and the
  choice of a CPU for each placement. The file system is a parameter that gives a file's text or
  nothing, and so is the number of online CPUs. Texts are ASCII, as sysfs writes them; a CPU number
  (\<^verbatim>\<open>usize\<close>) is a natural number below 2^64. Pinning and \<^verbatim>\<open>sched_getcpu\<close> are not modelled.
\<close>

section \<open>CPU lists\<close>

type_synonym files = "string \<Rightarrow> string option"

definition list_part :: "string \<Rightarrow> nat list" where
  "list_part part =
     (case split_once CHR ''-'' part of
        Some (a, b) \<Rightarrow>
          (case (parse_usize (trim a), parse_usize (trim b)) of
             (Some x, Some y) \<Rightarrow> [x ..< Suc y]
           | _ \<Rightarrow> [])
      | None \<Rightarrow> (case parse_usize (trim part) of Some v \<Rightarrow> [v] | None \<Rightarrow> []))"

definition read_list :: "files \<Rightarrow> string \<Rightarrow> nat list" where
  "read_list fs path =
     (case fs path of
        None \<Rightarrow> []
      | Some s \<Rightarrow> concat (map list_part (split_char CHR '','' (trim s))))"

definition read_first :: "files \<Rightarrow> string \<Rightarrow> nat option" where
  "read_first fs path = (case read_list fs path of [] \<Rightarrow> None | x # xs \<Rightarrow> Some x)"

section \<open>Placements\<close>

datatype Placement = SameCpu | SmtSibling | OtherCore

definition placement_name :: "Placement \<Rightarrow> string" where
  "placement_name p =
     (case p of SameCpu \<Rightarrow> ''same logical CPU'' | SmtSibling \<Rightarrow> ''SMT sibling''
      | OtherCore \<Rightarrow> ''different physical core'')"

record Topology =
  tp_faulter :: nat
  tp_smt_sibling :: "nat option"
  tp_other_core :: "nat option"

definition cpu_file :: "nat \<Rightarrow> string \<Rightarrow> string" where
  "cpu_file cpu name = ''/sys/devices/system/cpu/cpu'' @ decimal cpu @ ''/topology/'' @ name"

definition detect :: "files \<Rightarrow> nat \<Rightarrow> nat \<Rightarrow> Topology" where
  "detect fs num_cpus faulter =
     (let siblings = read_list fs (cpu_file faulter ''thread_siblings_list'');
          smt_sibling = find (\<lambda>c. c \<noteq> faulter) siblings;
          my_core = read_first fs (cpu_file faulter ''core_id'');
          other_core = find (\<lambda>c. c \<noteq> faulter \<and> Some c \<noteq> smt_sibling \<and>
            read_first fs (cpu_file c ''core_id'') \<noteq> my_core) [0 ..< num_cpus]
      in \<lparr>tp_faulter = faulter, tp_smt_sibling = smt_sibling, tp_other_core = other_core\<rparr>)"

definition cpu_for :: "Topology \<Rightarrow> Placement \<Rightarrow> nat option" where
  "cpu_for t p =
     (case p of SameCpu \<Rightarrow> Some (tp_faulter t) | SmtSibling \<Rightarrow> tp_smt_sibling t | OtherCore \<Rightarrow> tp_other_core t)"

text \<open>\<^verbatim>\<open>sysconf\<close> may report an error as a negative number.\<close>

definition num_cpus :: "int \<Rightarrow> nat" where
  "num_cpus n = (if n < 1 then 1 else nat n)"

section \<open>Parsing what sysfs prints\<close>

text \<open>An entry of a CPU list is one CPU or a range.\<close>

definition render_entry :: "nat \<times> nat \<Rightarrow> string" where
  "render_entry e = (if fst e = snd e then decimal (fst e) else decimal (fst e) @ CHR ''-'' # decimal (snd e))"

fun render_list :: "(nat \<times> nat) list \<Rightarrow> string" where
  "render_list [] = []"
| "render_list [e] = render_entry e"
| "render_list (e # es) = render_entry e @ CHR '','' # render_list es"

lemma render_entry_chars: "list_all (\<lambda>c. c \<noteq> CHR '','' \<and> \<not> is_space c) (render_entry e)"
  using decimal_digits(1) digit_facts
  by (auto simp: render_entry_def list_all_iff is_space_def Let_def)

lemma list_part_render:
  assumes "fst e \<le> snd e" "snd e < 2 ^ 64"
  shows "list_part (render_entry e) = [fst e ..< Suc (snd e)]"
proof -
  have chars: "\<forall>c \<in> set (decimal n). \<not> is_space c \<and> c \<noteq> CHR ''-''" for n
    using decimal_digits(1) [of n] digit_facts unfolding list_all_iff by blast
  have t: "trim (decimal n) = decimal n" "CHR ''-'' \<notin> set (decimal n)" for n
    using chars [of n] trim_nonspace [of "decimal n"] unfolding list_all_iff by blast+
  show ?thesis
  proof (cases "fst e = snd e")
    case True
    then show ?thesis
      using parse_decimal [OF assms(2)] t by (simp add: render_entry_def list_part_def split_once_absent)
  next
    case False
    have "parse_usize (decimal (fst e)) = Some (fst e)" using assms by (intro parse_decimal) simp
    then show ?thesis
      using False parse_decimal [OF assms(2)] t by (simp add: render_entry_def list_part_def split_once_first)
  qed
qed

lemma render_list_chars: "list_all (\<lambda>c. \<not> is_space c) (render_list es)"
proof (induction es rule: render_list.induct)
  case (2 e)
  then show ?case using render_entry_chars [of e] by (simp add: list_all_iff)
next
  case (3 e e' es)
  then show ?case using render_entry_chars [of e] by (auto simp: list_all_iff is_space_def Let_def)
qed simp

lemma parts_render:
  assumes "list_all (\<lambda>e. fst e \<le> snd e \<and> snd e < 2 ^ 64) es"
  shows "concat (map list_part (split_char CHR '','' (render_list es))) = concat (map (\<lambda>e. [fst e ..< Suc (snd e)]) es)"
  using assms
proof (induction es rule: render_list.induct)
  case 1
  then show ?case by (simp add: list_part_def parse_below_def trim_def Let_def)
next
  case (2 e)
  have "CHR '','' \<notin> set (render_entry e)" using render_entry_chars [of e] by (auto simp: list_all_iff)
  then show ?case using 2 by (simp add: split_char_absent list_part_render)
next
  case (3 e e' es)
  have "CHR '','' \<notin> set (render_entry e)" using render_entry_chars [of e] by (auto simp: list_all_iff)
  then show ?case using 3 by (simp add: split_char_first list_part_render)
qed

lemma read_list_render:
  assumes "list_all (\<lambda>e. fst e \<le> snd e \<and> snd e < 2 ^ 64) es" "fs path = Some (render_list es @ [char_of (10 :: nat)])"
  shows "read_list fs path = concat (map (\<lambda>e. [fst e ..< Suc (snd e)]) es)"
proof -
  have sp: "is_space (char_of (10 :: nat))" by (simp add: is_space_def Let_def)
  have "trim (render_list es @ [char_of (10 :: nat)]) = render_list es"
  proof (cases "render_list es")
    case Nil
    then show ?thesis using sp by (simp add: trim_def)
  next
    case (Cons c cs)
    then have "\<not> is_space c" using render_list_chars [of es] by simp
    then have "trim (render_list es @ [char_of (10 :: nat)]) = rev (dropWhile is_space (rev (render_list es)))"
      using Cons sp by (simp add: trim_def)
    also have "\<dots> = trim (render_list es)"
      using Cons \<open>\<not> is_space c\<close> by (simp add: trim_def)
    finally show ?thesis using trim_nonspace [OF render_list_chars] by simp
  qed
  then show ?thesis using parts_render [OF assms(1)] assms(2) by (simp add: read_list_def)
qed

section \<open>The chosen CPUs\<close>

lemma find_Some: "find P xs = Some x \<Longrightarrow> P x \<and> x \<in> set xs"
  by (auto simp: find_Some_iff)

lemma detect_facts:
  assumes "t = detect fs n f"
  shows "tp_smt_sibling t = Some c \<Longrightarrow> c \<noteq> f \<and> c \<in> set (read_list fs (cpu_file f ''thread_siblings_list''))"
    "tp_other_core t = Some c \<Longrightarrow> c \<noteq> f \<and> c < n \<and> tp_smt_sibling t \<noteq> Some c \<and>
      read_first fs (cpu_file c ''core_id'') \<noteq> read_first fs (cpu_file f ''core_id'')"
    "tp_smt_sibling t = None \<longleftrightarrow> set (read_list fs (cpu_file f ''thread_siblings_list'')) \<subseteq> {f}"
  using assms
  by (auto simp: detect_def Let_def find_None_iff dest: find_Some)

end
