(* ===== verification/UffdBench.thy ===== *)
theory UffdBench
  imports UffdDemo Topology Samples
begin

text \<open>
  The benchmark of \<^verbatim>\<open>rung-03-uffd/toy-uffd-raw/src/main.rs\<close> and its \<^verbatim>\<open>main\<close>: the sweep over handler placements
  and batch sizes, the statistics and the file of samples, and the command line.

  What the program meets besides system calls is a \<open>Host\<close>: how a touch raises a fault or is resolved by
  the kernel itself (\<open>ho_anon\<close>), the page table, the allocator, the file system and the number of CPUs.
  The clock is read off the kernel's state: \<open>ho_lap k k'\<close> is the time from \<open>k\<close> to \<open>k'\<close> in nanoseconds.
  Printing, and failures of writing the file, are not modelled.
\<close>

section \<open>Pinning\<close>

definition CPU_SETSIZE :: nat where "CPU_SETSIZE = 1024"

text \<open>\<^verbatim>\<open>CPU_SET\<close> indexes the words of a set of \<open>CPU_SETSIZE\<close> bits and panics beyond it.\<close>

definition pin_to :: "'k uos \<Rightarrow> nat \<Rightarrow> 'k \<Rightarrow> (UError, unit) outcome \<times> 'k" where
  "pin_to os cpu k =
     (if CPU_SETSIZE \<le> cpu then (Panic, k)
      else (case os k (SchedSetaffinity [cpu]) of
          (Inl e, k') \<Rightarrow> (Err (UOs e), k')
        | (Inr _, k') \<Rightarrow> (Ok (), k')))"

section \<open>Timed walks\<close>

definition BENCH_PAGES :: u64 where "BENCH_PAGES = 4096"
definition BENCH_ROUNDS :: nat where "BENCH_ROUNDS = 25"
definition FAULTER_CPU :: nat where "FAULTER_CPU = 0"

text \<open>A round drops every page and times the touch of each, in order; the byte that is read is discarded.\<close>

fun timed_walk :: "('s \<Rightarrow> 's \<Rightarrow> u64) \<Rightarrow> (nat \<Rightarrow> 's \<Rightarrow> 's option) \<Rightarrow> nat list \<Rightarrow> 's \<Rightarrow> (u64 list \<times> 's) option" where
  "timed_walk lap touch [] s = Some ([], s)"
| "timed_walk lap touch (p # ps) s =
     (case touch p s of
        None \<Rightarrow> None
      | Some s1 \<Rightarrow>
          (case timed_walk lap touch ps s1 of None \<Rightarrow> None | Some (ts, s2) \<Rightarrow> Some (lap s s1 # ts, s2)))"

fun timed_rounds :: "('s \<Rightarrow> 's \<Rightarrow> u64) \<Rightarrow> ('s \<Rightarrow> (UError + unit) \<times> 's) \<Rightarrow> (nat \<Rightarrow> 's \<Rightarrow> 's option) \<Rightarrow> nat
    \<Rightarrow> u64 list \<Rightarrow> u64 \<Rightarrow> 's \<Rightarrow> ((UError + u64 list \<times> u64) \<times> 's) option" where
  "timed_rounds lap reset touch 0 samples walk_ns s = Some (Inr (samples, walk_ns), s)"
| "timed_rounds lap reset touch (Suc rounds) samples walk_ns s =
     (case reset s of
        (Inl e, s1) \<Rightarrow> Some (Inl e, s1)
      | (Inr _, s1) \<Rightarrow>
          (case timed_walk lap touch [0 ..< unat BENCH_PAGES] s1 of
             None \<Rightarrow> None
           | Some (ts, s2) \<Rightarrow> timed_rounds lap reset touch rounds (samples @ ts) (walk_ns + lap s1 s2) s2))"

section \<open>One configuration\<close>

record 'k Host =
  ho_raise :: "'k \<Rightarrow> nat \<Rightarrow> 'k"
  ho_resident :: "'k \<Rightarrow> pages"
  ho_anon :: "'k \<Rightarrow> nat \<Rightarrow> 'k"
  ho_place :: "'k \<Rightarrow> u8 list \<Rightarrow> u64"
  ho_lap :: "'k \<Rightarrow> 'k \<Rightarrow> u64"
  ho_files :: files
  ho_cpus :: int

record Config =
  cf_label :: string
  cf_handler_cpu :: "nat option"
  cf_batch :: u64
  cf_spin :: bool

record UStats =
  us_p50 :: u64
  us_p90 :: u64
  us_p99 :: u64
  us_p999 :: u64
  us_max :: u64

definition ustats_from :: "u64 list \<Rightarrow> UStats option" where
  "ustats_from samples =
     (if samples = [] then None
      else let v = sort samples
        in Some \<lparr>us_p50 = quantile P50 v, us_p90 = quantile P90 v, us_p99 = quantile P99 v,
             us_p999 = quantile P999 v, us_max = v ! (length v - 1)\<rparr>)"

record RunResult =
  rr_samples :: "u64 list"
  rr_stats :: UStats
  rr_faults :: u64
  rr_walk_ns :: u64

definition baseline_rounds :: "'k uos \<Rightarrow> 'k Host \<Rightarrow> Region \<Rightarrow> 'k \<Rightarrow> ((UError + u64 list \<times> u64) \<times> 'k) option" where
  "baseline_rounds os ho r k =
     timed_rounds (ho_lap ho) (\<lambda>k. region_reset os k r)
       (\<lambda>p k. Some (if ho_resident ho k p = None then ho_anon ho k p else k)) BENCH_ROUNDS [] 0 k"

definition BENCH_IMAGE :: "u8 list" where
  "BENCH_IMAGE = replicate (unat (BENCH_PAGES * PAGE)) 0xAB"

definition bench_handler :: "Uffd \<Rightarrow> Region \<Rightarrow> u64 \<Rightarrow> Config \<Rightarrow> Handler" where
  "bench_handler u r src cfg =
     \<lparr>h_uffd = u, h_region_start = rgn_ptr r, h_region_pages = region_pages r, h_src = src,
      h_batch_pages = cf_batch cfg, h_spin = cf_spin cfg\<rparr>"

text \<open>The handler's thread pins itself; only a panic there keeps it from serving faults.\<close>

definition paged_rounds :: "'k uos \<Rightarrow> 'k Host \<Rightarrow> Config \<Rightarrow> nat \<Rightarrow> Region \<Rightarrow> 'k
    \<Rightarrow> ((UError + u64 list \<times> u64 \<times> u64) \<times> 'k) option" where
  "paged_rounds os ho cfg cpu r k0 =
     (case uffd_new os k0 True of
        (Inl e, k1) \<Rightarrow> Some (Inl e, k1)
      | (Inr (u, restricted), k1) \<Rightarrow>
     (case register_missing os k1 u (rgn_ptr r) (rgn_len r) of
        (Inl e, k2) \<Rightarrow> Some (Inl e, k2)
      | (Inr ioctls, k2) \<Rightarrow>
     (case pin_to os cpu k2 of
        (pinned, k3) \<Rightarrow>
     let h = bench_handler u r (ho_place ho k2 BENCH_IMAGE) cfg in
     (case timed_rounds (\<lambda>s s'. ho_lap ho (snd (snd s)) (snd (snd s')))
          (\<lambda>(alive, st, k). case region_reset os k r of (res, k') \<Rightarrow> (res, alive, st, k'))
          (\<lambda>p s. map_option snd (touch_page os (ho_raise ho) (ho_resident ho) h p s))
          BENCH_ROUNDS [] 0 (pinned \<noteq> Panic, handler_stats_default, k3) of
        None \<Rightarrow> None
      | Some (Inl e, alive, st, k4) \<Rightarrow> Some (Inl e, k4)
      | Some (Inr (samples, walk_ns), alive, st, k4) \<Rightarrow> Some (Inr (samples, walk_ns, hs_faults st), k4)))))"

definition run_config :: "'k uos \<Rightarrow> 'k Host \<Rightarrow> Config \<Rightarrow> 'k \<Rightarrow> ((UError, RunResult) outcome \<times> 'k) option" where
  "run_config os ho cfg k0 =
     (case region_new os k0 BENCH_PAGES of
        (Err e, k1) \<Rightarrow> Some (Err e, k1)
      | (Panic, k1) \<Rightarrow> Some (Panic, k1)
      | (Ok r, k1) \<Rightarrow>
     (case (case cf_handler_cpu cfg of
          None \<Rightarrow> map_option (apfst (map_sum id (\<lambda>(samples, walk_ns). (samples, walk_ns, 0)))) (baseline_rounds os ho r k1)
        | Some cpu \<Rightarrow> paged_rounds os ho cfg cpu r k1) of
        None \<Rightarrow> None
      | Some (Inl e, k2) \<Rightarrow> Some (Err e, k2)
      | Some (Inr (samples, walk_ns, faults), k2) \<Rightarrow>
          (case ustats_from samples of
             None \<Rightarrow> Some (Panic, k2)
           | Some st \<Rightarrow>
               Some (Ok \<lparr>rr_samples = samples, rr_stats = st, rr_faults = faults, rr_walk_ns = walk_ns\<rparr>, k2))))"

section \<open>The sweep\<close>

definition baseline_config :: Config where
  "baseline_config = \<lparr>cf_label = ''no uffd (kernel anon fault)'', cf_handler_cpu = None, cf_batch = 0, cf_spin = False\<rparr>"

definition placement_configs :: "Topology \<Rightarrow> Placement \<Rightarrow> Config list" where
  "placement_configs topo p =
     (case cpu_for topo p of
        None \<Rightarrow> []
      | Some cpu \<Rightarrow>
          [\<lparr>cf_label = ''uffd batch=1, '' @ placement_name p @ '' (poll)'', cf_handler_cpu = Some cpu, cf_batch = 1, cf_spin = False\<rparr>,
           \<lparr>cf_label = ''uffd batch=1, '' @ placement_name p @ '' (spin)'', cf_handler_cpu = Some cpu, cf_batch = 1, cf_spin = True\<rparr>])"

definition batch_configs :: "Topology \<Rightarrow> Config list" where
  "batch_configs topo =
     (case tp_other_core topo of
        None \<Rightarrow> []
      | Some cpu \<Rightarrow>
          map (\<lambda>batch. \<lparr>cf_label = ''uffd batch='' @ decimal batch @ '', different physical core (poll)'',
              cf_handler_cpu = Some cpu, cf_batch = word_of_nat batch, cf_spin = False\<rparr>) [2, 4, 8, 16, 64])"

definition sweep_configs :: "Topology \<Rightarrow> bool \<Rightarrow> Config list" where
  "sweep_configs topo reverse =
     (let configs = [baseline_config] @ concat (map (placement_configs topo) [OtherCore, SmtSibling, SameCpu]) @ batch_configs topo
      in if reverse then rev configs else configs)"

type_synonym sweep_row = "string \<times> u64 \<times> RunResult"

fun run_configs :: "'k uos \<Rightarrow> 'k Host \<Rightarrow> Config list \<Rightarrow> sweep_row list \<Rightarrow> 'k
    \<Rightarrow> ((UError, sweep_row list) outcome \<times> 'k) option" where
  "run_configs os ho [] rows k = Some (Ok rows, k)"
| "run_configs os ho (cfg # cfgs) rows k =
     (case run_config os ho cfg k of
        None \<Rightarrow> None
      | Some (Err e, k1) \<Rightarrow> Some (Err e, k1)
      | Some (Panic, k1) \<Rightarrow> Some (Panic, k1)
      | Some (Ok r, k1) \<Rightarrow> run_configs os ho cfgs (rows @ [(cf_label cfg, cf_batch cfg, r)]) k1)"

text \<open>The file: labels with everything but ASCII letters and digits replaced.\<close>

definition is_ascii_alphanumeric :: "char \<Rightarrow> bool" where
  "is_ascii_alphanumeric c \<longleftrightarrow>
     (let n = of_char c :: nat in (48 \<le> n \<and> n \<le> 57) \<or> (65 \<le> n \<and> n \<le> 90) \<or> (97 \<le> n \<and> n \<le> 122))"

definition csv_key :: "string \<Rightarrow> string" where
  "csv_key label = map (\<lambda>c. if is_ascii_alphanumeric c then c else CHR ''_'') label"

definition sweep_csv :: "sweep_row list \<Rightarrow> string" where
  "sweep_csv rows =
     unlines (''kind,index,ns'' # concat (map (\<lambda>(label, batch, r). csv_rows (csv_key label) (rr_samples r)) rows))"

type_synonym sweep_report = "sweep_row list \<times> (string \<times> string) option"

definition bench_all :: "'k uos \<Rightarrow> 'k Host \<Rightarrow> bool \<Rightarrow> string option \<Rightarrow> 'k
    \<Rightarrow> ((UError, sweep_report) outcome \<times> 'k) option" where
  "bench_all os ho reverse out_path k0 =
     (case pin_to os FAULTER_CPU k0 of
        (Err e, k1) \<Rightarrow> Some (Err e, k1)
      | (Panic, k1) \<Rightarrow> Some (Panic, k1)
      | (Ok _, k1) \<Rightarrow>
          let topo = detect (ho_files ho) (num_cpus (ho_cpus ho)) FAULTER_CPU in
          (case run_configs os ho (sweep_configs topo reverse) [] k1 of
             None \<Rightarrow> None
           | Some (Err e, k2) \<Rightarrow> Some (Err e, k2)
           | Some (Panic, k2) \<Rightarrow> Some (Panic, k2)
           | Some (Ok rows, k2) \<Rightarrow>
               Some (Ok (rows, map_option (\<lambda>path. (path, sweep_csv rows)) out_path), k2)))"

section \<open>The program\<close>

record UffdArgs =
  ua_bench :: bool
  ua_reverse :: bool
  ua_out_path :: "string option"

definition uffd_args_default :: UffdArgs where
  "uffd_args_default = \<lparr>ua_bench = False, ua_reverse = False, ua_out_path = None\<rparr>"

function (sequential) uffd_args :: "UffdArgs \<Rightarrow> string list \<Rightarrow> UffdArgs command_line" where
  "uffd_args a [] = Run a"
| "uffd_args a (arg # rest) =
     (if arg = ''--bench'' then uffd_args (a\<lparr>ua_bench := True\<rparr>) rest
      else if arg = ''--reverse'' then uffd_args (a\<lparr>ua_reverse := True\<rparr>) rest
      else if arg = ''--out'' then
        uffd_args (a\<lparr>ua_out_path := (case rest of [] \<Rightarrow> None | s # _ \<Rightarrow> Some s)\<rparr>) (tl rest)
      else if arg = ''-h'' \<or> arg = ''--help'' then Usage
      else UnknownArgument arg)"
  by pat_completeness auto

termination uffd_args
  by (relation "measure (length \<circ> snd)") auto

definition uffd_main :: "'k uos \<Rightarrow> 'k Host \<Rightarrow> string list \<Rightarrow> 'k
    \<Rightarrow> ((UDemoError, sweep_report option) outcome command_line \<times> 'k) option" where
  "uffd_main os ho argv k0 =
     (case uffd_args uffd_args_default argv of
        Usage \<Rightarrow> Some (Usage, k0)
      | UnknownArgument arg \<Rightarrow> Some (UnknownArgument arg, k0)
      | Run a \<Rightarrow>
     (case uffd_demo os (ho_raise ho) (ho_resident ho) (ho_place ho) k0 of
        None \<Rightarrow> None
      | Some (Err e, k1) \<Rightarrow> Some (Run (Err e), k1)
      | Some (Panic, k1) \<Rightarrow> Some (Run Panic, k1)
      | Some (Ok _, k1) \<Rightarrow>
          if \<not> ua_bench a then Some (Run (Ok None), k1)
          else (case bench_all os ho (ua_reverse a) (ua_out_path a) k1 of
             None \<Rightarrow> None
           | Some (Err e, k2) \<Rightarrow> Some (Run (Err (UDemoOs e)), k2)
           | Some (Panic, k2) \<Rightarrow> Some (Run Panic, k2)
           | Some (Ok report, k2) \<Rightarrow> Some (Run (Ok (Some report)), k2))))"

section \<open>Rounds\<close>

text \<open>Rounds whose every walk succeeds collect one sample per page; \<open>f\<close> is what grows by \<open>c\<close> in each.\<close>

lemma timed_rounds_collect:
  fixes f :: "'s \<Rightarrow> u64"
  assumes law: "\<And>s. I s \<Longrightarrow> \<exists>s1 ts s2. reset s = (Inr (), s1) \<and>
      timed_walk lap touch [0 ..< unat BENCH_PAGES] s1 = Some (ts, s2) \<and> length ts = 4096 \<and> I s2 \<and> f s2 = f s + c"
  shows "I s \<Longrightarrow> \<exists>samples' walk' s'. timed_rounds lap reset touch n samples walk_ns s = Some (Inr (samples', walk'), s') \<and>
    length samples' = length samples + 4096 * n \<and> I s' \<and> f s' = f s + of_nat n * c"
proof (induction n arbitrary: samples walk_ns s)
  case (Suc n)
  obtain s1 ts s2 where w: "reset s = (Inr (), s1)" "timed_walk lap touch [0 ..< unat BENCH_PAGES] s1 = Some (ts, s2)"
      "length ts = 4096" "I s2" "f s2 = f s + c"
    using law [OF Suc.prems] by blast
  obtain samples' walk' s' where ih: "timed_rounds lap reset touch n (samples @ ts) (walk_ns + lap s1 s2) s2 = Some (Inr (samples', walk'), s')"
      "length samples' = length (samples @ ts) + 4096 * n" "I s'" "f s' = f s2 + of_nat n * c"
    using Suc.IH [OF w(4)] by blast
  have "timed_rounds lap reset touch (Suc n) samples walk_ns s = Some (Inr (samples', walk'), s')"
    using w(1,2) ih(1) by simp
  then show ?case using ih w(3,5) by (simp add: algebra_simps)
qed simp

lemma timed_walk_total:
  assumes "\<And>p s. I s \<Longrightarrow> \<exists>s'. touch p s = Some s' \<and> I s'"
  shows "I s \<Longrightarrow> \<exists>ts s'. timed_walk lap touch ps s = Some (ts, s') \<and> length ts = length ps \<and> I s'"
proof (induction ps arbitrary: s)
  case (Cons p ps)
  obtain s1 where t: "touch p s = Some s1" "I s1" using assms [OF Cons.prems] by blast
  then show ?case using Cons.IH [OF t(2)] by auto
qed simp

lemma timed_walk_touches:
  "touch_all os raise resident h ps s = Some (vs, s') \<Longrightarrow>
    \<exists>ts. timed_walk lap (\<lambda>p s. map_option snd (touch_page os raise resident h p s)) ps s = Some (ts, s') \<and> length ts = length ps"
proof (induction ps arbitrary: s vs)
  case (Cons p ps)
  obtain v s1 vs' where t: "touch_page os raise resident h p s = Some (v, s1)" "touch_all os raise resident h ps s1 = Some (vs', s')"
    using Cons.prems by (auto split: option.splits)
  then show ?case using Cons.IH [OF t(2)] by auto
qed simp

section \<open>Statistics\<close>

definition ustats_of :: "UStats \<Rightarrow> u64 list \<Rightarrow> bool" where
  "ustats_of st xs \<longleftrightarrow>
     us_p50 st \<le> us_p90 st \<and> us_p90 st \<le> us_p99 st \<and> us_p99 st \<le> us_p999 st \<and> us_p999 st \<le> us_max st \<and>
     {us_p50 st, us_p90 st, us_p99 st, us_p999 st, us_max st} \<subseteq> set xs \<and> (\<forall>x \<in> set xs. x \<le> us_max st) \<and>
     us_p50 st = sort xs ! (length xs div 2)"

lemma ustats_from_ok:
  assumes "xs \<noteq> []" "length xs \<le> 2 ^ 53"
  obtains st where "ustats_from xs = Some st" "ustats_of st xs"
proof
  show "ustats_from xs = Some \<lparr>us_p50 = quantile P50 (sort xs), us_p90 = quantile P90 (sort xs),
      us_p99 = quantile P99 (sort xs), us_p999 = quantile P999 (sort xs), us_max = sort xs ! (length xs - 1)\<rparr>"
    using assms(1) by (simp add: ustats_from_def Let_def)
  show "ustats_of \<lparr>us_p50 = quantile P50 (sort xs), us_p90 = quantile P90 (sort xs),
      us_p99 = quantile P99 (sort xs), us_p999 = quantile P999 (sort xs), us_max = sort xs ! (length xs - 1)\<rparr> xs"
    using percentiles_ordered [OF assms] by (simp add: ustats_of_def)
qed

section \<open>What the sweep needs of the kernel\<close>

definition resets_documented :: "'k uos \<Rightarrow> Region \<Rightarrow> ('k \<Rightarrow> bool) \<Rightarrow> ('k \<Rightarrow> pages) \<Rightarrow> bool" where
  "resets_documented os r live resident \<longleftrightarrow>
     (\<forall>k. live k \<longrightarrow> (\<exists>x k'. os k (MadviseDontneed (rgn_ptr r) (rgn_len r)) = (Inr x, k') \<and> live k' \<and> resident k' = Map.empty))"

text \<open>A region without userfaultfd: it can be dropped, and the kernel resolves its faults.\<close>

definition anonymous_ready :: "'k uos \<Rightarrow> 'k Host \<Rightarrow> Region \<Rightarrow> 'k \<Rightarrow> bool" where
  "anonymous_ready os ho r k0 \<longleftrightarrow>
     (\<exists>live. live k0 \<and> resets_documented os r live (ho_resident ho) \<and> (\<forall>k p. live k \<longrightarrow> live (ho_anon ho k p)))"

text \<open>A handler set up at \<open>k0\<close> can be pinned and then serves the region.\<close>

definition handler_ready :: "'k uos \<Rightarrow> 'k Host \<Rightarrow> Handler \<Rightarrow> Region \<Rightarrow> 'k \<Rightarrow> bool" where
  "handler_ready os ho h r k0 \<longleftrightarrow> handler_ok h \<and>
     (\<exists>live waiting. (\<forall>cpu. live (snd (os k0 (SchedSetaffinity [cpu])))) \<and>
        pager_faithful os (ho_raise ho) (ho_resident ho) live waiting h (page_of BENCH_IMAGE) \<and>
        resets_documented os r live (ho_resident ho))"

text \<open>Regions can be mapped and registered at any time, whatever happened before.\<close>

definition paging_ready :: "'k uos \<Rightarrow> 'k Host \<Rightarrow> bool" where
  "paging_ready os ho \<longleftrightarrow>
     (\<forall>k0. \<exists>r k1. region_new os k0 BENCH_PAGES = (Ok r, k1) \<and> anonymous_ready os ho r k1 \<and>
        (\<exists>u b k2 i k3. uffd_new os k1 True = (Inr (u, b), k2) \<and>
           register_missing os k2 u (rgn_ptr r) (rgn_len r) = (Inr i, k3) \<and>
           (\<forall>cfg. 0 < cf_batch cfg \<longrightarrow> handler_ready os ho (bench_handler u r (ho_place ho k3 BENCH_IMAGE) cfg) r k3)))"

lemma region_new_shape: "region_new os k pages = (Ok r, k') \<Longrightarrow> rgn_len r = pages * PAGE"
  by (auto simp: region_new_def Let_def split: sum.splits prod.splits if_splits)

lemma region_new_bench: "region_new os k BENCH_PAGES = (Ok r, k') \<Longrightarrow> region_pages r = 4096"
  using region_new_shape [of os k BENCH_PAGES r k'] by (simp add: region_pages_def BENCH_PAGES_def PAGE_def)

section \<open>One configuration succeeds\<close>

lemma baseline_rounds_ok:
  assumes "anonymous_ready os ho r k"
  shows "\<exists>samples walk_ns k'. baseline_rounds os ho r k = Some (Inr (samples, walk_ns), k') \<and> length samples = 102400"
proof -
  obtain live where live: "live k" "resets_documented os r live (ho_resident ho)" "\<And>k p. live k \<Longrightarrow> live (ho_anon ho k p)"
    using assms unfolding anonymous_ready_def by blast
  let ?touch = "\<lambda>p k. Some (if ho_resident ho k p = None then ho_anon ho k p else k)"
  have "\<exists>s1 ts s2. region_reset os s r = (Inr (), s1) \<and>
      timed_walk (ho_lap ho) ?touch [0 ..< unat BENCH_PAGES] s1 = Some (ts, s2) \<and>
      length ts = 4096 \<and> live s2 \<and> (0 :: u64) = 0 + 0" if "live s" for s
  proof -
    obtain x s1 where s1: "os s (MadviseDontneed (rgn_ptr r) (rgn_len r)) = (Inr x, s1)" "live s1"
      using live(2) \<open>live s\<close> unfolding resets_documented_def by blast
    have total: "\<exists>s'. ?touch p s = Some s' \<and> live s'" if "live s" for p s using live(3) that by simp
    show ?thesis
      using timed_walk_total [where I = live and touch = ?touch and lap = "ho_lap ho" and ps = "[0 ..< unat BENCH_PAGES]", OF total s1(2)] s1(1)
      by (auto simp: region_reset_def BENCH_PAGES_def)
  qed
  from timed_rounds_collect [where f = "\<lambda>_. 0" and I = live and reset = "\<lambda>k. region_reset os k r" and n = BENCH_ROUNDS and samples = "[]" and walk_ns = 0,
      OF this live(1)] show ?thesis
    by (auto simp: baseline_rounds_def BENCH_ROUNDS_def)
qed

lemma pin_to_ok:
  assumes "cpu < CPU_SETSIZE"
  shows "fst (pin_to os cpu k) \<noteq> Panic" "snd (pin_to os cpu k) = snd (os k (SchedSetaffinity [cpu]))"
  using assms by (auto simp: pin_to_def split: sum.split prod.split)

lemma paged_rounds_ok:
  assumes new: "uffd_new os k1 True = (Inr (u, b), k2)" "register_missing os k2 u (rgn_ptr r) (rgn_len r) = (Inr i, k3)"
    and ready: "handler_ready os ho (bench_handler u r (ho_place ho k3 BENCH_IMAGE) cfg) r k3"
    and pages: "region_pages r = 4096" and cpu: "cpu < CPU_SETSIZE"
  shows "\<exists>samples walk_ns k'. paged_rounds os ho cfg cpu r k1 =
      Some (Inr (samples, walk_ns, of_nat (25 * ((4096 + unat (cf_batch cfg) - 1) div unat (cf_batch cfg)))), k') \<and>
    length samples = 102400"
proof -
  let ?h = "bench_handler u r (ho_place ho k3 BENCH_IMAGE) cfg"
  let ?lap = "\<lambda>s s'. ho_lap ho (snd (snd s)) (snd (snd s'))"
  let ?reset = "\<lambda>(alive, st, k). case region_reset os k r of (res, k') \<Rightarrow> (res, alive, st, k')"
  let ?touch = "\<lambda>p s. map_option snd (touch_page os (ho_raise ho) (ho_resident ho) ?h p s)"
  obtain live waiting where ok: "handler_ok ?h" and start: "\<And>cpu. live (snd (os k3 (SchedSetaffinity [cpu])))"
    and pager: "pager_faithful os (ho_raise ho) (ho_resident ho) live waiting ?h (page_of BENCH_IMAGE)"
    and resets: "resets_documented os r live (ho_resident ho)"
    using ready unfolding handler_ready_def by blast
  have h: "unat (h_region_pages ?h) = 4096" "h_batch_pages ?h = cf_batch cfg"
    using pages by (simp_all add: bench_handler_def)
  have "run_length ?h p \<le> 4096" for p using h(1) by (simp add: run_length_def)
  then have "4096 * run_length ?h p < 2 ^ 63" for p
    using le_less_trans [OF mult_le_mono2 [of "run_length ?h p" 4096 4096]] by simp
  then have short: "\<forall>p. 4096 * run_length ?h p < 2 ^ 63" by blast
  define I :: "bool \<times> HandlerStats \<times> 'a \<Rightarrow> bool" where "I = (\<lambda>(alive, st, k). alive \<and> live k)"
  define f :: "bool \<times> HandlerStats \<times> 'a \<Rightarrow> u64" where "f = (\<lambda>(alive, st, k). hs_faults st)"
  have round: "\<exists>s1 ts s2. ?reset s = (Inr (), s1) \<and> timed_walk ?lap ?touch [0 ..< unat BENCH_PAGES] s1 = Some (ts, s2) \<and>
      length ts = 4096 \<and> I s2 \<and> f s2 = f s + of_nat (batches ?h 0)" if "I s" for s
  proof -
    obtain st k where s: "s = (True, st, k)" "live k" using \<open>I s\<close> by (cases s) (auto simp: I_def)
    obtain x k' where reset: "os k (MadviseDontneed (rgn_ptr r) (rgn_len r)) = (Inr x, k')" "live k'" "ho_resident ho k' = Map.empty"
      using resets s(2) unfolding resets_documented_def by blast
    have pre: "shows_image (page_of BENCH_IMAGE) (ho_resident ho k')" "dom (ho_resident ho k') = {..< 0}"
      by (simp_all add: reset(3) shows_image_def)
    obtain vs st1 k2 where t: "touch_all os (ho_raise ho) (ho_resident ho) ?h [0 ..< 4096] (True, st, k') = Some (vs, True, st1, k2)"
        "live k2" "hs_faults st1 = hs_faults st + of_nat (batches ?h 0)"
      using walk_aux [OF ok short pager order_refl le0 reset(2) pre, of st] unfolding h(1) by blast
    from timed_walk_touches [OF t(1), of ?lap] show ?thesis
      using s(1) reset(1) t(2,3) by (auto simp: region_reset_def I_def f_def BENCH_PAGES_def)
  qed
  obtain pinned k4 where pin: "pin_to os cpu k3 = (pinned, k4)" "pinned \<noteq> Panic" "live k4"
    using pin_to_ok [OF cpu, of os k3] start [of cpu] by (cases "pin_to os cpu k3") simp
  have "I (pinned \<noteq> Panic, handler_stats_default, k4)" using pin(2,3) by (simp add: I_def)
  from timed_rounds_collect [where f = f and I = I and n = BENCH_ROUNDS and samples = "[]" and walk_ns = 0, OF round this]
  obtain samples walk_ns alive st k5 where rounds: "timed_rounds ?lap ?reset ?touch BENCH_ROUNDS [] 0
        (pinned \<noteq> Panic, handler_stats_default, k4) = Some (Inr (samples, walk_ns), alive, st, k5)"
      "length samples = 102400" "hs_faults st = of_nat (25 * batches ?h 0)"
    by (auto simp: f_def BENCH_ROUNDS_def handler_stats_default_def)
  have "batches ?h 0 = (4096 + unat (cf_batch cfg) - 1) div unat (cf_batch cfg)" using h by (simp add: batches_def)
  then show ?thesis
    using rounds by (simp add: paged_rounds_def new pin(1) Let_def)
qed

text \<open>What a row of the sweep reports about its configuration.\<close>

definition config_faults :: "Config \<Rightarrow> nat" where
  "config_faults cfg = (case cf_handler_cpu cfg of None \<Rightarrow> 0
     | Some cpu \<Rightarrow> 25 * ((4096 + unat (cf_batch cfg) - 1) div unat (cf_batch cfg)))"

definition row_reports :: "Config \<Rightarrow> sweep_row \<Rightarrow> bool" where
  "row_reports cfg row \<longleftrightarrow>
     (case row of (label, batch, r) \<Rightarrow> label = cf_label cfg \<and> batch = cf_batch cfg \<and>
        length (rr_samples r) = 102400 \<and> ustats_of (rr_stats r) (rr_samples r) \<and>
        rr_faults r = of_nat (config_faults cfg))"

definition config_ok :: "Config \<Rightarrow> bool" where
  "config_ok cfg \<longleftrightarrow> (\<forall>cpu. cf_handler_cpu cfg = Some cpu \<longrightarrow> cpu < CPU_SETSIZE \<and> 0 < cf_batch cfg)"

lemma run_config_ok:
  assumes "paging_ready os ho" "config_ok cfg"
  shows "\<exists>r k'. run_config os ho cfg k0 = Some (Ok r, k') \<and> row_reports cfg (cf_label cfg, cf_batch cfg, r)"
proof -
  obtain r k1 where region: "region_new os k0 BENCH_PAGES = (Ok r, k1)" "anonymous_ready os ho r k1"
    and paged: "\<exists>u b k2 i k3. uffd_new os k1 True = (Inr (u, b), k2) \<and>
      register_missing os k2 u (rgn_ptr r) (rgn_len r) = (Inr i, k3) \<and>
      (\<forall>cfg. 0 < cf_batch cfg \<longrightarrow> handler_ready os ho (bench_handler u r (ho_place ho k3 BENCH_IMAGE) cfg) r k3)"
    using assms(1) unfolding paging_ready_def by metis
  define rounds where "rounds = (case cf_handler_cpu cfg of
      None \<Rightarrow> map_option (apfst (map_sum id (\<lambda>(samples, walk_ns). (samples, walk_ns, 0)))) (baseline_rounds os ho r k1)
    | Some cpu \<Rightarrow> paged_rounds os ho cfg cpu r k1)"
  have "\<exists>samples walk_ns k'. rounds = Some (Inr (samples, walk_ns, of_nat (config_faults cfg)), k') \<and> length samples = 102400"
  proof (cases "cf_handler_cpu cfg")
    case None
    then show ?thesis using baseline_rounds_ok [OF region(2)] by (auto simp: config_faults_def rounds_def)
  next
    case (Some cpu)
    then have "cpu < CPU_SETSIZE" "0 < cf_batch cfg" using assms(2) by (simp_all add: config_ok_def)
    moreover obtain u b k2 i k3 where u: "uffd_new os k1 True = (Inr (u, b), k2)"
        "register_missing os k2 u (rgn_ptr r) (rgn_len r) = (Inr i, k3)"
        "handler_ready os ho (bench_handler u r (ho_place ho k3 BENCH_IMAGE) cfg) r k3"
      using paged \<open>0 < cf_batch cfg\<close> by blast
    ultimately show ?thesis
      using paged_rounds_ok [OF u region_new_bench [OF region(1)]] Some by (simp add: config_faults_def rounds_def)
  qed
  then obtain samples walk_ns k' where run: "rounds = Some (Inr (samples, walk_ns, of_nat (config_faults cfg)), k')"
      "length samples = 102400"
    by blast
  then have "samples \<noteq> []" "length samples \<le> 2 ^ 53" by auto
  then obtain st where st: "ustats_from samples = Some st" "ustats_of st samples" by (rule ustats_from_ok)
  have "run_config os ho cfg k0 = Some (Ok \<lparr>rr_samples = samples, rr_stats = st,
      rr_faults = of_nat (config_faults cfg), rr_walk_ns = walk_ns\<rparr>, k')"
    using run(1) unfolding rounds_def by (simp add: run_config_def region(1) st(1))
  then show ?thesis using run(2) st(2) by (simp add: row_reports_def)
qed

section \<open>The sweep succeeds\<close>

lemma run_configs_ok:
  assumes "paging_ready os ho"
  shows "list_all config_ok cfgs \<Longrightarrow>
    \<exists>new k'. run_configs os ho cfgs rows k = Some (Ok (rows @ new), k') \<and> list_all2 row_reports cfgs new"
proof (induction cfgs arbitrary: rows k)
  case (Cons cfg cfgs)
  have c: "config_ok cfg" "list_all config_ok cfgs" using Cons.prems by simp_all
  obtain r k1 where r: "run_config os ho cfg k = Some (Ok r, k1)" "row_reports cfg (cf_label cfg, cf_batch cfg, r)"
    using run_config_ok [OF assms c(1)] by blast
  obtain new k' where ih: "run_configs os ho cfgs (rows @ [(cf_label cfg, cf_batch cfg, r)]) k1 =
        Some (Ok ((rows @ [(cf_label cfg, cf_batch cfg, r)]) @ new), k')" "list_all2 row_reports cfgs new"
    using Cons.IH [OF c(2)] by blast
  show ?case
    using r ih by (intro exI [of _ "(cf_label cfg, cf_batch cfg, r) # new"] exI [of _ k']) simp
qed simp

lemma sweep_configs_ok:
  assumes "\<And>p cpu. cpu_for topo p = Some cpu \<Longrightarrow> cpu < CPU_SETSIZE"
  shows "list_all config_ok (sweep_configs topo reverse)"
proof -
  have "list_all config_ok (placement_configs topo p)" for p
    using assms by (auto simp: placement_configs_def config_ok_def split: option.split)
  moreover have "list_all config_ok (batch_configs topo)"
    using assms [of OtherCore] by (auto simp: batch_configs_def config_ok_def cpu_for_def split: option.split)
  moreover have "config_ok baseline_config" by (simp add: config_ok_def baseline_config_def)
  ultimately show ?thesis by (simp add: sweep_configs_def Let_def)
qed

section \<open>The file of the sweep\<close>

lemma csv_key_plain: "plain_key (csv_key label)"
  by (auto simp: plain_key_def csv_key_def newline_def char_of_def is_ascii_alphanumeric_def Let_def)

lemma read_sweep_csv:
  assumes "list_all (\<lambda>(label, batch, r). length (rr_samples r) < 2 ^ 64) rows"
  shows "read_samples (sweep_csv rows) =
    concat (map (\<lambda>(label, batch, r). map (\<lambda>(i, ns). Some (csv_key label, i, unat ns)) (enumerate 0 (rr_samples r))) rows)"
proof -
  let ?lines = "concat (map (\<lambda>(label, batch, r). csv_rows (csv_key label) (rr_samples r)) rows)"
  have "list_all (\<lambda>l. newline \<notin> set l) ?lines"
    by (induction rows) (auto simp: csv_rows_one_line [OF csv_key_plain])
  moreover have "newline \<notin> set ''kind,index,ns''" by (simp add: newline_def char_of_def)
  ultimately have "read_samples (sweep_csv rows) = map read_row ?lines"
    unfolding sweep_csv_def by (rule read_samples_unlines [rotated])
  also have "\<dots> = concat (map (\<lambda>(label, batch, r). map (\<lambda>(i, ns). Some (csv_key label, i, unat ns)) (enumerate 0 (rr_samples r))) rows)"
    using assms by (induction rows) (auto simp: read_csv_rows [OF csv_key_plain])
  finally show ?thesis .
qed

text \<open>No two configurations share a key, so the rows of the file can be told apart.\<close>

lemma sweep_keys_distinct: "distinct (map (csv_key \<circ> cf_label) (sweep_configs topo reverse))"
proof -
  define key :: "Config \<Rightarrow> string" where "key = csv_key \<circ> cf_label"
  define placed where "placed p = map csv_key [''uffd batch=1, '' @ placement_name p @ '' (poll)'',
    ''uffd batch=1, '' @ placement_name p @ '' (spin)'']" for p
  define batched where "batched = map (\<lambda>batch. csv_key (''uffd batch='' @ decimal batch @ '', different physical core (poll)'')) [2, 4, 8, 16, 64]"
  define base where "base = [csv_key ''no uffd (kernel anon fault)'']"
  have all: "distinct (base @ placed OtherCore @ placed SmtSibling @ placed SameCpu @ batched)"
    unfolding base_def placed_def batched_def by code_simp
  have "map key (placement_configs topo p) = (if cpu_for topo p = None then [] else placed p)" for p
    by (simp add: key_def placement_configs_def placed_def split: option.split)
  moreover have "map key (batch_configs topo) = (if cpu_for topo OtherCore = None then [] else batched)"
    by (simp add: key_def batch_configs_def batched_def cpu_for_def split: option.split)
  moreover have "map key [baseline_config] = base" by (simp add: key_def base_def baseline_config_def)
  ultimately have "distinct (map key (sweep_configs topo False))"
    using all by (auto simp: sweep_configs_def Let_def)
  moreover have "sweep_configs topo True = rev (sweep_configs topo False)" by (simp add: sweep_configs_def Let_def)
  ultimately show ?thesis
    unfolding key_def by (cases reverse) (simp_all add: rev_map [symmetric])
qed

section \<open>A run of the program\<close>

definition demo_ready :: "'k uos \<Rightarrow> 'k Host \<Rightarrow> bool" where
  "demo_ready os ho \<longleftrightarrow>
     (\<forall>k0. \<exists>u b k1 r k2 i k3 live waiting.
        uffd_new os k0 True = (Inr (u, b), k1) \<and> region_new os k1 DEMO_PAGES = (Ok r, k2) \<and>
        register_missing os k2 u (rgn_ptr r) (rgn_len r) = (Inr i, k3) \<and>
        handler_ok (demo_handler u r (ho_place ho k2 demo_image)) \<and>
        pager_faithful os (ho_raise ho) (ho_resident ho) live waiting (demo_handler u r (ho_place ho k2 demo_image)) (page_of demo_image) \<and>
        live k3 \<and> ho_resident ho k3 = Map.empty)"

definition host_topology :: "'k Host \<Rightarrow> Topology" where
  "host_topology ho = detect (ho_files ho) (num_cpus (ho_cpus ho)) FAULTER_CPU"

definition uffd_ready :: "'k uos \<Rightarrow> 'k Host \<Rightarrow> bool" where
  "uffd_ready os ho \<longleftrightarrow> demo_ready os ho \<and> paging_ready os ho \<and>
     (\<forall>k. \<exists>x k'. os k (SchedSetaffinity [FAULTER_CPU]) = (Inr x, k')) \<and>
     (\<forall>p cpu. cpu_for (host_topology ho) p = Some cpu \<longrightarrow> cpu < CPU_SETSIZE)"

lemma uffd_demo_ready:
  assumes "demo_ready os ho"
  obtains st k' where "uffd_demo os (ho_raise ho) (ho_resident ho) (ho_place ho) k0 = Some (Ok st, k')"
    "hs_faults st = 6" "hs_pages_installed st = 6"
proof -
  obtain u b k1 r k2 i k3 live waiting where d: "uffd_new os k0 True = (Inr (u, b), k1)" "region_new os k1 DEMO_PAGES = (Ok r, k2)"
      "register_missing os k2 u (rgn_ptr r) (rgn_len r) = (Inr i, k3)"
      "handler_ok (demo_handler u r (ho_place ho k2 demo_image))"
      "pager_faithful os (ho_raise ho) (ho_resident ho) live waiting (demo_handler u r (ho_place ho k2 demo_image)) (page_of demo_image)"
      "live k3" "ho_resident ho k3 = Map.empty"
    using assms unfolding demo_ready_def by metis
  have "region_pages r = DEMO_PAGES"
    using region_new_shape [OF d(2)] by (simp add: region_pages_def DEMO_PAGES_def PAGE_def)
  from demo_restores [where place = "ho_place ho" and resident = "ho_resident ho" and live = live, OF d(1-4) this d(5-7)] show thesis using that by blast
qed

definition sweep_command :: "bool \<Rightarrow> string \<Rightarrow> string list" where
  "sweep_command reverse path = [''--bench''] @ (if reverse then [''--reverse''] else []) @ [''--out'', path]"

lemma uffd_args_sweep:
  "uffd_args uffd_args_default (sweep_command reverse path) =
    Run \<lparr>ua_bench = True, ua_reverse = reverse, ua_out_path = Some path\<rparr>"
  by (simp add: sweep_command_def uffd_args_default_def)

lemma uffd_main_sweep:
  assumes "uffd_ready os ho"
  shows "\<exists>rows k. uffd_main os ho (sweep_command reverse path) k0 =
      Some (Run (Ok (Some (rows, Some (path, sweep_csv rows)))), k) \<and>
    list_all2 row_reports (sweep_configs (host_topology ho) reverse) rows"
proof -
  obtain st k1 where demo: "uffd_demo os (ho_raise ho) (ho_resident ho) (ho_place ho) k0 = Some (Ok st, k1)"
    using uffd_demo_ready assms unfolding uffd_ready_def by metis
  obtain x k2 where "os k1 (SchedSetaffinity [FAULTER_CPU]) = (Inr x, k2)"
    using assms unfolding uffd_ready_def by metis
  then have pin: "pin_to os FAULTER_CPU k1 = (Ok (), k2)"
    by (simp add: pin_to_def FAULTER_CPU_def CPU_SETSIZE_def)
  have ready: "paging_ready os ho" "\<And>p cpu. cpu_for (host_topology ho) p = Some cpu \<Longrightarrow> cpu < CPU_SETSIZE"
    using assms unfolding uffd_ready_def by blast+
  have "list_all config_ok (sweep_configs (host_topology ho) reverse)" by (rule sweep_configs_ok) (rule ready(2))
  then obtain rows k3 where run: "run_configs os ho (sweep_configs (host_topology ho) reverse) [] k2 = Some (Ok rows, k3)"
      "list_all2 row_reports (sweep_configs (host_topology ho) reverse) rows"
    using run_configs_ok [OF ready(1), of "sweep_configs (host_topology ho) reverse" "[]" k2] by auto
  have "bench_all os ho reverse (Some path) k1 = Some (Ok (rows, Some (path, sweep_csv rows)), k3)"
    using run(1) by (simp add: bench_all_def pin host_topology_def Let_def)
  then show ?thesis
    using run(2) by (simp add: uffd_main_def uffd_args_sweep demo)
qed

text \<open>What the rows say, read off their configurations.\<close>

lemma rows_of_configs:
  assumes "list_all2 row_reports cfgs rows"
  shows "map fst rows = map cf_label cfgs"
    "map (\<lambda>(label, batch, r). (batch, rr_faults r)) rows = map (\<lambda>cfg. (cf_batch cfg, of_nat (config_faults cfg))) cfgs"
    "list_all (\<lambda>(label, batch, r). length (rr_samples r) < 2 ^ 64) rows"
  using assms by (induction rule: list_all2_induct) (auto simp: row_reports_def)

end
