(* ===== verification/UffdRef.thy ===== *)
theory UffdRef
  imports UffdBench
begin

text \<open>
  A reference kernel and host on which the properties of the userfaultfd rung are applied: a machine
  where userfaultfd is restricted, with one region at a time and eight CPUs on four cores.
\<close>

unbundle bit_operations_syntax

section \<open>The kernel\<close>

text \<open>The pages of the region that was mapped last, and the page on which a thread is parked.\<close>

record RefPager =
  rp_pages :: pages
  rp_parked :: "nat option"

definition ref_region :: u64 where "ref_region = 0x10000000"
definition ref_src :: u64 where "ref_src = 0x20000000"
definition ref_bench_src :: u64 where "ref_bench_src = 0x30000000"

definition ref_uret :: "int \<Rightarrow> URet" where
  "ref_uret v = \<lparr>ur_val = v, ur_api = \<lparr>api_api = UFFD_API, api_features = 0, api_ioctls = 7\<rparr>,
     ur_register = \<lparr>reg_range = \<lparr>rng_start = 0, rng_len = 0\<rparr>, reg_mode = 0, reg_ioctls = 28\<rparr>,
     ur_copy = \<lparr>cp_dst = 0, cp_src = 0, cp_len = 0, cp_mode = 0, cp_copy = 0\<rparr>, ur_bytes = []\<rparr>"

definition ref_msg :: "nat \<Rightarrow> u8 list" where
  "ref_msg p = [UFFD_EVENT_PAGEFAULT, 0] @ replicate 6 0 @ replicate 8 0 @
     le_bytes 8 (ref_region + word_of_nat (4096 * p)) @ replicate 8 0"

text \<open>\<open>mem a\<close> is the buffer that starts at \<open>a\<close>.\<close>

definition ref_copy :: "(u64 \<Rightarrow> u8 list) \<Rightarrow> RefPager \<Rightarrow> uffdio_copy \<Rightarrow> (int + URet) \<times> RefPager" where
  "ref_copy mem k c =
     (let p = (unat (cp_dst c) - unat ref_region) div 4096; n = unat (cp_len c) div 4096;
          j = absent_run (rp_pages k) p n;
          img = page_of (mem (word_of_nat (unat (cp_src c) - 4096 * p)))
      in (if j = n then Inr ((ref_uret 0)\<lparr>ur_copy := c\<lparr>cp_copy := cp_len c\<rparr>\<rparr>)
          else if j = 0 then Inl U_EEXIST else Inl U_EAGAIN,
          k\<lparr>rp_pages := installed img (rp_pages k) p j\<rparr>))"

fun ref_uos :: "(u64 \<Rightarrow> u8 list) \<Rightarrow> RefPager uos" where
  "ref_uos mem k (Userfaultfd flags) =
     (if flags AND UFFD_USER_MODE_ONLY = 0 then Inl U_EPERM else Inr (ref_uret 3), k)"
| "ref_uos mem k (IoctlCopy fd req c) = ref_copy mem k c"
| "ref_uos mem k (PollIn fd t) = (Inr (ref_uret (if rp_parked k = None then 0 else 1)), k)"
| "ref_uos mem k (ReadFd fd n) =
     (case rp_parked k of
        None \<Rightarrow> (Inl U_EAGAIN, k)
      | Some p \<Rightarrow> (Inr ((ref_uret 32)\<lparr>ur_bytes := ref_msg p\<rparr>), k\<lparr>rp_parked := None\<rparr>))"
| "ref_uos mem k SysconfPageSize = (Inr (ref_uret 4096), k)"
| "ref_uos mem k (MmapPrivate len) = (Inr (ref_uret (uint ref_region)), k\<lparr>rp_pages := Map.empty\<rparr>)"
| "ref_uos mem k (MadviseDontneed p len) = (Inr (ref_uret 0), k\<lparr>rp_pages := Map.empty\<rparr>)"
| "ref_uos mem k c = (Inr (ref_uret 0), k)"

definition ref_raise :: "RefPager \<Rightarrow> nat \<Rightarrow> RefPager" where
  "ref_raise k p = k\<lparr>rp_parked := Some p\<rparr>"

definition ref_uffd :: Uffd where "ref_uffd = \<lparr>uf_fd = 3, supported_ioctls = 7\<rparr>"

definition ref_handler :: "u64 \<Rightarrow> u64 \<Rightarrow> u64 \<Rightarrow> bool \<Rightarrow> Handler" where
  "ref_handler src pages batch spin =
     \<lparr>h_uffd = ref_uffd, h_region_start = ref_region, h_region_pages = pages,
      h_src = src, h_batch_pages = batch, h_spin = spin\<rparr>"

definition ref_waiting :: "u64 \<Rightarrow> RefPager \<Rightarrow> nat \<Rightarrow> bool" where
  "ref_waiting pages k p \<longleftrightarrow> rp_parked k = Some p \<and> p < unat pages"

definition ref_live :: "RefPager \<Rightarrow> bool" where "ref_live k \<longleftrightarrow> True"

lemma ref_handler_ok:
  "0 < batch \<Longrightarrow> unat pages \<le> 4096 \<Longrightarrow> unat src < 2 ^ 63 \<Longrightarrow> handler_ok (ref_handler src pages batch spin)"
  by (simp add: handler_ok_def ref_handler_def ref_region_def)

lemma ref_msg_decoded:
  assumes "p < unat pages" "unat pages \<le> 4096"
  shows "msg_event (uffd_msg_of_bytes (ref_msg p)) = UFFD_EVENT_PAGEFAULT"
    "on_page (ref_handler src pages batch spin) (uffd_msg_of_bytes (ref_msg p)) p"
proof -
  have "window 16 8 (ref_msg p) = le_bytes 8 (ref_region + word_of_nat (4096 * p))"
    by (simp add: ref_msg_def window_def)
  then have "msg_pagefault_address (uffd_msg_of_bytes (ref_msg p)) = ref_region + word_of_nat (4096 * p)"
    by (simp add: uffd_msg_of_bytes_def Let_def uffd_msg_offsets) (simp add: uffd_msg_fields_def)
  moreover have off: "unat (word_of_nat (4096 * p) :: u64) = 4096 * p"
    using assms by (intro unat_of_nat_u64) linarith
  have "unat ref_region + unat (word_of_nat (4096 * p) :: u64) < 2 ^ LENGTH(64)"
    unfolding off using assms by (simp add: ref_region_def)
  then have "unat (ref_region + word_of_nat (4096 * p)) = unat ref_region + 4096 * p"
    using off by (metis unat_add_small)
  ultimately show "on_page (ref_handler src pages batch spin) (uffd_msg_of_bytes (ref_msg p)) p"
    using assms(1) by (auto simp: on_page_def ref_handler_def intro!: exI [of _ 0])
  show "msg_event (uffd_msg_of_bytes (ref_msg p)) = UFFD_EVENT_PAGEFAULT"
    by (simp add: uffd_msg_of_bytes_def Let_def uffd_msg_offsets)
       (simp add: uffd_msg_fields_def ref_msg_def window_def of_le_bytes_def)
qed

lemma ref_pager_faithful:
  assumes "unat pages \<le> 4096"
  shows "pager_faithful (ref_uos mem) ref_raise rp_pages ref_live (ref_waiting pages)
    (ref_handler src pages batch spin) (page_of (mem src))"
proof -
  have "copies_documented (ref_uos mem) (ref_handler src pages batch spin) ref_live rp_pages (page_of (mem src))"
    unfolding copies_documented_def
    by (auto simp: ref_copy_def Let_def ref_handler_def ref_live_def)
  moreover have "events_documented (ref_uos mem) (ref_handler src pages batch spin) ref_live rp_pages (ref_waiting pages)"
    unfolding events_documented_def
    using ref_msg_decoded [OF _ assms] by (auto simp: ref_waiting_def ref_uret_def ref_live_def)
  ultimately show ?thesis
    by (simp add: pager_faithful_def ref_waiting_def ref_raise_def) (simp add: ref_handler_def)
qed

definition ref_empty :: RefPager where "ref_empty = \<lparr>rp_pages = Map.empty, rp_parked = None\<rparr>"

lemma ref_calls:
  "uffd_new (ref_uos mem) k nb = (Inr (ref_uffd, True), k)"
  "region_new (ref_uos mem) k pages = (Ok \<lparr>rgn_ptr = ref_region, rgn_len = pages * PAGE\<rparr>, k\<lparr>rp_pages := Map.empty\<rparr>)"
  "register_missing (ref_uos mem) k u s l = (Inr 28, k)"
proof -
  have "(O_CLOEXEC OR O_NONBLOCK) AND UFFD_USER_MODE_ONLY = 0" "O_CLOEXEC AND UFFD_USER_MODE_ONLY = 0"
    "(O_CLOEXEC OR O_NONBLOCK OR UFFD_USER_MODE_ONLY) AND UFFD_USER_MODE_ONLY \<noteq> 0"
    "(O_CLOEXEC OR UFFD_USER_MODE_ONLY) AND UFFD_USER_MODE_ONLY \<noteq> 0"
    by (simp_all add: O_CLOEXEC_def O_NONBLOCK_def UFFD_USER_MODE_ONLY_def)
  then show "uffd_new (ref_uos mem) k nb = (Inr (ref_uffd, True), k)"
    by (simp add: uffd_new_def uffd_open_def ref_uret_def ref_uffd_def or.assoc)
  show "region_new (ref_uos mem) k pages = (Ok \<lparr>rgn_ptr = ref_region, rgn_len = pages * PAGE\<rparr>, k\<lparr>rp_pages := Map.empty\<rparr>)"
    by (simp add: region_new_def ref_uret_def PAGE_def)
  show "register_missing (ref_uos mem) k u s l = (Inr 28, k)"
    by (simp add: register_missing_def ref_uret_def)
qed

section \<open>The host\<close>

definition ref_mem :: "u64 \<Rightarrow> u8 list" where
  "ref_mem a = (if a = ref_src then demo_image else BENCH_IMAGE)"

definition ref_place :: "RefPager \<Rightarrow> u8 list \<Rightarrow> u64" where
  "ref_place k buf = (if length buf = length demo_image then ref_src else ref_bench_src)"

text \<open>CPUs \<open>c\<close> and \<open>c + 4\<close> are siblings.\<close>

definition ref_files :: files where
  "ref_files path =
     (if path = cpu_file 0 ''thread_siblings_list'' then Some (render_list [(0, 0), (4, 4)] @ [char_of (10 :: nat)])
      else map_option (\<lambda>c. render_list [(c mod 4, c mod 4)] @ [char_of (10 :: nat)])
        (find (\<lambda>c. path = cpu_file c ''core_id'') [0, 1, 2, 3, 4, 5, 6, 7]))"

definition ref_host :: "RefPager Host" where
  "ref_host = \<lparr>ho_raise = ref_raise, ho_resident = rp_pages,
     ho_anon = (\<lambda>k p. k\<lparr>rp_pages := (rp_pages k)(p \<mapsto> replicate 4096 0)\<rparr>), ho_place = ref_place,
     ho_lap = (\<lambda>k k'. if rp_pages k 0 = None then 3000 else 40), ho_files = ref_files, ho_cpus = 8\<rparr>"

lemma ref_region_pages: "region_pages \<lparr>rgn_ptr = a, rgn_len = 64 * PAGE\<rparr> = 64"
    "region_pages \<lparr>rgn_ptr = a, rgn_len = 4096 * PAGE\<rparr> = 4096"
  by (simp_all add: region_pages_def PAGE_def)

lemma ref_images: "ref_place k demo_image = ref_src" "ref_place k BENCH_IMAGE = ref_bench_src"
    "ref_mem ref_src = demo_image" "ref_mem ref_bench_src = BENCH_IMAGE"
proof -
  have "length demo_image = 64 * 4096" by (simp add: demo_image_def demo_page_def length_concat comp_def sum_list_triv DEMO_PAGES_def PAGE_def)
  moreover have "length BENCH_IMAGE = 4096 * 4096" by (simp add: BENCH_IMAGE_def BENCH_PAGES_def PAGE_def)
  ultimately show "ref_place k demo_image = ref_src" "ref_place k BENCH_IMAGE = ref_bench_src"
    by (simp_all add: ref_place_def)
  show "ref_mem ref_src = demo_image" "ref_mem ref_bench_src = BENCH_IMAGE"
    by (simp_all add: ref_mem_def ref_src_def ref_bench_src_def)
qed

lemma ref_handlers:
  "demo_handler ref_uffd \<lparr>rgn_ptr = ref_region, rgn_len = 64 * PAGE\<rparr> src = ref_handler src 64 1 False"
  "bench_handler ref_uffd \<lparr>rgn_ptr = ref_region, rgn_len = 4096 * PAGE\<rparr> src cfg =
    ref_handler src 4096 (cf_batch cfg) (cf_spin cfg)"
  by (simp_all add: demo_handler_def bench_handler_def ref_handler_def ref_region_pages)

lemma ref_demo_ready: "demo_ready (ref_uos ref_mem) ref_host"
  unfolding demo_ready_def
proof (intro allI exI conjI)
  fix k0 :: RefPager
  let ?r = "\<lparr>rgn_ptr = ref_region, rgn_len = 64 * PAGE\<rparr>" and ?k = "k0\<lparr>rp_pages := Map.empty\<rparr>"
  show "uffd_new (ref_uos ref_mem) k0 True = (Inr (ref_uffd, True), k0)" by (rule ref_calls)
  show "region_new (ref_uos ref_mem) k0 DEMO_PAGES = (Ok ?r, ?k)" by (simp add: ref_calls DEMO_PAGES_def)
  show "register_missing (ref_uos ref_mem) ?k ref_uffd (rgn_ptr ?r) (rgn_len ?r) = (Inr 28, ?k)" by (rule ref_calls)
  show "handler_ok (demo_handler ref_uffd ?r (ho_place ref_host ?k demo_image))"
    unfolding ref_handlers by (rule ref_handler_ok) (simp_all add: ref_host_def ref_images ref_src_def)
  show "pager_faithful (ref_uos ref_mem) (ho_raise ref_host) (ho_resident ref_host) ref_live (ref_waiting 64)
      (demo_handler ref_uffd ?r (ho_place ref_host ?k demo_image)) (page_of demo_image)"
    using ref_pager_faithful [of 64 ref_mem ref_src 1 False] unfolding ref_handlers by (simp add: ref_host_def ref_images)
  show "ref_live ?k" "ho_resident ref_host ?k = Map.empty" by (simp_all add: ref_live_def ref_host_def)
qed

lemma ref_resets: "resets_documented (ref_uos mem) r ref_live rp_pages"
  by (simp add: resets_documented_def ref_live_def)

lemma ref_paging_ready: "paging_ready (ref_uos ref_mem) ref_host"
  unfolding paging_ready_def
proof (intro allI exI conjI impI)
  fix k0 :: RefPager and cfg :: Config
  let ?r = "\<lparr>rgn_ptr = ref_region, rgn_len = 4096 * PAGE\<rparr>" and ?k = "k0\<lparr>rp_pages := Map.empty\<rparr>"
  show "region_new (ref_uos ref_mem) k0 BENCH_PAGES = (Ok ?r, ?k)" by (simp add: ref_calls BENCH_PAGES_def)
  show "anonymous_ready (ref_uos ref_mem) ref_host ?r ?k"
    unfolding anonymous_ready_def using ref_resets
    by (intro exI [of _ ref_live]) (simp add: ref_live_def ref_host_def)
  show "uffd_new (ref_uos ref_mem) ?k True = (Inr (ref_uffd, True), ?k)" by (rule ref_calls)
  show "register_missing (ref_uos ref_mem) ?k ref_uffd (rgn_ptr ?r) (rgn_len ?r) = (Inr 28, ?k)" by (rule ref_calls)
  assume batch: "0 < cf_batch cfg"
  have place: "ho_place ref_host ?k BENCH_IMAGE = ref_bench_src" by (simp add: ref_host_def ref_images)
  have "handler_ok (ref_handler ref_bench_src 4096 (cf_batch cfg) (cf_spin cfg))"
    by (rule ref_handler_ok) (simp_all add: batch ref_bench_src_def)
  moreover have "pager_faithful (ref_uos ref_mem) ref_raise rp_pages ref_live (ref_waiting 4096)
      (ref_handler ref_bench_src 4096 (cf_batch cfg) (cf_spin cfg)) (page_of BENCH_IMAGE)"
    using ref_pager_faithful [of 4096 ref_mem ref_bench_src] by (simp add: ref_images)
  ultimately show "handler_ready (ref_uos ref_mem) ref_host (bench_handler ref_uffd ?r (ho_place ref_host ?k BENCH_IMAGE) cfg) ?r ?k"
    unfolding handler_ready_def place ref_handlers using ref_resets
    by (intro conjI exI [of _ ref_live] exI [of _ "ref_waiting 4096"]) (simp_all add: ref_host_def, simp add: ref_live_def)
qed

lemma cpu_file_inj: "cpu_file c name = cpu_file d name \<longleftrightarrow> c = d"
  using digits_value_decimal by (metis append_same_eq cpu_file_def same_append_eq)

lemma ref_siblings: "read_list ref_files (cpu_file 0 ''thread_siblings_list'') = [0, 4]"
  by (subst read_list_render [where es = "[(0, 0), (4, 4)]"]) (simp_all add: ref_files_def)

lemma ref_core:
  assumes "c < 8"
  shows "read_first ref_files (cpu_file c ''core_id'') = Some (c mod 4)"
proof -
  have "cpu_file c ''core_id'' \<noteq> cpu_file 0 ''thread_siblings_list''"
    by (rule notI, drule arg_cong [of _ _ last]) (simp add: cpu_file_def)
  moreover have "c \<in> {0, 1, 2, 3, 4, 5, 6, 7}" using assms by auto
  ultimately have "ref_files (cpu_file c ''core_id'') = Some (render_list [(c mod 4, c mod 4)] @ [char_of (10 :: nat)])"
    by (auto simp: ref_files_def cpu_file_inj)
  then have "read_list ref_files (cpu_file c ''core_id'') = [c mod 4]"
    by (subst read_list_render [where es = "[(c mod 4, c mod 4)]"]) (auto simp: list_all_iff intro: order.strict_trans [OF mod_less_divisor])
  then show ?thesis by (simp add: read_first_def)
qed

lemma ref_topology: "host_topology ref_host = \<lparr>tp_faulter = 0, tp_smt_sibling = Some 4, tp_other_core = Some 1\<rparr>"
proof -
  have "[0 ..< 8] = [0, 1, 2, 3, 4, 5, 6, 7 :: nat]" by (simp add: upt_rec)
  then show ?thesis
    using ref_core [of 0] ref_core [of 1]
    by (simp add: host_topology_def detect_def ref_host_def FAULTER_CPU_def ref_siblings num_cpus_def Let_def)
qed

lemma ref_ready: "uffd_ready (ref_uos ref_mem) ref_host"
  by (simp add: uffd_ready_def ref_demo_ready ref_paging_ready ref_topology cpu_for_def CPU_SETSIZE_def split: Placement.split)

end
