(* ===== verification/UffdCrates.thy ===== *)
theory UffdCrates
  imports UffdRef
begin

text \<open>
  The pager of \<^verbatim>\<open>rung-03-uffd/toy-uffd-crates/src/main.rs\<close>, which restores the demo's pages over the crate
  \<^verbatim>\<open>userfaultfd\<close>. The crate is a parameter, one function per call on the kernel's state; the fallback of
  \<^verbatim>\<open>open_uffd\<close> and the mapping go to the system calls directly. As in \<open>UffdDemo\<close> the two threads alternate.
  When the handler ends it drops the descriptor, and the kernel resolves later faults itself
  (\<open>ho_anon\<close>). Printing is not modelled; the assertion that faults are reads is a debug one.
\<close>

unbundle bit_operations_syntax

section \<open>The crate\<close>

datatype ReadWrite = RwRead | RwWrite

datatype UffdEvent = EvPagefault ReadWrite u64 | EvOther

datatype UffdCrateError = OpenDevUserfaultfd int | OtherUffdError int

record 'k UffdCrate =
  uc_create :: "'k \<Rightarrow> (UffdCrateError + ufd) \<times> 'k"
  uc_register :: "ufd \<Rightarrow> u64 \<Rightarrow> u64 \<Rightarrow> 'k \<Rightarrow> (UffdCrateError + u64) \<times> 'k"
  uc_read_event :: "ufd \<Rightarrow> 'k \<Rightarrow> (UffdCrateError + UffdEvent option) \<times> 'k"
  uc_copy :: "ufd \<Rightarrow> u64 \<Rightarrow> u64 \<Rightarrow> u64 \<Rightarrow> bool \<Rightarrow> 'k \<Rightarrow> (UffdCrateError + u64) \<times> 'k"

datatype UffdPortError = PortRaw UError | PortCrate UffdCrateError | MmapFailed | WrongFaultCount u64 | PortWrongPage

section \<open>The descriptor\<close>

text \<open>\<^verbatim>\<open>ErrorKind::PermissionDenied\<close> is EPERM or EACCES.\<close>

definition permission_denied :: "int \<Rightarrow> bool" where
  "permission_denied e \<longleftrightarrow> e = U_EPERM \<or> e = 13"

definition open_uffd :: "'k uos \<Rightarrow> 'k UffdCrate \<Rightarrow> 'k \<Rightarrow> (UffdPortError + ufd) \<times> 'k" where
  "open_uffd os cr k0 =
     (case uc_create cr k0 of
        (Inr fd, k1) \<Rightarrow> (Inr fd, k1)
      | (Inl (OpenDevUserfaultfd e), k1) \<Rightarrow>
          if permission_denied e then
            (case uffd_new os k1 False of
               (Inl e', k2) \<Rightarrow> (Inl (PortRaw e'), k2)
             | (Inr (raw, restricted), k2) \<Rightarrow> (Inr (uf_fd raw), k2))
          else (Inl (PortCrate (OpenDevUserfaultfd e)), k1)
      | (Inl e, k1) \<Rightarrow> (Inl (PortCrate e), k1))"

section \<open>The handler\<close>

record PortHandler =
  ph_fd :: ufd
  ph_base :: u64
  ph_src :: u64

text \<open>One iteration: whether the handler goes on, the faults so far, the kernel.\<close>

definition port_step :: "'k uos \<Rightarrow> 'k UffdCrate \<Rightarrow> PortHandler \<Rightarrow> u64 \<Rightarrow> 'k \<Rightarrow> bool \<times> u64 \<times> 'k" where
  "port_step os cr h faults k =
     (case load_stop os k of
        (stopped, k1) \<Rightarrow>
          if stopped then (False, faults, k1)
          else (case uc_read_event cr (ph_fd h) k1 of
             (Inr (Some (EvPagefault rw addr)), k2) \<Rightarrow>
               let aligned = addr AND NOT (PAGE - 1); page = (aligned - ph_base h) div PAGE in
               (case uc_copy cr (ph_fd h) (ph_src h + page * PAGE) aligned PAGE True k2 of
                  (Inl e, k3) \<Rightarrow> (False, faults + 1, k3)
                | (Inr n, k3) \<Rightarrow> (True, faults + 1, k3))
           | (Inr (Some EvOther), k2) \<Rightarrow> (True, faults, k2)
           | (Inr None, k2) \<Rightarrow> (False, faults, k2)
           | (Inl e, k2) \<Rightarrow> (False, faults, k2)))"

type_synonym 'k port_state = "bool \<times> u64 \<times> 'k"

text \<open>A fault without the descriptor is the kernel's own.\<close>

definition touch_unwatched :: "'k Host \<Rightarrow> nat \<Rightarrow> u64 \<Rightarrow> 'k \<Rightarrow> (u8 \<times> 'k port_state) option" where
  "touch_unwatched ho p faults k =
     (let k' = ho_anon ho k p in map_option (\<lambda>c. (c ! 0, False, faults, k')) (ho_resident ho k' p))"

text \<open>A parked thread waits until its page is there or the descriptor is closed.\<close>

partial_function (option) port_serve ::
  "'k uos \<Rightarrow> 'k UffdCrate \<Rightarrow> 'k Host \<Rightarrow> PortHandler \<Rightarrow> nat \<Rightarrow> u64 \<Rightarrow> 'k \<Rightarrow> (u8 \<times> 'k port_state) option" where
  "port_serve os cr ho h p faults k =
     (case port_step os cr h faults k of
        (alive, faults', k') \<Rightarrow>
          (case ho_resident ho k' p of
             Some c \<Rightarrow> Some (c ! 0, alive, faults', k')
           | None \<Rightarrow> if alive then port_serve os cr ho h p faults' k' else touch_unwatched ho p faults' k'))"

definition port_touch :: "'k uos \<Rightarrow> 'k UffdCrate \<Rightarrow> 'k Host \<Rightarrow> PortHandler \<Rightarrow> nat \<Rightarrow> 'k port_state
    \<Rightarrow> (u8 \<times> 'k port_state) option" where
  "port_touch os cr ho h p s =
     (case s of (alive, faults, k) \<Rightarrow>
      (case ho_resident ho k p of
         Some c \<Rightarrow> Some (c ! 0, s)
       | None \<Rightarrow> if alive then port_serve os cr ho h p faults (ho_raise ho k p) else touch_unwatched ho p faults k))"

section \<open>The program\<close>

definition PORT_PAGES :: u64 where "PORT_PAGES = 64"

definition port_order :: "nat list" where
  "port_order = [7, 0, 63, 31, 7, 32, 1, 31]"

definition port_image :: "u8 list" where
  "port_image = concat (map (\<lambda>p. replicate (unat PAGE) (word_of_nat p)) [0 ..< unat PORT_PAGES])"

fun port_touches :: "'k uos \<Rightarrow> 'k UffdCrate \<Rightarrow> 'k Host \<Rightarrow> PortHandler \<Rightarrow> nat list \<Rightarrow> bool \<Rightarrow> 'k port_state
    \<Rightarrow> (bool \<times> 'k port_state) option" where
  "port_touches os cr ho h [] ok s = Some (ok, s)"
| "port_touches os cr ho h (p # ps) ok s =
     (case port_touch os cr ho h p s of
        None \<Rightarrow> None
      | Some (got, s') \<Rightarrow> port_touches os cr ho h ps (ok \<and> got = word_of_nat p) s')"

definition uffd_port :: "'k uos \<Rightarrow> 'k UffdCrate \<Rightarrow> 'k Host \<Rightarrow> 'k \<Rightarrow> ((UffdPortError, u64) outcome \<times> 'k) option" where
  "uffd_port os cr ho k0 =
     (case open_uffd os cr k0 of
        (Inl e, k1) \<Rightarrow> Some (Err e, k1)
      | (Inr fd, k1) \<Rightarrow>
     (case os k1 (MmapPrivate (PORT_PAGES * PAGE)) of
        (Inl e, k2) \<Rightarrow> Some (Err MmapFailed, k2)
      | (Inr r, k2) \<Rightarrow>
     let base = word_of_int (ur_val r) in
     (case uc_register cr fd base (PORT_PAGES * PAGE) k2 of
        (Inl e, k3) \<Rightarrow> Some (Err (PortCrate e), k3)
      | (Inr ioctls, k3) \<Rightarrow>
     let h = \<lparr>ph_fd = fd, ph_base = base, ph_src = ho_place ho k3 port_image\<rparr> in
     (case port_touches os cr ho h port_order True (True, 0, k3) of
        None \<Rightarrow> None
      | Some (ok, alive, faults, k4) \<Rightarrow>
          if faults \<noteq> 6 then Some (Err (WrongFaultCount faults), k4)
          else if \<not> ok then Some (Err PortWrongPage, k4)
          else Some (Ok faults, k4)))))"

section \<open>What the crate documents\<close>

definition on_port_page :: "PortHandler \<Rightarrow> u64 \<Rightarrow> nat \<Rightarrow> bool" where
  "on_port_page h addr p \<longleftrightarrow> p < 64 \<and> (\<exists>i < 4096. unat addr = unat (ph_base h) + 4096 * p + i)"

text \<open>A thread parked on page \<open>p\<close> makes the blocking read return the event that names the page.\<close>

definition port_events :: "'k uos \<Rightarrow> 'k UffdCrate \<Rightarrow> 'k Host \<Rightarrow> PortHandler \<Rightarrow> ('k \<Rightarrow> bool) \<Rightarrow> ('k \<Rightarrow> nat \<Rightarrow> bool) \<Rightarrow> bool" where
  "port_events os cr ho h live waiting \<longleftrightarrow>
     (\<forall>k p. live k \<longrightarrow> ho_resident ho k p = None \<longrightarrow> p < 64 \<longrightarrow>
        waiting (ho_raise ho k p) p \<and> ho_resident ho (ho_raise ho k p) = ho_resident ho k) \<and>
     (\<forall>k p. waiting k p \<longrightarrow>
        (\<exists>r k'. os k LoadStop = (Inr r, k') \<and> ur_val r = 0 \<and> waiting k' p \<and> ho_resident ho k' = ho_resident ho k) \<and>
        (\<exists>rw addr k'. uc_read_event cr (ph_fd h) k = (Inr (Some (EvPagefault rw addr)), k') \<and>
           on_port_page h addr p \<and> live k' \<and> ho_resident ho k' = ho_resident ho k))"

definition port_copies :: "'k UffdCrate \<Rightarrow> 'k Host \<Rightarrow> PortHandler \<Rightarrow> ('k \<Rightarrow> bool) \<Rightarrow> u8 list \<Rightarrow> bool" where
  "port_copies cr ho h live buf \<longleftrightarrow>
     (\<forall>k p src dst. live k \<longrightarrow> p < 64 \<longrightarrow> ho_resident ho k p = None \<longrightarrow>
        unat src = unat (ph_src h) + 4096 * p \<longrightarrow> unat dst = unat (ph_base h) + 4096 * p \<longrightarrow>
        (\<exists>n k'. uc_copy cr (ph_fd h) src dst PAGE True k = (Inr n, k') \<and> live k' \<and>
           ho_resident ho k' = (ho_resident ho k)(p \<mapsto> page_of buf p)))"

definition port_handler_ok :: "PortHandler \<Rightarrow> bool" where
  "port_handler_ok h \<longleftrightarrow> unat (ph_base h) mod 4096 = 0 \<and> unat (ph_base h) + 4096 * 64 < 2 ^ 64 \<and> unat (ph_src h) + 4096 * 64 < 2 ^ 64"

text \<open>The set-up, which may go either way in \<open>open_uffd\<close>, ends with a fresh region.\<close>

definition port_started :: "'k uos \<Rightarrow> 'k UffdCrate \<Rightarrow> 'k Host \<Rightarrow> 'k \<Rightarrow> PortHandler \<Rightarrow> 'k \<Rightarrow> bool" where
  "port_started os cr ho k0 h k3 \<longleftrightarrow>
     (\<exists>fd k1 r k2 i. open_uffd os cr k0 = (Inr fd, k1) \<and> os k1 (MmapPrivate (PORT_PAGES * PAGE)) = (Inr r, k2) \<and>
        uc_register cr fd (word_of_int (ur_val r)) (PORT_PAGES * PAGE) k2 = (Inr i, k3) \<and>
        h = \<lparr>ph_fd = fd, ph_base = word_of_int (ur_val r), ph_src = ho_place ho k3 port_image\<rparr>) \<and>
     port_handler_ok h \<and> ho_resident ho k3 = Map.empty"

section \<open>One fault\<close>

lemma port_position:
  assumes "port_handler_ok h" "on_port_page h addr p"
  defines "aligned \<equiv> addr AND NOT (PAGE - 1)"
  shows "unat aligned = unat (ph_base h) + 4096 * p"
    "unat (ph_src h + (aligned - ph_base h) div PAGE * PAGE) = unat (ph_src h) + 4096 * p"
proof -
  let ?h = "\<lparr>h_uffd = \<lparr>uf_fd = 0, supported_ioctls = 0\<rparr>, h_region_start = ph_base h, h_region_pages = 64,
    h_src = ph_src h, h_batch_pages = 1, h_spin = False\<rparr>"
  let ?msg = "\<lparr>msg_event = 0, msg_reserved1 = 0, msg_reserved2 = 0, msg_reserved3 = 0, msg_pagefault_flags = 0,
    msg_pagefault_address = addr, msg_pagefault_ptid = 0, msg_pad = 0\<rparr>"
  have "handler_ok ?h" "on_page ?h ?msg p"
    using assms(1,2) by (simp_all add: handler_ok_def port_handler_ok_def on_page_def on_port_page_def)
  from fault_position(1,3) [OF this] show "unat aligned = unat (ph_base h) + 4096 * p"
    "unat (ph_src h + (aligned - ph_base h) div PAGE * PAGE) = unat (ph_src h) + 4096 * p"
    by (simp_all add: fault_addr_def fault_page_def aligned_def)
qed

lemma port_touch_absent:
  assumes "port_handler_ok h" "port_events os cr ho h live waiting" "port_copies cr ho h live buf"
    and "live k" "ho_resident ho k p = None" "p < 64"
  shows "\<exists>k'. port_touch os cr ho h p (True, faults, k) = Some (page_of buf p ! 0, True, faults + 1, k') \<and>
    live k' \<and> ho_resident ho k' = (ho_resident ho k)(p \<mapsto> page_of buf p)"
proof -
  let ?k = "ho_raise ho k p"
  have w: "waiting ?k p" "ho_resident ho ?k = ho_resident ho k"
    using assms(2,4-6) unfolding port_events_def by blast+
  obtain r1 k1 where s1: "os ?k LoadStop = (Inr r1, k1)" "ur_val r1 = 0" "waiting k1 p" "ho_resident ho k1 = ho_resident ho ?k"
    using assms(2) w(1) unfolding port_events_def by blast
  obtain rw addr k2 where s2: "uc_read_event cr (ph_fd h) k1 = (Inr (Some (EvPagefault rw addr)), k2)"
      "on_port_page h addr p" "live k2" "ho_resident ho k2 = ho_resident ho k1"
    using assms(2) s1(3) unfolding port_events_def by blast
  note pos = port_position [OF assms(1) s2(2)]
  have "ho_resident ho k2 p = None" using s2(4) s1(4) w(2) assms(5) by simp
  then obtain n k3 where s3: "uc_copy cr (ph_fd h) (ph_src h + ((addr AND NOT (PAGE - 1)) - ph_base h) div PAGE * PAGE)
        (addr AND NOT (PAGE - 1)) PAGE True k2 = (Inr n, k3)" "live k3"
      "ho_resident ho k3 = (ho_resident ho k2)(p \<mapsto> page_of buf p)"
    using assms(3) s2(3) assms(6) pos unfolding port_copies_def by blast
  have "port_step os cr h faults ?k = (True, faults + 1, k3)"
    using s1(1,2) s2(1) s3(1) by (simp add: port_step_def load_stop_def Let_def)
  then have "port_serve os cr ho h p faults ?k = Some (page_of buf p ! 0, True, faults + 1, k3)"
    using s3(3) by (subst port_serve.simps) simp
  then show ?thesis
    using assms(5) s3(2,3) s2(4) s1(4) w(2) by (intro exI [of _ k3]) (simp add: port_touch_def)
qed

section \<open>The port restores the pages\<close>

lemma port_pages_on_demand:
  assumes "port_handler_ok h" "port_events os cr ho h live waiting" "port_copies cr ho h live buf"
  shows "demand_pager (port_touch os cr ho h) (\<lambda>s. ho_resident ho (snd (snd s))) (\<lambda>s. fst (snd s))
    (\<lambda>s. fst s \<and> live (snd (snd s))) 64 (page_of buf)"
proof
  fix s :: "'a port_state" and p c
  obtain alive faults k where s: "s = (alive, faults, k)" by (cases s)
  show "ho_resident ho (snd (snd s)) p = Some c \<Longrightarrow> port_touch os cr ho h p s = Some (c ! 0, s)"
    by (simp add: s port_touch_def)
  assume "fst s \<and> live (snd (snd s))" "ho_resident ho (snd (snd s)) p = None" "p < 64"
  then show "\<exists>s'. port_touch os cr ho h p s = Some (page_of buf p ! 0, s') \<and> (fst s' \<and> live (snd (snd s'))) \<and>
      ho_resident ho (snd (snd s')) = (ho_resident ho (snd (snd s)))(p \<mapsto> page_of buf p) \<and> fst (snd s') = fst (snd s) + 1"
    using port_touch_absent [OF assms, of k p faults] by (auto simp: s)
qed

lemma port_touches_list:
  "touch_list (port_touch os cr ho h) ps s = Some (map word_of_nat ps, s') \<Longrightarrow> port_touches os cr ho h ps True s = Some (True, s')"
  by (induction ps arbitrary: s) (auto split: option.splits)

lemma port_image_demo: "port_image = demo_image"
  by (simp add: port_image_def demo_image_def demo_page_def [abs_def] PORT_PAGES_def DEMO_PAGES_def)

lemma uffd_port_run:
  assumes "port_started os cr ho k0 h k3"
  shows "uffd_port os cr ho k0 = (case port_touches os cr ho h port_order True (True, 0, k3) of
      None \<Rightarrow> None
    | Some (ok, alive, faults, k4) \<Rightarrow>
        if faults \<noteq> 6 then Some (Err (WrongFaultCount faults), k4)
        else if \<not> ok then Some (Err PortWrongPage, k4)
        else Some (Ok faults, k4))"
  using assms by (auto simp: port_started_def uffd_port_def Let_def)

lemma uffd_port_ok:
  assumes started: "port_started os cr ho k0 h k3" and live: "live k3"
    and docs: "port_events os cr ho h live waiting" "port_copies cr ho h live port_image"
  shows "\<exists>k'. uffd_port os cr ho k0 = Some (Ok 6, k')"
proof -
  have ok: "port_handler_ok h" and empty: "ho_resident ho k3 = Map.empty"
    using started by (auto simp: port_started_def)
  have six: "card (set port_order) = 6" by (simp add: port_order_def card_insert_if)
  have "\<exists>s'. touch_list (port_touch os cr ho h) port_order (True, 0, k3) = Some (map (\<lambda>p. page_of port_image p ! 0) port_order, s') \<and>
      fst (snd s') = 6"
    using demand_pager.restores [OF port_pages_on_demand [OF ok docs], of "(True, 0, k3)" port_order] live six
    by (auto simp: empty shows_image_def port_order_def)
  moreover have "map (\<lambda>p. page_of port_image p ! 0) port_order = map word_of_nat port_order"
    by (simp add: port_order_def port_image_demo demo_image_page demo_page_first)
  ultimately obtain alive k' where "port_touches os cr ho h port_order True (True, 0, k3) = Some (True, alive, 6, k')"
    using port_touches_list by (metis prod.collapse)
  then show ?thesis by (simp add: uffd_port_run [OF started])
qed

section \<open>When the handler dies\<close>

text \<open>Every page that is touched afterwards is a zero page of the kernel's.\<close>

lemma port_touches_dead:
  assumes "\<And>k p. ho_resident ho (ho_anon ho k p) = (ho_resident ho k)(p \<mapsto> replicate 4096 0)"
  shows "\<exists>ok' k'. port_touches os cr ho h ps ok (False, faults, k) = Some (ok', False, faults, k')"
proof (induction ps arbitrary: ok k)
  case (Cons p ps)
  obtain got k1 where "port_touch os cr ho h p (False, faults, k) = Some (got, False, faults, k1)"
    using assms by (cases "ho_resident ho k p") (auto simp: port_touch_def touch_unwatched_def Let_def)
  then show ?case using Cons.IH [of _ k1] by auto
qed simp

lemma uffd_port_dead:
  assumes started: "port_started os cr ho k0 h k3" and live: "live k3"
    and events: "port_events os cr ho h live waiting"
    and fails: "\<And>fd src dst len wake k. \<exists>e k'. uc_copy cr fd src dst len wake k = (Inl e, k') \<and> ho_resident ho k' = ho_resident ho k"
    and anon: "\<And>k p. ho_resident ho (ho_anon ho k p) = (ho_resident ho k)(p \<mapsto> replicate 4096 0)"
  shows "\<exists>k'. uffd_port os cr ho k0 = Some (Err (WrongFaultCount 1), k')"
proof -
  have empty: "ho_resident ho k3 = Map.empty" using started by (auto simp: port_started_def)
  let ?k = "ho_raise ho k3 7"
  have w: "waiting ?k 7" "ho_resident ho ?k = Map.empty"
    using events live empty unfolding port_events_def by auto
  obtain r1 k1 where s1: "os ?k LoadStop = (Inr r1, k1)" "ur_val r1 = 0" "waiting k1 7" "ho_resident ho k1 = ho_resident ho ?k"
    using events w(1) unfolding port_events_def by blast
  obtain rw addr k2 where s2: "uc_read_event cr (ph_fd h) k1 = (Inr (Some (EvPagefault rw addr)), k2)"
      "ho_resident ho k2 = ho_resident ho k1"
    using events s1(3) unfolding port_events_def by blast
  obtain e k4 where s3: "uc_copy cr (ph_fd h) (ph_src h + ((addr AND NOT (PAGE - 1)) - ph_base h) div PAGE * PAGE)
        (addr AND NOT (PAGE - 1)) PAGE True k2 = (Inl e, k4)" "ho_resident ho k4 = ho_resident ho k2"
    using fails by blast
  have absent: "ho_resident ho k4 7 = None" "ho_resident ho k3 7 = None" using s3(2) s2(2) s1(4) w(2) empty by simp_all
  have "port_step os cr h 0 ?k = (False, 1, k4)"
    using s1(1,2) s2(1) s3(1) by (simp add: port_step_def load_stop_def Let_def)
  then have "port_serve os cr ho h 7 0 ?k = Some (0, False, 1, ho_anon ho k4 7)"
    using absent(1) by (subst port_serve.simps) (simp add: touch_unwatched_def Let_def anon)
  then have first: "port_touch os cr ho h 7 (True, 0, k3) = Some (0, False, 1, ho_anon ho k4 7)"
    using absent(2) by (simp add: port_touch_def)
  obtain ok' k' where rest: "port_touches os cr ho h (tl port_order) False (False, 1, ho_anon ho k4 7) = Some (ok', False, 1, k')"
    using port_touches_dead [where ho = ho, OF anon] by blast
  have "port_touches os cr ho h port_order True (True, 0, k3) = Some (ok', False, 1, k')"
    using first rest by (simp add: port_order_def)
  then show ?thesis by (simp add: uffd_port_run [OF started])
qed

section \<open>A reference crate\<close>

text \<open>The crate on the reference kernel of \<open>UffdRef\<close>, where \<^verbatim>\<open>/dev/userfaultfd\<close> is not accessible.\<close>

definition ref_uffd_crate :: "(u64 \<Rightarrow> u8 list) \<Rightarrow> RefPager UffdCrate" where
  "ref_uffd_crate mem = \<lparr>
     uc_create = (\<lambda>k. (Inl (OpenDevUserfaultfd 13), k)),
     uc_register = (\<lambda>fd start len k. (Inr 28, k)),
     uc_read_event = (\<lambda>fd k. case rp_parked k of
         None \<Rightarrow> (Inr None, k)
       | Some p \<Rightarrow> (Inr (Some (EvPagefault RwRead (ref_region + word_of_nat (4096 * p)))), k\<lparr>rp_parked := None\<rparr>)),
     uc_copy = (\<lambda>fd src dst len wake k.
       case ref_copy mem k \<lparr>cp_dst = dst, cp_src = src, cp_len = len, cp_mode = 0, cp_copy = 0\<rparr> of
         (Inl e, k') \<Rightarrow> (Inl (OtherUffdError e), k')
       | (Inr x, k') \<Rightarrow> (Inr (cp_copy (ur_copy x)), k'))\<rparr>"

definition ref_failing_crate :: "RefPager UffdCrate" where
  "ref_failing_crate = (ref_uffd_crate ref_mem)\<lparr>uc_copy := \<lambda>fd src dst len wake k. (Inl (OtherUffdError 22), k)\<rparr>"

definition ref_port_handler :: PortHandler where
  "ref_port_handler = \<lparr>ph_fd = 3, ph_base = ref_region, ph_src = ref_src\<rparr>"

lemma ref_port_started:
  assumes "cr = ref_uffd_crate ref_mem \<or> cr = ref_failing_crate"
  shows "port_started (ref_uos ref_mem) cr ref_host k0 ref_port_handler (k0\<lparr>rp_pages := Map.empty\<rparr>)"
proof -
  have c: "uc_create cr k = (Inl (OpenDevUserfaultfd 13), k)" "uc_register cr fd a n k = (Inr 28, k)" for k fd a n
    using assms by (auto simp: ref_uffd_crate_def ref_failing_crate_def)
  have "open_uffd (ref_uos ref_mem) cr k0 = (Inr 3, k0)"
    by (simp add: open_uffd_def c permission_denied_def ref_calls ref_uffd_def)
  moreover have "port_handler_ok ref_port_handler"
    by (simp add: port_handler_ok_def ref_port_handler_def ref_region_def ref_src_def)
  ultimately show ?thesis
    by (simp add: port_started_def c ref_uret_def ref_port_handler_def port_image_demo ref_host_def ref_images)
qed

lemma ref_port_events:
  assumes "cr = ref_uffd_crate ref_mem \<or> cr = ref_failing_crate"
  shows "port_events (ref_uos ref_mem) cr ref_host ref_port_handler ref_live (ref_waiting 64)"
proof -
  have read: "uc_read_event cr fd k = (Inr (Some (EvPagefault RwRead (ref_region + word_of_nat (4096 * p)))), k\<lparr>rp_parked := None\<rparr>)"
    if "rp_parked k = Some p" for fd k p
    using assms that by (auto simp: ref_uffd_crate_def ref_failing_crate_def)
  have addr: "on_port_page ref_port_handler (ref_region + word_of_nat (4096 * p)) p" if "p < 64" for p
  proof -
    have off: "unat (word_of_nat (4096 * p) :: u64) = 4096 * p" using that by (intro unat_of_nat_u64) simp
    have "unat ref_region + unat (word_of_nat (4096 * p) :: u64) < 2 ^ LENGTH(64)"
      unfolding off using that by (simp add: ref_region_def)
    then have "unat (ref_region + word_of_nat (4096 * p)) = unat ref_region + 4096 * p"
      using off by (metis unat_add_small)
    then show ?thesis using that by (auto simp: on_port_page_def ref_port_handler_def intro!: exI [of _ 0])
  qed
  show ?thesis
    unfolding port_events_def
    using read addr by (auto simp: ref_waiting_def ref_host_def ref_raise_def ref_live_def ref_uret_def)
qed

lemma ref_port_copies: "port_copies (ref_uffd_crate ref_mem) ref_host ref_port_handler ref_live port_image"
proof -
  have "installed img M p (Suc 0) = M(p \<mapsto> img p)" for img M p by (auto simp: installed_def)
  then show ?thesis
    unfolding port_copies_def
    by (auto simp: ref_uffd_crate_def ref_copy_def Let_def ref_host_def ref_live_def ref_port_handler_def PAGE_def
        port_image_demo ref_images)
qed

text \<open>Both pagers of the rung, on the reference kernel.\<close>

interpretation ref_raw: demand_pager
  "touch_page (ref_uos ref_mem) ref_raise rp_pages (ref_handler ref_src 64 1 spin)" "\<lambda>s. rp_pages (snd (snd s))"
  "\<lambda>s. hs_faults (fst (snd s))" "serving ref_live" 64 "page_of demo_image" for spin
  using handler_pages_on_demand [where count = hs_faults, OF ref_handler_ok _ ref_pager_faithful, of 1 64 ref_src spin ref_mem] 
  by (simp add: ref_handler_def ref_src_def ref_mem_def)

interpretation ref_port: demand_pager
  "port_touch (ref_uos ref_mem) (ref_uffd_crate ref_mem) ref_host ref_port_handler" "\<lambda>s. ho_resident ref_host (snd (snd s))"
  "\<lambda>s. fst (snd s)" "\<lambda>s. fst s \<and> ref_live (snd (snd s))" 64 "page_of port_image"
  using ref_port_started ref_port_events ref_port_copies
  by (intro port_pages_on_demand) (auto simp: port_started_def)

end
