(* ===== verification/UffdSystem.thy ===== *)
theory UffdSystem
  imports UffdRef
begin

text \<open>
  The handler and the threads it serves as a transition system, in which they interleave freely: any
  thread faults on any page at any time, several on the same one, the handler of
  \<^verbatim>\<open>rung-03-uffd/toy-uffd-raw/src/main.rs\<close> makes an iteration whenever it likes, with any batch size and in
  either mode of reading, and the region is dropped in between. \<open>pg_dropped\<close> is a ghost: the pages that
  were given back.
\<close>

section \<open>The system\<close>

record 'k paging =
  pg_alive :: bool
  pg_stats :: HandlerStats
  pg_kernel :: 'k
  pg_dropped :: nat

inductive paging_step :: "'k uos \<Rightarrow> ('k \<Rightarrow> nat \<Rightarrow> 'k) \<Rightarrow> ('k \<Rightarrow> pages) \<Rightarrow> Handler \<Rightarrow> Region \<Rightarrow> 'k paging \<Rightarrow> 'k paging \<Rightarrow> bool"
  for os raise resident h r where
  fault: "p < unat (h_region_pages h) \<Longrightarrow>
    paging_step os raise resident h r s (s\<lparr>pg_kernel := raise (pg_kernel s) p\<rparr>)"
| serve: "pg_alive s \<Longrightarrow> handler_step os (pg_kernel s) h (pg_stats s) = Some (alive, st, k) \<Longrightarrow>
    paging_step os raise resident h r s (s\<lparr>pg_alive := alive, pg_stats := st, pg_kernel := k\<rparr>)"
| drop: "region_reset os (pg_kernel s) r = (Inr (), k) \<Longrightarrow>
    paging_step os raise resident h r s
      (s\<lparr>pg_kernel := k, pg_dropped := pg_dropped s + card (dom (resident (pg_kernel s)))\<rparr>)"

inductive paging_reach :: "'k uos \<Rightarrow> ('k \<Rightarrow> nat \<Rightarrow> 'k) \<Rightarrow> ('k \<Rightarrow> pages) \<Rightarrow> Handler \<Rightarrow> Region \<Rightarrow> 'k \<Rightarrow> 'k paging \<Rightarrow> bool"
  for os raise resident h r k0 where
  start: "paging_reach os raise resident h r k0 \<lparr>pg_alive = True, pg_stats = handler_stats_default, pg_kernel = k0, pg_dropped = 0\<rparr>"
| step: "paging_reach os raise resident h r k0 s \<Longrightarrow> paging_step os raise resident h r s s' \<Longrightarrow>
    paging_reach os raise resident h r k0 s'"

section \<open>What the kernel documents\<close>

text \<open>
  Only a copy installs pages and only a reset removes them; a page-fault message names a page of the
  region, whoever is parked on it and whether or not it has been installed since.
\<close>

definition raise_documented :: "('k \<Rightarrow> nat \<Rightarrow> 'k) \<Rightarrow> ('k \<Rightarrow> pages) \<Rightarrow> ('k \<Rightarrow> bool) \<Rightarrow> Handler \<Rightarrow> bool" where
  "raise_documented raise resident live h \<longleftrightarrow>
     (\<forall>k p. live k \<longrightarrow> p < unat (h_region_pages h) \<longrightarrow> live (raise k p) \<and> resident (raise k p) = resident k)"

definition waits_documented :: "'k uos \<Rightarrow> ('k \<Rightarrow> pages) \<Rightarrow> ('k \<Rightarrow> bool) \<Rightarrow> Handler \<Rightarrow> bool" where
  "waits_documented os resident live h \<longleftrightarrow>
     (\<forall>k c res k'. live k \<longrightarrow> c \<in> {LoadStop, PollIn (uf_fd (h_uffd h)) 50, ReadFd (uf_fd (h_uffd h)) 32} \<longrightarrow>
        os k c = (res, k') \<longrightarrow> live k' \<and> resident k' = resident k)"

definition messages_documented :: "'k uos \<Rightarrow> ('k \<Rightarrow> bool) \<Rightarrow> Handler \<Rightarrow> bool" where
  "messages_documented os live h \<longleftrightarrow>
     (\<forall>k x k'. live k \<longrightarrow> os k (ReadFd (uf_fd (h_uffd h)) 32) = (Inr x, k') \<longrightarrow> ur_val x = 32 \<longrightarrow>
        msg_event (uffd_msg_of_bytes (ur_bytes x)) = UFFD_EVENT_PAGEFAULT \<longrightarrow>
        (\<exists>p. on_page h (uffd_msg_of_bytes (ur_bytes x)) p))"

definition drops_documented :: "'k uos \<Rightarrow> ('k \<Rightarrow> pages) \<Rightarrow> ('k \<Rightarrow> bool) \<Rightarrow> Region \<Rightarrow> bool" where
  "drops_documented os resident live r \<longleftrightarrow>
     (\<forall>k x k'. live k \<longrightarrow> os k (MadviseDontneed (rgn_ptr r) (rgn_len r)) = (Inr x, k') \<longrightarrow>
        live k' \<and> resident k' = Map.empty)"

definition watching_documented :: "'k uos \<Rightarrow> ('k \<Rightarrow> nat \<Rightarrow> 'k) \<Rightarrow> ('k \<Rightarrow> pages) \<Rightarrow> ('k \<Rightarrow> bool) \<Rightarrow> Handler \<Rightarrow> Region \<Rightarrow> bool" where
  "watching_documented os raise resident live h r \<longleftrightarrow>
     raise_documented raise resident live h \<and> waits_documented os resident live h \<and>
     messages_documented os live h \<and> drops_documented os resident live r"

lemma watching_raise:
  "watching_documented os raise resident live h r \<Longrightarrow> live k \<Longrightarrow> p < unat (h_region_pages h) \<Longrightarrow>
    live (raise k p) \<and> resident (raise k p) = resident k"
  by (simp add: watching_documented_def raise_documented_def)

lemma watching_call:
  assumes "watching_documented os raise resident live h r" "live k"
    and "c \<in> {LoadStop, PollIn (uf_fd (h_uffd h)) 50, ReadFd (uf_fd (h_uffd h)) 32}" "os k c = (res, k')"
  shows "live k' \<and> resident k' = resident k"
proof -
  have "waits_documented os resident live h" using assms(1) by (simp only: watching_documented_def)
  from this [unfolded waits_documented_def, rule_format, OF assms(2-4)] show ?thesis .
qed

lemma watching_message:
  assumes "watching_documented os raise resident live h r" "live k"
    and "os k (ReadFd (uf_fd (h_uffd h)) 32) = (Inr x, k')" "ur_val x = 32"
    and "msg_event (uffd_msg_of_bytes (ur_bytes x)) = UFFD_EVENT_PAGEFAULT"
  shows "\<exists>p. on_page h (uffd_msg_of_bytes (ur_bytes x)) p"
proof -
  have "messages_documented os live h" using assms(1) by (simp only: watching_documented_def)
  from this [unfolded messages_documented_def, rule_format, OF assms(2-5)] show ?thesis .
qed

lemma watching_reset:
  assumes "watching_documented os raise resident live h r" "live k" "region_reset os k r = (Inr (), k')"
  shows "live k' \<and> resident k' = Map.empty"
proof -
  have "drops_documented os resident live r" using assms(1) by (simp only: watching_documented_def)
  moreover obtain x where "os k (MadviseDontneed (rgn_ptr r) (rgn_len r)) = (Inr x, k')"
    using assms(3) by (auto simp: region_reset_def split: sum.splits prod.splits if_splits)
  ultimately show ?thesis using assms(2) unfolding drops_documented_def by metis
qed

section \<open>What an iteration keeps\<close>

text \<open>Reading an event, in either mode, installs nothing, and a fault it reports is on a page of the region.\<close>

definition event_ok :: "('k \<Rightarrow> pages) \<Rightarrow> ('k \<Rightarrow> bool) \<Rightarrow> Handler \<Rightarrow> 'k \<Rightarrow> (UError + uffd_msg option) \<times> 'k \<Rightarrow> bool" where
  "event_ok resident live h k out \<longleftrightarrow> live (snd out) \<and> resident (snd out) = resident k \<and>
     (\<forall>msg. fst out = Inr (Some msg) \<longrightarrow> msg_event msg = UFFD_EVENT_PAGEFAULT \<longrightarrow> (\<exists>p. on_page h msg p))"

lemma load_stop_keeps:
  assumes "watching_documented os raise resident live h r" "live k" "load_stop os k = (b, k')"
  shows "live k' \<and> resident k' = resident k"
  using watching_call [OF assms(1,2), of LoadStop] assms(3)
  by (auto simp: load_stop_def split: sum.splits prod.splits)

lemma read_event_keeps:
  assumes w: "watching_documented os raise resident live h r" and "live k"
  shows "event_ok resident live h k (read_event os k (h_uffd h) 50)"
proof -
  let ?u = "uf_fd (h_uffd h)"
  obtain res k1 where p: "os k (PollIn ?u 50) = (res, k1)" by (cases "os k (PollIn ?u 50)")
  obtain res2 k2 where q: "os k1 (ReadFd ?u 32) = (res2, k2)" by (cases "os k1 (ReadFd ?u 32)")
  have k1: "live k1 \<and> resident k1 = resident k" using watching_call [OF w assms(2) _ p] by simp
  then have k2: "live k2 \<and> resident k2 = resident k1" using watching_call [OF w _ _ q] by simp
  have m: "\<exists>p. on_page h (uffd_msg_of_bytes (ur_bytes x)) p"
    if "res2 = Inr x" "ur_val x = 32" "msg_event (uffd_msg_of_bytes (ur_bytes x)) = UFFD_EVENT_PAGEFAULT" for x
    using watching_message [OF w conjunct1 [OF k1] q [unfolded that(1)] that(2,3)] .
  show ?thesis
    using k1 k2 m by (auto simp: event_ok_def read_event_def p q uffd_struct_sizes split: sum.splits)
qed

lemma read_event_spin_keeps:
  assumes w: "watching_documented os raise resident live h r" and run: "read_event_spin os k (h_uffd h) = Some out" and "live k"
  shows "event_ok resident live h k out"
proof -
  have "os = os \<longrightarrow> h_uffd h = h_uffd h \<longrightarrow> live k \<longrightarrow> event_ok resident live h k out"
  proof (rule read_event_spin.raw_induct [where P = "\<lambda>os' k u out. os' = os \<longrightarrow> u = h_uffd h \<longrightarrow> live k \<longrightarrow>
      event_ok resident live h k out", OF _ run])
    fix spin os' k u out
    assume ih: "\<And>os' k u out. spin os' k u = Some out \<Longrightarrow> os' = os \<longrightarrow> u = h_uffd h \<longrightarrow> live k \<longrightarrow> event_ok resident live h k out"
      and st: "(case load_stop os' k of
        (stopped, k1) \<Rightarrow>
          if stopped then Some (Inr None, k1)
          else (case os' k1 (ReadFd (uf_fd u) (struct_size uffd_msg_fields)) of
             (Inr got, k2) \<Rightarrow>
               if ur_val got = int (struct_size uffd_msg_fields) then
                 Some (Inr (Some (uffd_msg_of_bytes (ur_bytes got))), k2)
               else spin os' k2 u
           | (Inl e, k2) \<Rightarrow>
               if e = U_EAGAIN \<or> e = U_EINTR then spin os' k2 u
               else Some (Inl (UOs e), k2))) = Some out"
    show "os' = os \<longrightarrow> u = h_uffd h \<longrightarrow> live k \<longrightarrow> event_ok resident live h k out"
    proof (intro impI)
      assume a: "os' = os" "u = h_uffd h" "live k"
      obtain b k1 where s: "load_stop os k = (b, k1)" by (cases "load_stop os k")
      obtain res k2 where q: "os k1 (ReadFd (uf_fd (h_uffd h)) 32) = (res, k2)"
        by (cases "os k1 (ReadFd (uf_fd (h_uffd h)) 32)")
      have k1: "live k1 \<and> resident k1 = resident k" by (rule load_stop_keeps [OF w a(3) s])
      then have k2: "live k2 \<and> resident k2 = resident k1" using watching_call [OF w _ _ q] by simp
      have m: "\<exists>p. on_page h (uffd_msg_of_bytes (ur_bytes x)) p"
        if "res = Inr x" "ur_val x = 32" "msg_event (uffd_msg_of_bytes (ur_bytes x)) = UFFD_EVENT_PAGEFAULT" for x
        using watching_message [OF w conjunct1 [OF k1] q [unfolded that(1)] that(2,3)] .
      have again: "event_ok resident live h k out" if "spin os k2 (h_uffd h) = Some out"
        using ih [OF that] k1 k2 by (simp add: event_ok_def)
      show "event_ok resident live h k out"
        using st again k1 k2 m
        by (auto simp: event_ok_def a(1,2) s q uffd_struct_sizes split: if_splits sum.splits bool.splits)
    qed
  qed
  then show ?thesis using assms(3) by simp
qed

lemma next_event_keeps:
  assumes "watching_documented os raise resident live h r" "next_event os k h = Some out" "live k"
  shows "event_ok resident live h k out"
proof (cases "h_spin h")
  case True
  then show ?thesis using read_event_spin_keeps [OF assms(1) _ assms(3)] assms(2) by (simp add: next_event_def)
next
  case False
  then show ?thesis using read_event_keeps [OF assms(1,3)] assms(2) by (simp add: next_event_def)
qed

section \<open>The invariant\<close>

definition paging_inv :: "('k \<Rightarrow> pages) \<Rightarrow> ('k \<Rightarrow> bool) \<Rightarrow> Handler \<Rightarrow> (nat \<Rightarrow> u8 list) \<Rightarrow> 'k paging \<Rightarrow> bool" where
  "paging_inv resident live h img s \<longleftrightarrow> live (pg_kernel s) \<and> shows_image img (resident (pg_kernel s)) \<and>
     dom (resident (pg_kernel s)) \<subseteq> {..< unat (h_region_pages h)} \<and>
     (pg_alive s \<longrightarrow> hs_pages_installed (pg_stats s) = of_nat (pg_dropped s + card (dom (resident (pg_kernel s)))))"

lemma card_installed:
  assumes "finite (dom M)" "absent_run M p n = n"
  shows "card (dom (installed img M p n)) = card (dom M) + n"
proof -
  have "dom M \<inter> {p ..< p + n} = {}" using assms(2) [unfolded absent_run_full] by (auto simp: domIff)
  then show ?thesis using assms(1) by (simp add: dom_installed card_Un_disjoint)
qed

lemma handle_msg_inv:
  assumes h: "handler_ok h" "4096 * unat (h_region_pages h) < 2 ^ 63" "copies_documented os h live resident img"
    and k: "live k" "shows_image img (resident k)" "dom (resident k) \<subseteq> {..< unat (h_region_pages h)}"
    and count: "hs_pages_installed st = of_nat (d + card (dom (resident k)))"
    and page: "msg_event msg = UFFD_EVENT_PAGEFAULT \<Longrightarrow> \<exists>p. on_page h msg p"
    and step: "handle_msg os k h st msg = (alive, st', k')"
  shows "live k' \<and> shows_image img (resident k') \<and> dom (resident k') \<subseteq> {..< unat (h_region_pages h)} \<and>
    (alive \<longrightarrow> hs_pages_installed st' = of_nat (d + card (dom (resident k'))))"
proof (cases "msg_event msg = UFFD_EVENT_PAGEFAULT")
  case False
  then have "alive" "st' = st" "k' = k" using step by (simp_all add: handle_msg_def)
  then show ?thesis using k count by simp
next
  case True
  then obtain p where p: "on_page h msg p" using page by blast
  let ?n = "run_length h p" and ?j = "absent_run (resident k) p (run_length h p)"
  have n: "0 < ?n" "p + ?n \<le> unat (h_region_pages h)"
    using p run_length_pos [OF h(1)] by (auto simp: on_page_def run_length_def)
  then have "4096 * ?n \<le> 4096 * unat (h_region_pages h)" by simp
  then have short: "4096 * ?n < 2 ^ 63" using h(2) by (rule le_less_trans)
  have out: "alive = (?j = ?n \<or> ?j = 0)" "live k'" "resident k' = installed img (resident k) p ?j"
      "hs_pages_installed st' = hs_pages_installed st + (if ?j = ?n then of_nat ?n else 0)"
    using fault_handled [where st = st, OF h(1) short True p h(3) k(1)] step by auto
  have "dom (resident k') \<subseteq> {..< unat (h_region_pages h)}"
    using k(3) n(2) absent_run_le [of "resident k" p ?n] by (auto simp: out(3) dom_installed)
  moreover have "shows_image img (resident k')" using k(2) by (simp add: out(3) shows_image_installed)
  moreover have "hs_pages_installed st' = of_nat (d + card (dom (resident k')))" if "alive"
  proof (cases "?j = ?n")
    case True
    have "card (dom (resident k')) = card (dom (resident k)) + ?n"
      unfolding out(3) True by (rule card_installed [OF finite_subset [OF k(3) finite_lessThan] True])
    then show ?thesis using out(4) count True by (simp add: add_ac)
  next
    case False
    then have "?j = 0" using that out(1) by simp
    moreover have "installed img (resident k) p 0 = resident k" by (rule ext) (auto simp: installed_def)
    ultimately have "resident k' = resident k" using out(3) by simp
    then show ?thesis using out(4) count False by simp
  qed
  ultimately show ?thesis using out(2) by blast
qed

lemma paging_step_inv:
  assumes h: "handler_ok h" "4096 * unat (h_region_pages h) < 2 ^ 63" "copies_documented os h live resident img"
    and w: "watching_documented os raise resident live h r"
    and inv: "paging_inv resident live h img s" and step: "paging_step os raise resident h r s s'"
  shows "paging_inv resident live h img s'"
proof -
  have k: "live (pg_kernel s)" "shows_image img (resident (pg_kernel s))"
      "dom (resident (pg_kernel s)) \<subseteq> {..< unat (h_region_pages h)}"
    and count: "pg_alive s \<Longrightarrow> hs_pages_installed (pg_stats s) = of_nat (pg_dropped s + card (dom (resident (pg_kernel s))))"
    using inv by (simp_all add: paging_inv_def)
  from step show ?thesis
  proof (cases rule: paging_step.cases)
    case (fault p)
    then show ?thesis using watching_raise [OF w k(1)] inv by (simp add: paging_inv_def)
  next
    case (serve alive st k')
    obtain b k1 where s1: "load_stop os (pg_kernel s) = (b, k1)" by (cases "load_stop os (pg_kernel s)")
    have k1: "live k1 \<and> resident k1 = resident (pg_kernel s)" by (rule load_stop_keeps [OF w k(1) s1])
    have "live k' \<and> shows_image img (resident k') \<and> dom (resident k') \<subseteq> {..< unat (h_region_pages h)} \<and>
      (alive \<longrightarrow> hs_pages_installed st = of_nat (pg_dropped s + card (dom (resident k'))))"
    proof (cases b)
      case True
      then show ?thesis using serve(3) s1 k k1 by (auto simp: handler_step_def)
    next
      case False
      then obtain res k2 where e: "next_event os k1 h = Some (res, k2)"
        using serve(3) s1 by (auto simp: handler_step_def split: option.splits)
      have ok: "live k2" "resident k2 = resident (pg_kernel s)"
          "\<And>msg. res = Inr (Some msg) \<Longrightarrow> msg_event msg = UFFD_EVENT_PAGEFAULT \<Longrightarrow> \<exists>p. on_page h msg p"
        using next_event_keeps [OF w e] k1 by (simp_all add: event_ok_def)
      show ?thesis
      proof (cases "\<exists>msg. res = Inr (Some msg)")
        case True
        then obtain msg where m: "res = Inr (Some msg)" by blast
        have "handle_msg os k2 h (pg_stats s) msg = (alive, st, k')"
          using serve(3) s1 e m False by (simp add: handler_step_def)
        from handle_msg_inv [OF h ok(1) _ _ _ ok(3) [OF m] this, of "pg_dropped s"] show ?thesis
          using k(2,3) count [OF serve(2)] ok(2) by simp
      next
        case no_msg: False
        then have "st = pg_stats s" "k' = k2"
          using serve(3) s1 e False by (auto simp: handler_step_def split: sum.splits option.splits)
        then show ?thesis using k(2,3) count [OF serve(2)] ok(1,2) by simp
      qed
    qed
    then show ?thesis by (simp add: paging_inv_def serve(1))
  next
    case (drop k')
    then show ?thesis using watching_reset [OF w k(1)] count by (simp add: paging_inv_def shows_image_def)
  qed
qed

lemma paging_reach_inv:
  assumes h: "handler_ok h" "4096 * unat (h_region_pages h) < 2 ^ 63" "copies_documented os h live resident img"
    and w: "watching_documented os raise resident live h r" and start: "live k0" "resident k0 = Map.empty"
  shows "paging_reach os raise resident h r k0 s \<Longrightarrow> paging_inv resident live h img s"
proof (induction rule: paging_reach.induct)
  case start
  then show ?case using assms(5,6) by (simp add: paging_inv_def shows_image_def handler_stats_default_def)
next
  case (step s s')
  then show ?case using paging_step_inv [OF h w] by blast
qed

section \<open>The reference kernel\<close>

text \<open>Whatever thread is parked is parked on a page of the region.\<close>

definition ref_parked_inside :: "u64 \<Rightarrow> RefPager \<Rightarrow> bool" where
  "ref_parked_inside pages k \<longleftrightarrow> (\<forall>p. rp_parked k = Some p \<longrightarrow> p < unat pages)"

lemma ref_watching:
  assumes "unat pages \<le> 4096"
  shows "watching_documented (ref_uos mem) ref_raise rp_pages (ref_parked_inside pages) (ref_handler src pages batch spin) r"
proof -
  have on_page: "\<exists>q. on_page (ref_handler src pages batch spin) (uffd_msg_of_bytes (ref_msg p)) q" if "p < unat pages" for p
    using ref_msg_decoded(2) [OF that assms] by blast
  have "raise_documented ref_raise rp_pages (ref_parked_inside pages) (ref_handler src pages batch spin)"
    by (simp add: raise_documented_def ref_parked_inside_def ref_raise_def ref_handler_def)
  moreover have "waits_documented (ref_uos mem) rp_pages (ref_parked_inside pages) (ref_handler src pages batch spin)"
    by (auto simp: waits_documented_def ref_parked_inside_def split: option.splits)
  moreover have "messages_documented (ref_uos mem) (ref_parked_inside pages) (ref_handler src pages batch spin)"
    using ref_msg_decoded(1) [OF _ assms] on_page
    by (auto simp: messages_documented_def ref_parked_inside_def ref_uret_def split: option.splits)
  moreover have "drops_documented (ref_uos mem) rp_pages (ref_parked_inside pages) r"
    by (auto simp: drops_documented_def ref_parked_inside_def)
  ultimately show ?thesis by (simp only: watching_documented_def)
qed

lemma ref_copies:
  "copies_documented (ref_uos mem) (ref_handler src pages batch spin) (ref_parked_inside pages') rp_pages (page_of (mem src))"
  unfolding copies_documented_def
  by (auto simp: ref_copy_def Let_def ref_handler_def ref_parked_inside_def)

end
