(* ===== verification/UffdProperties.thy ===== *)
theory UffdProperties
  imports UffdCrates UffdSystem
begin

text \<open>
  The properties of the userfaultfd rung (\<^verbatim>\<open>rung-03-uffd/toy-uffd-raw\<close>), each with a concrete application.
  Where a property relies on the kernel, its application runs on the reference kernel of \<open>UffdRef\<close>.
\<close>

section \<open>The handler\<close>

text \<open>C31: For a fault on a page of the region the handler issues exactly one copy: page-aligned, starting at
  the faulting page, inside the region, and reading the image at the same offset and never past its
  end, whatever the batch size.\<close>

theorem fault_copy_in_bounds:
  assumes "handler_ok h" "on_page h msg p" "msg_event msg = UFFD_EVENT_PAGEFAULT"
  shows "\<exists>c. (\<forall>os k st. snd (snd (handle_msg os k h st msg)) = snd (os k (IoctlCopy (uf_fd (h_uffd h)) UFFDIO_COPY c))) \<and>
    unat (cp_dst c) = unat (h_region_start h) + 4096 * p \<and> unat (cp_dst c) mod 4096 = 0 \<and>
    unat (cp_src c) = unat (h_src h) + 4096 * p \<and>
    unat (cp_len c) = 4096 * min (unat (h_batch_pages h)) (unat (h_region_pages h) - p) \<and>
    unat (cp_dst c) + unat (cp_len c) \<le> unat (h_region_start h) + 4096 * unat (h_region_pages h) \<and>
    unat (cp_src c) + unat (cp_len c) \<le> unat (h_src h) + 4096 * unat (h_region_pages h) \<and> 0 < cp_len c"
proof (intro exI conjI allI)
  note pos = fault_position [OF assms(1,2)]
  have p: "p < unat (h_region_pages h)" using assms(2) by (simp add: on_page_def)
  have run: "unat (fault_run h msg) \<le> unat (h_region_pages h) - p" "0 < unat (fault_run h msg)"
    using pos(4) run_length_pos [OF assms(1) p] by (simp_all add: run_length_def)
  have inside: "4096 * p + 4096 * unat (fault_run h msg) \<le> 4096 * unat (h_region_pages h)"
    using run(1) p by linarith
  show "snd (snd (handle_msg os k h st msg)) = snd (os k (IoctlCopy (uf_fd (h_uffd h)) UFFDIO_COPY (fault_copy h msg)))" for os k st
    by (simp add: handle_msg_copy [OF assms(3)] Let_def split: prod.split sum.split)
  show "unat (cp_dst (fault_copy h msg)) = unat (h_region_start h) + 4096 * p"
    "unat (cp_src (fault_copy h msg)) = unat (h_src h) + 4096 * p"
    "unat (cp_len (fault_copy h msg)) = 4096 * min (unat (h_batch_pages h)) (unat (h_region_pages h) - p)"
    using pos by (simp_all add: fault_copy_def)
  show "unat (cp_dst (fault_copy h msg)) mod 4096 = 0"
    using pos(1) assms(1) by (simp add: fault_copy_def handler_ok_def mod_add_eq [symmetric])
  show "unat (cp_dst (fault_copy h msg)) + unat (cp_len (fault_copy h msg)) \<le> unat (h_region_start h) + 4096 * unat (h_region_pages h)"
    "unat (cp_src (fault_copy h msg)) + unat (cp_len (fault_copy h msg)) \<le> unat (h_src h) + 4096 * unat (h_region_pages h)"
    using pos(1,3,5) inside by (simp_all add: fault_copy_def)
  show "0 < cp_len (fault_copy h msg)"
    using pos(5) run(2) by (simp add: fault_copy_def word_less_nat_alt)
qed

lemma fault_copy_in_bounds_witness:
  "\<exists>c :: uffdio_copy. unat (cp_dst c) = 0x10000000 + 4096 * 62 \<and> unat (cp_len c) = 4096 * 2 \<and> 0 < cp_len c"
proof -
  let ?h = "ref_handler ref_src 64 8 False"
  have h: "handler_ok ?h" "h_region_start ?h = ref_region" "unat (h_region_pages ?h) = 64" "unat (h_batch_pages ?h) = 8"
    using ref_handler_ok [of 8 64 ref_src False] by (simp_all add: ref_handler_def ref_src_def)
  have m: "msg_event (uffd_msg_of_bytes (ref_msg 62)) = UFFD_EVENT_PAGEFAULT" "on_page ?h (uffd_msg_of_bytes (ref_msg 62)) 62"
    using ref_msg_decoded [of 62 64] by simp_all
  obtain c :: uffdio_copy where "unat (cp_dst c) = unat (h_region_start ?h) + 4096 * 62"
      "unat (cp_len c) = 4096 * min (unat (h_batch_pages ?h)) (unat (h_region_pages ?h) - 62)" "0 < cp_len c"
    using fault_copy_in_bounds [OF h(1) m(2,1), where 'a = unit] by blast
  then show ?thesis using h(2-4) by (intro exI [of _ c]) (simp add: ref_region_def)
qed

text \<open>C33: Demand paging restores the image: with one page per fault and a kernel that behaves as documented,
  a thread that touches any pages in any order reads the image's bytes, and the handler serves
  exactly one fault for every distinct page that was not resident.\<close>

theorem restore_on_demand:
  assumes "handler_ok h" "h_batch_pages h = 1" "pager_faithful os raise resident live waiting h img"
    and "live k" "shows_image img (resident k)" "set ps \<subseteq> {..< unat (h_region_pages h)}" "finite (dom (resident k))"
  shows "\<exists>st' k'. touch_all os raise resident h ps (True, st, k) = Some (map (\<lambda>p. img p ! 0) ps, True, st', k') \<and>
    live k' \<and> shows_image img (resident k') \<and> dom (resident k') = dom (resident k) \<union> set ps \<and>
    hs_faults st' = hs_faults st + of_nat (card (set ps - dom (resident k))) \<and>
    hs_pages_installed st' = hs_pages_installed st + of_nat (card (set ps - dom (resident k)))"
  by (rule touches_restore_aux [OF assms])

lemma restore_on_demand_witness:
  "\<exists>st k. touch_all (ref_uos ref_mem) ref_raise rp_pages (ref_handler ref_src 64 1 True) [5, 9, 5] (True, handler_stats_default, ref_empty) =
     Some ([5, 9, 5], True, st, k) \<and> hs_faults st = 2"
proof -
  have "shows_image (page_of demo_image) (rp_pages ref_empty)" "finite (dom (rp_pages ref_empty))" "ref_live ref_empty"
    by (simp_all add: shows_image_def ref_empty_def ref_live_def)
  moreover have "handler_ok (ref_handler ref_src 64 1 True)" "h_batch_pages (ref_handler ref_src 64 1 True) = 1"
    "set [5, 9, 5] \<subseteq> {..< unat (h_region_pages (ref_handler ref_src 64 1 True))}"
    using ref_handler_ok [of 1 64 ref_src True] by (simp_all add: ref_handler_def ref_src_def)
  moreover have "pager_faithful (ref_uos ref_mem) ref_raise rp_pages ref_live (ref_waiting 64) (ref_handler ref_src 64 1 True) (page_of demo_image)"
    using ref_pager_faithful [of 64 ref_mem ref_src] by (simp add: ref_images)
  ultimately obtain st k where t: "touch_all (ref_uos ref_mem) ref_raise rp_pages (ref_handler ref_src 64 1 True) [5, 9, 5]
        (True, handler_stats_default, ref_empty) = Some (map (\<lambda>p. page_of demo_image p ! 0) [5, 9, 5], True, st, k)"
      "hs_faults st = hs_faults handler_stats_default + of_nat (card (set [5, 9, 5] - dom (rp_pages ref_empty)))"
    using restore_on_demand [of "ref_handler ref_src 64 1 True" "ref_uos ref_mem" ref_raise rp_pages ref_live "ref_waiting 64"
        "page_of demo_image" ref_empty "[5, 9, 5]" handler_stats_default]
    by blast
  have "card (set [5, 9, 5 :: nat] - dom (rp_pages ref_empty)) = 2"
    by (simp add: ref_empty_def insert_commute)
  moreover have "map (\<lambda>p. page_of demo_image p ! 0) [5, 9, 5] = [5, 9, 5]"
    by (simp add: demo_image_page demo_page_first)
  ultimately show ?thesis
    using t by (simp add: handler_stats_default_def)
qed

text \<open>C32: However the faulting threads, the handler and dropping the region interleave, several threads on
  the same page included, every resident page shows the image and lies in the region, and while the
  handler lives it has counted exactly the pages that were installed: those resident and those dropped
  since.\<close>

theorem demand_paging_invariant:
  assumes "handler_ok h" "4096 * unat (h_region_pages h) < 2 ^ 63" "copies_documented os h live resident img"
    and "watching_documented os raise resident live h r" "live k0" "resident k0 = Map.empty"
    and "paging_reach os raise resident h r k0 s"
  shows "shows_image img (resident (pg_kernel s)) \<and> dom (resident (pg_kernel s)) \<subseteq> {..< unat (h_region_pages h)} \<and>
    (pg_alive s \<longrightarrow> hs_pages_installed (pg_stats s) = of_nat (pg_dropped s + card (dom (resident (pg_kernel s)))))"
  using paging_reach_inv [OF assms] by (simp add: paging_inv_def)

lemma demand_paging_invariant_witness:
  "\<exists>s. paging_reach (ref_uos ref_mem) ref_raise rp_pages (ref_handler ref_src 64 8 False)
      \<lparr>rgn_ptr = ref_region, rgn_len = 64 * PAGE\<rparr> ref_empty s \<and>
    pg_alive s \<and> pg_dropped s = 2 \<and> hs_pages_installed (pg_stats s) = 2"
proof -
  let ?r = "\<lparr>rgn_ptr = ref_region, rgn_len = 64 * PAGE\<rparr>"
    and ?h = "ref_handler ref_src 64 8 False" and ?os = "ref_uos ref_mem" and ?k = "ref_raise ref_empty 62"
  have h: "handler_ok ?h" "unat (h_region_pages ?h) = 64" "run_length ?h 62 = 2"
    using ref_handler_ok [of 8 64 ref_src False] by (simp_all add: ref_handler_def ref_src_def run_length_def)
  have k: "rp_pages ?k = Map.empty" "ref_live ?k" "ref_waiting 64 ?k 62"
    by (simp_all add: ref_raise_def ref_empty_def ref_live_def ref_waiting_def)
  have doc: "copies_documented ?os ?h ref_live rp_pages (page_of demo_image)" "events_documented ?os ?h ref_live rp_pages (ref_waiting 64)"
    using ref_pager_faithful [of 64 ref_mem ref_src 8 False] by (simp_all add: pager_faithful_def ref_images)
  have run: "absent_run (rp_pages ?k) 62 2 = 2" by (simp add: k(1) numeral_2_eq_2)
  obtain st k' where st: "handler_step ?os ?k ?h handler_stats_default = Some (True, st, k')"
      "rp_pages k' = installed (page_of demo_image) (rp_pages ?k) 62 2"
    using fault_served [where st = handler_stats_default, OF h(1) _ doc(1,2) k(3)] k(1) h(3) run by auto
  have "dom (rp_pages k') = {62 ..< 64}" by (simp add: st(2) dom_installed k(1))
  then have two: "card (dom (rp_pages k')) = 2" by simp
  let ?s = "\<lparr>pg_alive = True, pg_stats = handler_stats_default, pg_kernel = ref_empty, pg_dropped = 0\<rparr>"
  let ?s1 = "?s\<lparr>pg_kernel := ?k\<rparr>" and ?s2 = "?s\<lparr>pg_stats := st, pg_kernel := k'\<rparr>"
  let ?s3 = "?s\<lparr>pg_stats := st, pg_kernel := k'\<lparr>rp_pages := Map.empty\<rparr>, pg_dropped := 2\<rparr>"
  have "paging_step ?os ref_raise rp_pages ?h ?r ?s ?s1"
    using paging_step.fault [where s = ?s and p = 62 and h = ?h and raise = ref_raise] h(2) by simp
  then have r1: "paging_reach ?os ref_raise rp_pages ?h ?r ref_empty ?s1" by (rule paging_reach.step [OF paging_reach.start])
  have s2: "paging_step ?os ref_raise rp_pages ?h ?r ?s1 ?s2"
    using paging_step.serve [where s = ?s1 and os = ?os and h = ?h and alive = True and st = st and k = k'] st(1) by simp
  have s3: "paging_step ?os ref_raise rp_pages ?h ?r ?s2 ?s3"
    using paging_step.drop [where s = ?s2 and os = ?os and r = ?r and k = "k'\<lparr>rp_pages := Map.empty\<rparr>" and resident = rp_pages] two
    by (simp add: region_reset_def numeral_2_eq_2)
  have reach: "paging_reach ?os ref_raise rp_pages ?h ?r ref_empty ?s3" by (rule paging_reach.step [OF paging_reach.step [OF r1 s2] s3])
  have copies: "copies_documented ?os ?h (ref_parked_inside 64) rp_pages (page_of demo_image)"
    using ref_copies [of ref_mem ref_src 64 8 False 64] by (simp only: ref_images)
  have watching: "watching_documented ?os ref_raise rp_pages (ref_parked_inside 64) ?h ?r" by (rule ref_watching) simp
  have start: "ref_parked_inside 64 ref_empty" "rp_pages ref_empty = Map.empty"
    by (simp_all add: ref_parked_inside_def ref_empty_def)
  have short: "4096 * unat (h_region_pages ?h) < 2 ^ 63" by (simp only: h(2)) simp
  from demand_paging_invariant [OF h(1) short copies watching start reach]
  have "hs_pages_installed st = 2" by simp
  then show ?thesis using reach by (intro exI [of _ ?s3]) simp
qed

text \<open>The demo succeeds on every kernel that behaves as documented: it restores 64 pages in scattered
  order, verifies every byte it touches, and counts six faults for the six distinct pages.\<close>

theorem demo_restores_image:
  assumes "uffd_new os k0 True = (Inr (u, restricted), k1)" "region_new os k1 DEMO_PAGES = (Ok r, k2)"
    "register_missing os k2 u (rgn_ptr r) (rgn_len r) = (Inr i, k3)"
    and "handler_ok (demo_handler u r (place k2 demo_image))" "region_pages r = DEMO_PAGES"
    and "pager_faithful os raise resident live waiting (demo_handler u r (place k2 demo_image)) (page_of demo_image)"
    and "live k3" "resident k3 = Map.empty"
  shows "\<exists>st k'. uffd_demo os raise resident place k0 = Some (Ok st, k') \<and> hs_faults st = 6 \<and> hs_pages_installed st = 6"
  by (rule demo_restores [where place = place and resident = resident and live = live, OF assms])

lemma demo_restores_image_witness:
  "\<exists>st k'. uffd_demo (ref_uos ref_mem) ref_raise rp_pages ref_place ref_empty = Some (Ok st, k') \<and> hs_faults st = 6"
proof -
  let ?r = "\<lparr>rgn_ptr = ref_region, rgn_len = 64 * PAGE\<rparr>" and ?k = "ref_empty\<lparr>rp_pages := Map.empty\<rparr>"
  have h: "demo_handler ref_uffd ?r (ref_place ?k demo_image) = ref_handler ref_src 64 1 False"
    by (simp add: ref_handlers ref_images)
  have r: "region_pages ?r = DEMO_PAGES" by (simp add: ref_region_pages DEMO_PAGES_def)
  have ok: "handler_ok (demo_handler ref_uffd ?r (ref_place ?k demo_image))"
    and pager: "pager_faithful (ref_uos ref_mem) ref_raise rp_pages ref_live (ref_waiting 64)
      (demo_handler ref_uffd ?r (ref_place ?k demo_image)) (page_of demo_image)"
    unfolding h using ref_handler_ok [of 1 64 ref_src False] ref_pager_faithful [of 64 ref_mem ref_src 1 False]
    by (simp_all add: ref_src_def [symmetric] ref_images) (simp add: ref_src_def)
  have "region_new (ref_uos ref_mem) ref_empty DEMO_PAGES = (Ok ?r, ?k)" "ref_live ?k" "rp_pages ?k = Map.empty"
    by (simp_all add: ref_calls DEMO_PAGES_def ref_live_def)
  then have "\<exists>st k'. uffd_demo (ref_uos ref_mem) ref_raise rp_pages ref_place ref_empty = Some (Ok st, k') \<and>
      hs_faults st = 6 \<and> hs_pages_installed st = 6"
    by (intro demo_restores_image [where place = ref_place and resident = rp_pages and live = ref_live,
          OF ref_calls(1) _ ref_calls(3) ok r pager]) simp_all
  then show ?thesis by blast
qed

text \<open>C36: A whole run of \<^verbatim>\<open>--bench [--reverse] --out path\<close> on a kernel that behaves as documented: the demo
  verifies, every configuration of the sweep succeeds, and its row reports 25 faults per batch of its
  walk (none without userfaultfd), 102400 samples and their ordered percentiles. The file reads back
  as the samples of each row in the order they were taken, under keys that tell the rows apart.\<close>

theorem sweep_reports:
  assumes "uffd_ready os ho"
  shows "\<exists>rows k. uffd_main os ho (sweep_command reverse path) k0 =
      Some (Run (Ok (Some (rows, Some (path, sweep_csv rows)))), k) \<and>
    list_all2 row_reports (sweep_configs (host_topology ho) reverse) rows \<and>
    distinct (map (csv_key \<circ> fst) rows) \<and>
    read_samples (sweep_csv rows) = concat (map (\<lambda>(label, batch, r).
      map (\<lambda>(i, ns). Some (csv_key label, i, unat ns)) (enumerate 0 (rr_samples r))) rows)"
proof -
  obtain rows k where run: "uffd_main os ho (sweep_command reverse path) k0 =
        Some (Run (Ok (Some (rows, Some (path, sweep_csv rows)))), k)"
      "list_all2 row_reports (sweep_configs (host_topology ho) reverse) rows"
    using uffd_main_sweep [OF assms] by blast
  have "map (csv_key \<circ> fst) rows = map (csv_key \<circ> cf_label) (sweep_configs (host_topology ho) reverse)"
    using rows_of_configs(1) [OF run(2)] by (metis map_map)
  then have "distinct (map (csv_key \<circ> fst) rows)" by (simp only: sweep_keys_distinct)
  then show ?thesis using run read_sweep_csv [OF rows_of_configs(3) [OF run(2)]] by blast
qed

lemma sweep_reports_witness:
  "\<exists>rows k. uffd_main (ref_uos ref_mem) ref_host (sweep_command True ''out.csv'') ref_empty =
      Some (Run (Ok (Some (rows, Some (''out.csv'', sweep_csv rows)))), k) \<and>
    map (\<lambda>(label, batch, r). (batch, rr_faults r)) rows =
      [(64, 1600), (16, 6400), (8, 12800), (4, 25600), (2, 51200), (1, 102400), (1, 102400), (1, 102400),
       (1, 102400), (1, 102400), (1, 102400), (0, 0)]"
proof -
  obtain rows k where run: "uffd_main (ref_uos ref_mem) ref_host (sweep_command True ''out.csv'') ref_empty =
        Some (Run (Ok (Some (rows, Some (''out.csv'', sweep_csv rows)))), k)"
      "list_all2 row_reports (sweep_configs (host_topology ref_host) True) rows"
    using sweep_reports [OF ref_ready] by blast
  have "map (\<lambda>cfg. (cf_batch cfg, of_nat (config_faults cfg) :: u64)) (sweep_configs (host_topology ref_host) True) =
      [(64, 1600), (16, 6400), (8, 12800), (4, 25600), (2, 51200), (1, 102400), (1, 102400), (1, 102400),
       (1, 102400), (1, 102400), (1, 102400), (0, 0)]"
    by (simp add: ref_topology sweep_configs_def placement_configs_def batch_configs_def baseline_config_def
        cpu_for_def config_faults_def)
  then show ?thesis using run rows_of_configs(2) [OF run(2)] by (intro exI [of _ rows] exI [of _ k]) simp
qed



section \<open>The port\<close>



text \<open>C35: When the port's handler dies, the kernel fills the remaining pages with zeros instead of letting
  the reader wait; the program notices by its count of faults. Here the crate's first copy fails.\<close>

theorem dead_handler_detected:
  assumes "port_started os cr ho k0 h k1" "live k1" "port_events os cr ho h live waiting"
    and "\<And>fd src dst len wake k. \<exists>e k'. uc_copy cr fd src dst len wake k = (Inl e, k') \<and> ho_resident ho k' = ho_resident ho k"
    and "\<And>k p. ho_resident ho (ho_anon ho k p) = (ho_resident ho k)(p \<mapsto> replicate 4096 0)"
  shows "\<exists>k'. uffd_port os cr ho k0 = Some (Err (WrongFaultCount 1), k')"
  by (rule uffd_port_dead [OF assms])

lemma dead_handler_detected_witness:
  "\<exists>k'. uffd_port (ref_uos ref_mem) ref_failing_crate ref_host ref_empty = Some (Err (WrongFaultCount 1), k')"
proof -
  have "port_started (ref_uos ref_mem) ref_failing_crate ref_host ref_empty ref_port_handler (ref_empty\<lparr>rp_pages := Map.empty\<rparr>)"
    "port_events (ref_uos ref_mem) ref_failing_crate ref_host ref_port_handler ref_live (ref_waiting 64)"
    by (rule ref_port_started ref_port_events; simp)+
  moreover have "\<exists>e k'. uc_copy ref_failing_crate fd src dst len wake k = (Inl e, k') \<and> ho_resident ref_host k' = ho_resident ref_host k"
    for fd src dst len wake k
    by (simp add: ref_failing_crate_def)
  moreover have "ho_resident ref_host (ho_anon ref_host k p) = (ho_resident ref_host k)(p \<mapsto> replicate 4096 0)" for k p
    by (simp add: ref_host_def)
  moreover have "ref_live (ref_empty\<lparr>rp_pages := Map.empty\<rparr>)" by (simp add: ref_live_def)
  ultimately show ?thesis by (intro dead_handler_detected)
qed

section \<open>The calls\<close>

text \<open>\<^verbatim>\<open>Uffd::copy\<close> reports a page that was already present as nothing copied, whether the kernel says so
  in the error number or in the structure, every other negative answer as an error, and otherwise
  the number of bytes.\<close>

theorem copy_outcomes:
  "fst (uffd_copy os k u dst src len wake) =
    (case fst (os k (IoctlCopy (uf_fd u) UFFDIO_COPY
         \<lparr>cp_dst = dst, cp_src = src, cp_len = len,
          cp_mode = (if wake then 0 else UFFDIO_COPY_MODE_DONTWAKE), cp_copy = 0\<rparr>)) of
       Inl e \<Rightarrow> if e = U_EEXIST then Inr 0 else Inl (UOs e)
     | Inr r \<Rightarrow>
         if sint (cp_copy (ur_copy r)) < 0 then
           if sint (cp_copy (ur_copy r)) = - U_EEXIST then Inr 0
           else Inl (UOs (sint (ucast (- cp_copy (ur_copy r)) :: u32)))
         else Inr (cp_copy (ur_copy r)))"
  by (rule uffd_copy_outcome)

text \<open>\<^verbatim>\<open>read_event\<close> has no event exactly when the poll was interrupted or timed out or another reader took
  the message; it never mistakes an error for the absence of an event.\<close>

theorem no_event_iff:
  "fst (read_event os k u t) = Inr None \<longleftrightarrow>
    (\<exists>k1. os k (PollIn (uf_fd u) t) = (Inl U_EINTR, k1)) \<or>
    (\<exists>n k1. os k (PollIn (uf_fd u) t) = (Inr n, k1) \<and>
      (ur_val n = 0 \<or> fst (os k1 (ReadFd (uf_fd u) 32)) = Inl U_EAGAIN))"
  by (rule read_event_None_iff)

section \<open>Topology\<close>

text \<open>C38: The parser of CPU lists inverts what sysfs prints: single CPUs and ranges, separated by commas and
  ended by a newline, give the CPUs in order.\<close>

theorem cpu_list_round_trip:
  assumes "list_all (\<lambda>e. fst e \<le> snd e \<and> snd e < 2 ^ 64) es" "fs path = Some (render_list es @ [char_of (10 :: nat)])"
  shows "read_list fs path = concat (map (\<lambda>e. [fst e ..< Suc (snd e)]) es)"
  by (rule read_list_render [where fs = fs and path = path, OF assms])

lemma cpu_list_round_trip_witness:
  "read_list (\<lambda>path. Some (render_list [(0, 2), (4, 4)] @ [char_of (10 :: nat)])) ''x'' = [0, 1, 2, 4]"
  using cpu_list_round_trip [of "[(0, 2), (4, 4)]" "\<lambda>path. Some (render_list [(0, 2), (4, 4)] @ [char_of (10 :: nat)])" "''x''"]
  by (simp add: upt_rec)


section \<open>The binary interface\<close>

text \<open>The structures have the sizes the source asserts, and the request numbers built from them are the
  kernel's.\<close>

theorem uffd_interface:
  "struct_size uffdio_api_fields = 24 \<and> struct_size uffdio_range_fields = 16 \<and>
   struct_size uffdio_register_fields = 32 \<and> struct_size uffdio_copy_fields = 40 \<and>
   struct_size uffdio_zeropage_fields = 32 \<and> struct_size uffd_msg_fields = 32 \<and>
   UFFDIO_API = 0xC018AA3F \<and> UFFDIO_REGISTER = 0xC020AA00 \<and> UFFDIO_UNREGISTER = 0x8010AA01 \<and>
   UFFDIO_WAKE = 0x8010AA02 \<and> UFFDIO_COPY = 0xC028AA03 \<and> UFFDIO_ZEROPAGE = 0xC020AA04"
  by (simp add: uffd_struct_sizes uffd_request_numbers)

text \<open>C40: A CPU without a \<^verbatim>\<open>core_id\<close> file, such as one that is offline while a CPU with a larger number is not,
  is taken for a different core, although nothing is known of its core.\<close>

theorem offline_cpu_chosen:
  assumes "1 < n" "fs (cpu_file 1 ''core_id'') = None" "read_first fs (cpu_file 0 ''core_id'') = Some core"
    and "tp_smt_sibling (detect fs n 0) \<noteq> Some 1"
  shows "cpu_for (detect fs n 0) OtherCore = Some 1"
proof -
  have "[0 ..< n] = 0 # 1 # [2 ..< n]" using assms(1) by (simp add: upt_conv_Cons numeral_2_eq_2)
  moreover have "read_first fs (cpu_file 1 ''core_id'') = None" using assms(2) by (simp add: read_first_def read_list_def)
  ultimately show ?thesis using assms(3,4) by (simp add: detect_def cpu_for_def Let_def)
qed

text \<open>Two CPUs on line, 0 and 2, both of core 0.\<close>

lemma offline_cpu_chosen_witness:
  "cpu_for (detect (\<lambda>path. if path = cpu_file 1 ''core_id'' then None else Some (render_list [(0, 0)] @ [char_of (10 :: nat)]))
     (num_cpus 2) 0) OtherCore = Some 1"
proof -
  let ?fs = "\<lambda>path. if path = cpu_file 1 ''core_id'' then None else Some (render_list [(0, 0)] @ [char_of (10 :: nat)])"
  have read: "read_list ?fs path = [0]" if "path \<noteq> cpu_file 1 ''core_id''" for path
    using that by (subst read_list_render [where es = "[(0, 0)]"]) simp_all
  have other: "cpu_file 0 ''core_id'' \<noteq> cpu_file 1 ''core_id''" by (simp add: cpu_file_inj)
  have "cpu_file 0 ''thread_siblings_list'' \<noteq> cpu_file 1 ''core_id''"
    by (rule notI, drule arg_cong [of _ _ last]) (simp add: cpu_file_def)
  then have "read_list ?fs (cpu_file 0 ''thread_siblings_list'') = [0]" by (rule read)
  then have "tp_smt_sibling (detect ?fs (num_cpus 2) 0) = None" by (simp only: detect_def Let_def) simp
  moreover have "read_first ?fs (cpu_file 0 ''core_id'') = Some 0" by (simp only: read_first_def read [OF other] list.case)
  ultimately show ?thesis by (intro offline_cpu_chosen [where core = 0]) (simp_all add: num_cpus_def)
qed

end
