(* ===== verification/Spec2Isabelle.thy ===== *)
theory Spec2Isabelle
  imports VqProperties KvmProperties UffdProperties
begin

text \<open>
  A verification library for the three runnable rungs of the repository.

  \<^bold>\<open>The program.\<close> \<^verbatim>\<open>rung-01-kvm/toy-kvm-raw\<close> is a virtual machine monitor on raw KVM ioctls: it creates a
  machine with 32 KiB of RAM, loads a program, enters the vCPU and dispatches its exits to a serial
  port, a benchmark port and a memory-mapped latch. \<^verbatim>\<open>rung-02-virtio/toy-virtq-raw\<close> is both sides of a
  split virtqueue in a shared region: a driver that publishes descriptor chains and a device that
  walks and completes them, with notification suppression. \<^verbatim>\<open>rung-03-uffd/toy-uffd-raw\<close> restores a
  memory image on demand: a handler thread serves the page faults of another thread through
  userfaultfd. The rungs share no code; a \<^verbatim>\<open>toy-*-crates\<close> program beside each does the same over
  third-party crates.

  \<^bold>\<open>Shared theories.\<close>
  \<^item> \<open>Prelude\<close>: the integer types, results (\<open>Ok\<close>, \<open>Err\<close>, \<open>Panic\<close>), checked addition, little-endian bytes,
    windows of byte lists.
  \<^item> \<open>Strings\<close>, \<open>Samples\<close>: the string operations of the standard library that the programs use, percentiles
    in double precision, files of samples.
  \<^item> \<open>CLayout\<close>: layout of C structures and packing of bit fields, for the two raw interfaces.

  \<^bold>\<open>Virtqueue.\<close>
  \<^item> \<open>VqMem\<close> (\<^verbatim>\<open>mem.rs\<close>): the region and its checked accessors; the locale \<open>cell\<close> is what the other theories use
    of a typed field, interpreted for 16 and 32 bits.
  \<^item> \<open>VqLayout\<close> (\<^verbatim>\<open>layout.rs\<close>): placement of a queue, addresses of its fields, \<open>need_event\<close>.
  \<^item> \<open>VqRings\<close>: the two rings as bounded queues; the locale \<open>spsc_ring\<close> gives push and pop, interpreted
    for the available and the used ring.
  \<^item> \<open>VqChain\<close> (\<^verbatim>\<open>device.rs\<close>, \<^verbatim>\<open>ChainIter\<close>): the walk of an untrusted chain, shown equivalent to the
    specification's valid chains.
  \<^item> \<open>VqDevice\<close> (\<^verbatim>\<open>device.rs\<close>, \<^verbatim>\<open>Device\<close>) and \<open>VqDriver\<close> (\<^verbatim>\<open>driver.rs\<close>): the two sides, one definition per method.
  \<^item> \<open>VqQueue\<close>: both sides as a transition system with the guest's own writes; the invariant \<open>queue_inv\<close>
    and what collecting and serving do to a reachable queue.
  \<^item> \<open>VqBatch\<close>: chains in flight together; a burst of requests served in one call, each reply intact.
  \<^item> \<open>VqNotify\<close>: the locale \<open>notifier\<close> with the law of event indices, interpreted for kicks and for
    interrupts; no wakeup is lost.
  \<^item> \<open>VqHostile\<close>: what malformed chains yield, and the guest that keeps the device busy for ever.
  \<^item> \<open>VqAttack\<close>, \<open>VqDemo\<close>, \<open>VqBench\<close> (\<^verbatim>\<open>main.rs\<close>): the five hostile chains, the demo on any requests that fit,
    the benchmarked walks and the notification benchmark with its table.
  \<^item> \<open>VqReport\<close> (\<^verbatim>\<open>main.rs\<close>): summaries, files, and the program from its command line.
  \<^item> \<open>VqCrates\<close> (\<^verbatim>\<open>toy-virtq-crates\<close>): the device ported to \<^verbatim>\<open>virtio-queue\<close> and \<^verbatim>\<open>vm-memory\<close> as a parameter.
  \<^item> \<open>VqExample\<close> and \<open>VqProperties\<close>: a concrete queue and the properties.

  \<^bold>\<open>KVM.\<close>
  \<^item> \<open>KvmSys\<close> (\<^verbatim>\<open>kvm_sys.rs\<close>), \<open>KvmDevice\<close> (\<^verbatim>\<open>device.rs\<close>), \<open>KvmGuest\<close> (\<^verbatim>\<open>guest.rs\<close>, with a machine for the eight
    instructions the programs use), \<open>KvmVmm\<close> (\<^verbatim>\<open>vmm.rs\<close>).
  \<^item> \<open>KvmTeardown\<close> (\<^verbatim>\<open>vmm.rs\<close>): what \<^verbatim>\<open>Vm::new\<close> acquires and when it is released.
  \<^item> \<open>KvmRun\<close>: the run loop refines the guest attached directly to the devices, through any number of
    interrupted entries.
  \<^item> \<open>KvmMain\<close>, \<open>KvmBench\<close> (\<^verbatim>\<open>main.rs\<close>): the demo and the benchmark's rounds, a reference kernel; the statistics,
    the file of samples, and the program from its command line.
  \<^item> \<open>KvmCrates\<close> (\<^verbatim>\<open>toy-kvm-crates\<close>): the port, over \<^verbatim>\<open>kvm-ioctls\<close> and \<^verbatim>\<open>vm-memory\<close> as a parameter.
  \<^item> \<open>KvmProperties\<close>: the properties.

  \<^bold>\<open>userfaultfd.\<close>
  \<^item> \<open>UffdSys\<close> (\<^verbatim>\<open>uffd_sys.rs\<close>), \<open>Uffd\<close> (\<^verbatim>\<open>uffd.rs\<close>), \<open>Topology\<close> (\<^verbatim>\<open>topology.rs\<close>).
  \<^item> \<open>UffdHandler\<close>, \<open>UffdDemo\<close> (\<^verbatim>\<open>main.rs\<close>): the handler loop, the restore, walks with prefaulting, the demo.
  \<^item> \<open>UffdBench\<close> (\<^verbatim>\<open>main.rs\<close>): the sweep of configurations, its statistics and file, and the program from its
    command line.
  \<^item> \<open>UffdRef\<close>: a reference kernel and host.
  \<^item> \<open>UffdSystem\<close>: faulting threads, handler and region as a transition system, and its invariant
    \<open>paging_inv\<close>.
  \<^item> \<open>UffdCrates\<close> (\<^verbatim>\<open>toy-uffd-crates\<close>): the pager ported to the crate \<^verbatim>\<open>userfaultfd\<close> as a parameter.
  \<^item> \<open>UffdProperties\<close>: the properties.

  \<^bold>\<open>The environment.\<close> System calls are a parameter, a function from a kernel state and a call to an answer and
  a new state. Properties that rely on the kernel name what they use of its documentation
  (\<open>kvm_faithful\<close>, \<open>kvm_documented\<close>, \<open>kvm_resets\<close>, \<open>pager_faithful\<close>, \<open>watching_documented\<close>, \<open>uffd_ready\<close>); a reference
  kernel satisfies each. The crates of a port are a parameter in the same way (\<open>crate_documented\<close>,
  \<open>queue_crate_documented\<close>, \<open>port_events\<close>, \<open>port_copies\<close>). The
  device's work function is a parameter too, and the guest may write anywhere between operations,
  outside the queue in the protocol properties and everywhere in those on hostile input.

  \<^bold>\<open>Bounds and loops.\<close> No fuel is used in a model. Loops that end are recursive functions with their measure
  (the walk, the collection of completions); loops that need not are partial functions whose value
  \<open>None\<close> is running for ever (\<open>process\<close>, \<open>run\<close>, \<open>bench_rounds\<close>, \<open>read_event_spin\<close>, \<open>handler_loop\<close>,
  \<open>notify_loop\<close>, \<open>port_loop\<close>, \<open>serve_page\<close>, \<open>port_serve\<close>), and the
  properties show when they return. Words keep their width and wrap as in the release profile;
  regions and pages are shorter than 2^63 bytes, as every Rust allocation is.

  \<^bold>\<open>Not modelled.\<close> Printing and tracing, failures of writing a file, closing and unmapping on drop outside
  \<^verbatim>\<open>Vm\<close>, memory
  ordering (driver and device, and the threads of the restore, interleave at whole operations), the tests, the
  scripts and the documents.
\<close>

end
